(* ===== verification/Prelude.thy ===== *)
theory Prelude
  imports Main "HOL-Library.Word" "HOL-Library.Multiset" "HOL-Library.Signed_Division"
begin

text \<open>
  Shared vocabulary of the development. The programs are C, so this theory fixes how the
  recurring C idioms are read: machine integers, the array scan
  \<^verbatim>\<open>for (i = 0; i < MAX; i++) if (P(a[i])) { ...; break; }\<close> (\<open>first_index\<close>), the truncating
  division and remainder of C (\<open>sdiv\<close> and \<open>smod\<close> of the library), and addresses of heap
  blocks. It also declares the collections of facts the component proofs share.
\<close>

named_theorems wf_simps \<open>definitions of well-formedness predicates\<close>
named_theorems op_simps \<open>unfolding rules of modelled operations\<close>
named_theorems inv_intros \<open>preservation lemmas of invariants\<close>

type_synonym addr = nat
type_synonym fd = int
type_synonym byte = "8 word"
type_synonym u32 = "32 word"
type_synonym u64 = "64 word"

text \<open>The range of a 32 bit \<^verbatim>\<open>int\<close>.\<close>

definition in_int32 :: "int \<Rightarrow> bool" where
  "in_int32 x \<longleftrightarrow> - (2 ^ 31) \<le> x \<and> x < 2 ^ 31"

section \<open>Array scans\<close>

text \<open>The index of the first element that satisfies a predicate, as a scan with \<^verbatim>\<open>break\<close> finds it.\<close>

fun first_index :: "('a \<Rightarrow> bool) \<Rightarrow> 'a list \<Rightarrow> nat option" where
  "first_index P [] = None"
| "first_index P (x # xs) = (if P x then Some 0 else map_option Suc (first_index P xs))"

lemma first_index_None: "first_index P xs = None \<longleftrightarrow> (\<forall>x \<in> set xs. \<not> P x)"
  by (induction xs) auto

lemma first_index_Some:
  "first_index P xs = Some i \<longleftrightarrow> i < length xs \<and> P (xs ! i) \<and> (\<forall>j < i. \<not> P (xs ! j))"
proof (induction xs arbitrary: i)
  case Nil
  then show ?case by simp
next
  case (Cons x xs)
  show ?case
    by (cases i) (auto simp: Cons.IH less_Suc_eq_0_disj)
qed

lemma first_index_SomeD:
  assumes "first_index P xs = Some i"
  shows "i < length xs" "P (xs ! i)" "\<And>j. j < i \<Longrightarrow> \<not> P (xs ! j)"
  using assms by (auto simp: first_index_Some)

lemma first_index_unique:
  assumes "i < length xs" "P (xs ! i)" "\<And>j. j < length xs \<Longrightarrow> P (xs ! j) \<Longrightarrow> j = i"
  shows "first_index P xs = Some i"
proof -
  have "\<not> P (xs ! j)" if "j < i" for j
    using assms(1) assms(3) [of j] that by auto
  with assms(1,2) show ?thesis by (simp add: first_index_Some)
qed

section \<open>Lists updated by index\<close>

lemma nth_list_update_iff:
  "i < length xs \<Longrightarrow> (xs[i := v]) ! j = (if i = j then v else xs ! j)"
  by (simp add: nth_list_update)

lemma in_set_update:
  "i < length xs \<Longrightarrow> y \<in> set (xs[i := x]) \<longleftrightarrow> y = x \<or> (\<exists>j < length xs. j \<noteq> i \<and> y = xs ! j)"
  by (auto simp: in_set_conv_nth nth_list_update)

lemma mem_update_other:
  assumes "i < length xs" "y \<noteq> xs ! i"
  shows "y \<in> set (xs[i := x]) \<longleftrightarrow> y = x \<or> y \<in> set xs"
proof -
  have "y \<in> set xs \<longleftrightarrow> (\<exists>j < length xs. j \<noteq> i \<and> y = xs ! j)"
    using assms by (metis in_set_conv_nth)
  with assms(1) show ?thesis by (simp add: in_set_update)
qed

lemma mset_list_update:
  "i < length xs \<Longrightarrow> mset (xs[i := x]) = add_mset x (mset xs - {#xs ! i#})"
  by (rule mset_update)

lemma sum_list_map_update:
  fixes f :: "'a \<Rightarrow> 'b :: comm_monoid_add"
  shows "i < length xs \<Longrightarrow>
    sum_list (map f (xs[i := x])) + f (xs ! i) = sum_list (map f xs) + f x"
  by (induction xs arbitrary: i) (auto simp: ac_simps split: nat.splits)

section \<open>Sequencing fallible steps\<close>

text \<open>\<open>Inl\<close> is an error, after which nothing runs.\<close>

fun and_then :: "'e + 'a \<Rightarrow> ('a \<Rightarrow> 'e + 'b) \<Rightarrow> 'e + 'b" where
  "and_then (Inl e) f = Inl e"
| "and_then (Inr x) f = f x"

lemma and_then_Inr: "and_then m f = Inr y \<longleftrightarrow> (\<exists>x. m = Inr x \<and> f x = Inr y)"
  by (cases m) auto

section \<open>Copying into a buffer\<close>

text \<open>\<^verbatim>\<open>memcpy(buf + off, data, n)\<close> for data of length \<open>n\<close>.\<close>

definition blit :: "'a list \<Rightarrow> nat \<Rightarrow> 'a list \<Rightarrow> 'a list" where
  "blit buf off data = take off buf @ data @ drop (off + length data) buf"

lemma length_blit: "off + length data \<le> length buf \<Longrightarrow> length (blit buf off data) = length buf"
  by (simp add: blit_def)

lemma take_blit [simp]: "take (length data) (blit buf 0 data) = data"
  by (simp add: blit_def)

section \<open>Truncating remainder\<close>

lemma smod_nonneg [simp]: "0 \<le> (a::int) \<Longrightarrow> 0 < b \<Longrightarrow> a smod b = a mod b"
  by (simp add: signed_modulo_int_def signed_divide_int_def minus_mult_div_eq_mod sgn_if
      flip: minus_mult_div_eq_mod)

lemma sdiv_nonneg [simp]: "0 \<le> (a::int) \<Longrightarrow> 0 < b \<Longrightarrow> a sdiv b = a div b"
  by (simp add: signed_divide_int_def sgn_if)

end
