(* ===== verification/Fifo.thy ===== *)
theory Fifo
  imports Prelude
begin

text \<open>
  The interface of a bounded first-in first-out queue. A provider gives non-blocking attempts
  to put and get (\<open>None\<close> where the caller would have to wait) and an abstraction to a list; the
  client facts are proved once: whatever the sequence of attempts, what was taken out followed by
  what is left is what was there followed by what was put in, and the queue never overflows.
\<close>

datatype 'a fifo_op = Put 'a | Get

text \<open>Run attempts in order, collecting the accepted puts and the values got.\<close>

fun fifo_run ::
  "('q \<Rightarrow> 'a \<Rightarrow> 'q option) \<Rightarrow> ('q \<Rightarrow> ('a \<times> 'q) option) \<Rightarrow> 'q \<Rightarrow> 'a fifo_op list
    \<Rightarrow> 'a list \<times> 'a list \<times> 'q" where
  "fifo_run enq deq q [] = ([], [], q)"
| "fifo_run enq deq q (Put x # ops) =
     (case enq q x of
        None \<Rightarrow> fifo_run enq deq q ops
      | Some q' \<Rightarrow> (let (puts, gets, r) = fifo_run enq deq q' ops in (x # puts, gets, r)))"
| "fifo_run enq deq q (Get # ops) =
     (case deq q of
        None \<Rightarrow> fifo_run enq deq q ops
      | Some (x, q') \<Rightarrow> (let (puts, gets, r) = fifo_run enq deq q' ops in (puts, x # gets, r)))"

locale bounded_fifo =
  fixes enq :: "'q \<Rightarrow> 'a \<Rightarrow> 'q option"
    and deq :: "'q \<Rightarrow> ('a \<times> 'q) option"
    and contents :: "'q \<Rightarrow> 'a list"
    and invar :: "'q \<Rightarrow> bool"
    and cap :: nat
  assumes bounded: "invar q \<Longrightarrow> length (contents q) \<le> cap"
    and enq_None: "invar q \<Longrightarrow> enq q x = None \<longleftrightarrow> length (contents q) = cap"
    and enq_contents: "invar q \<Longrightarrow> enq q x = Some q' \<Longrightarrow> contents q' = contents q @ [x]"
    and enq_invar: "invar q \<Longrightarrow> enq q x = Some q' \<Longrightarrow> invar q'"
    and deq_None: "invar q \<Longrightarrow> deq q = None \<longleftrightarrow> contents q = []"
    and deq_contents: "invar q \<Longrightarrow> deq q = Some (x, q') \<Longrightarrow> contents q = x # contents q'"
    and deq_invar: "invar q \<Longrightarrow> deq q = Some (x, q') \<Longrightarrow> invar q'"
begin

lemma run_fifo:
  "invar q \<Longrightarrow> fifo_run enq deq q ops = (puts, gets, r) \<Longrightarrow>
     gets @ contents r = contents q @ puts \<and> invar r"
proof (induction ops arbitrary: q puts gets r)
  case Nil
  then show ?case by simp
next
  case (Cons oper ops)
  show ?case
  proof (cases oper)
    case (Put x)
    show ?thesis
    proof (cases "enq q x")
      case None
      with Put Cons show ?thesis by simp
    next
      case (Some q')
      then have "contents q' = contents q @ [x]" and "invar q'"
        using Cons.prems(1) by (auto intro: enq_contents enq_invar)
      with Some Put Cons show ?thesis
        by (fastforce split: prod.splits)
    qed
  next
    case Get
    show ?thesis
    proof (cases "deq q")
      case None
      with Get Cons show ?thesis by simp
    next
      case (Some p)
      then obtain x q' where p: "deq q = Some (x, q')" by (cases p) auto
      then have "contents q = x # contents q'" and "invar q'"
        using Cons.prems(1) by (auto intro: deq_contents deq_invar)
      with p Get Cons show ?thesis
        by (fastforce split: prod.splits)
    qed
  qed
qed

lemma put_get_roundtrip:
  assumes "invar q" "contents q = []" "enq q x = Some q'"
  shows "\<exists>r. deq q' = Some (x, r) \<and> contents r = []"
proof -
  have c: "contents q' = [x]" and i: "invar q'"
    using assms enq_contents enq_invar by auto
  then obtain y r where "deq q' = Some (y, r)"
    using deq_None [OF i] by (cases "deq q'") auto
  with c i show ?thesis using deq_contents by fastforce
qed

end

end
