(* ===== verification/Transition.thy ===== *)
theory Transition
  imports Prelude
begin

text \<open>
  The contract of a concurrent program as a transition system. \<open>invariant_system\<close>: an invariant
  that holds initially and is kept by every step holds in every reachable state.
  \<open>terminating_system\<close> adds a final condition, progress (an unfinished state can step) and a
  measure that every step decreases: then no run is infinite, every run can be completed, and a
  run that cannot continue has finished. Every concurrent component interprets one of them.
\<close>

locale invariant_system =
  fixes init :: "'s \<Rightarrow> bool"
    and step :: "'s \<Rightarrow> 's \<Rightarrow> bool"
    and inv :: "'s \<Rightarrow> bool"
  assumes inv_init: "init s \<Longrightarrow> inv s"
    and inv_step: "inv s \<Longrightarrow> step s t \<Longrightarrow> inv t"
begin

lemma steps_inv: "step\<^sup>*\<^sup>* s t \<Longrightarrow> inv s \<Longrightarrow> inv t"
  by (induction rule: rtranclp_induct) (auto intro: inv_step)

lemma reachable_inv: "init s \<Longrightarrow> step\<^sup>*\<^sup>* s t \<Longrightarrow> inv t"
  by (rule steps_inv) (auto intro: inv_init)

end

locale terminating_system = invariant_system +
  fixes final :: "'s \<Rightarrow> bool"
    and mu :: "'s \<Rightarrow> nat"
  assumes progress: "inv s \<Longrightarrow> \<not> final s \<Longrightarrow> \<exists>t. step s t"
    and decreases: "inv s \<Longrightarrow> step s t \<Longrightarrow> mu t < mu s"
begin

lemma run_bounded: "(step ^^ n) s t \<Longrightarrow> inv s \<Longrightarrow> n + mu t \<le> mu s"
proof (induction n arbitrary: t)
  case 0
  then show ?case by simp
next
  case (Suc n)
  from Suc.prems(1) obtain u where u: "(step ^^ n) s u" and "step u t"
    by auto
  moreover from u have "inv u"
    using Suc.prems(2) by (metis relpowp_imp_rtranclp steps_inv)
  ultimately have "n + mu u \<le> mu s" and "mu t < mu u"
    using Suc.IH Suc.prems(2) decreases by auto
  then show ?case by simp
qed

lemma stuck_final: "inv s \<Longrightarrow> (\<And>t. \<not> step s t) \<Longrightarrow> final s"
  using progress by blast

lemma reaches_final: "inv s \<Longrightarrow> \<exists>t. step\<^sup>*\<^sup>* s t \<and> final t"
proof (induction s rule: measure_induct_rule [of mu])
  case (less s)
  show ?case
  proof (cases "final s")
    case True
    then show ?thesis by blast
  next
    case False
    with less.prems obtain t where t: "step s t" using progress by blast
    with less.prems have "mu t < mu s" and "inv t"
      by (auto intro: decreases inv_step)
    with less.IH obtain u where "step\<^sup>*\<^sup>* t u" and "final u" by blast
    with t show ?thesis by (meson converse_rtranclp_into_rtranclp)
  qed
qed

lemma run_from_init:
  assumes "init s" "(step ^^ n) s t"
  shows "n \<le> mu s" "\<exists>u. step\<^sup>*\<^sup>* t u \<and> final u"
proof -
  show "n \<le> mu s"
    using run_bounded [OF assms(2) inv_init [OF assms(1)]] by simp
  have "inv t"
    using assms by (meson relpowp_imp_rtranclp reachable_inv)
  then show "\<exists>u. step\<^sup>*\<^sup>* t u \<and> final u"
    by (rule reaches_final)
qed

end

end
