(* ===== verification/WorkQueue.thy ===== *)
theory WorkQueue
  imports Fifo Transition
begin

text \<open>
  The work queue of \<^verbatim>\<open>lesson_9/code_examples/04_work_queue_pattern/04_work_queue_pattern.c\<close>: a ring
  buffer of task pointers shared by a producer (\<^verbatim>\<open>main\<close>) and four workers, guarded by one mutex
  and two condition variables. Every operation locks the mutex first and unlocks it last, so its
  critical section is one atomic function of the queue; where the code calls
  \<^verbatim>\<open>pthread_cond_wait\<close> the section ends with \<open>CondWait\<close> (the mutex is released) and the loop is
  tested again after the wake-up. The signals an operation sends are part of its result. The heap
  blocks of tasks and of task data are explicit, so that a use after free, a double free or a leak is
  visible.
\<close>

section \<open>Data\<close>

definition MAX_QUEUE_SIZE :: int where "MAX_QUEUE_SIZE = 100"
definition NUM_WORKERS :: nat where "NUM_WORKERS = 4"
definition NUM_TASKS :: nat where "NUM_TASKS = 20"

datatype task_function = Process_task

record Task =
  task_id :: int
  task_function :: task_function
  task_data :: addr

record TaskData =
  task_value :: int
  processing_time :: int

record WorkQueue =
  tasks :: "addr list"
  front :: int
  rear :: int
  qcount :: int
  shutdown :: bool

datatype cond = Not_empty | Not_full
datatype wake = Signal cond | Broadcast cond

datatype ('r, 'q) cs_result = CondWait cond | Return 'r 'q "wake list"

record heap =
  task_heap :: "addr \<rightharpoonup> Task"
  data_heap :: "addr \<rightharpoonup> TaskData"

datatype mem_error = UseAfterFree | DoubleFree

section \<open>Operations\<close>

text \<open>\<^verbatim>\<open>malloc\<close> may fail; the array it returns is not initialised (\<open>garbage\<close>).\<close>

definition create_work_queue :: "bool \<Rightarrow> addr list \<Rightarrow> WorkQueue option" where
  "create_work_queue malloc_ok garbage =
     (if \<not> malloc_ok then None
      else Some \<lparr>tasks = garbage, front = 0, rear = -1, qcount = 0, shutdown = False\<rparr>)"

definition enqueue_task :: "WorkQueue \<Rightarrow> addr \<Rightarrow> (bool, WorkQueue) cs_result" where
  "enqueue_task queue task =
     (if qcount queue = MAX_QUEUE_SIZE \<and> \<not> shutdown queue then CondWait Not_full
      else if shutdown queue then Return False queue []
      else (let r = (rear queue + 1) smod MAX_QUEUE_SIZE
            in Return True
                 (queue\<lparr>rear := r, tasks := (tasks queue)[nat r := task], qcount := qcount queue + 1\<rparr>)
                 [Signal Not_empty]))"

definition dequeue_task :: "WorkQueue \<Rightarrow> (addr option, WorkQueue) cs_result" where
  "dequeue_task queue =
     (if qcount queue = 0 \<and> \<not> shutdown queue then CondWait Not_empty
      else if qcount queue = 0 then Return None queue []
      else Return (Some (tasks queue ! nat (front queue)))
             (queue\<lparr>front := (front queue + 1) smod MAX_QUEUE_SIZE, qcount := qcount queue - 1\<rparr>)
             [Signal Not_full])"

definition shutdown_work_queue :: "WorkQueue \<Rightarrow> WorkQueue \<times> wake list" where
  "shutdown_work_queue queue =
     (queue\<lparr>shutdown := True\<rparr>, [Broadcast Not_empty, Broadcast Not_full])"

definition free_task :: "heap \<Rightarrow> addr \<Rightarrow> mem_error + heap" where
  "free_task h a = (case task_heap h a of None \<Rightarrow> Inl DoubleFree
                    | Some _ \<Rightarrow> Inr (h\<lparr>task_heap := (task_heap h)(a := None)\<rparr>))"

definition free_data :: "heap \<Rightarrow> addr \<Rightarrow> mem_error + heap" where
  "free_data h a = (case data_heap h a of None \<Rightarrow> Inl DoubleFree
                    | Some _ \<Rightarrow> Inr (h\<lparr>data_heap := (data_heap h)(a := None)\<rparr>))"

function destroy_work_queue :: "WorkQueue \<Rightarrow> heap \<Rightarrow> mem_error + heap" where
  "destroy_work_queue queue h =
     (if qcount queue > 0 then
        (let task = tasks queue ! nat (front queue);
             queue' = queue\<lparr>front := (front queue + 1) smod MAX_QUEUE_SIZE, qcount := qcount queue - 1\<rparr>
         in case task_heap h task of
              None \<Rightarrow> Inl UseAfterFree
            | Some t \<Rightarrow>
                (case free_data h (task_data t) of
                   Inl e \<Rightarrow> Inl e
                 | Inr h1 \<Rightarrow> (case free_task h1 task of
                                 Inl e \<Rightarrow> Inl e
                               | Inr h2 \<Rightarrow> destroy_work_queue queue' h2)))
      else Inr h)"
  by pat_completeness auto
termination
  by (relation "measure (\<lambda>(q, h). nat (qcount q))") auto

declare destroy_work_queue.simps [simp del]

text \<open>
  \<^verbatim>\<open>process_task\<close> reads its data block and reports the value and its square; a worker runs the
  function of the task it took and then frees the task (and not its data).
\<close>

definition process_task :: "TaskData \<Rightarrow> int \<times> int" where
  "process_task d = (task_value d, task_value d * task_value d)"

definition run_task :: "heap \<Rightarrow> addr \<Rightarrow> mem_error + ((int \<times> int) \<times> heap)" where
  "run_task h task =
     (case task_heap h task of
        None \<Rightarrow> Inl UseAfterFree
      | Some t \<Rightarrow>
          (case data_heap h (task_data t) of
             None \<Rightarrow> Inl UseAfterFree
           | Some d \<Rightarrow>
               (case task_function t of
                  Process_task \<Rightarrow>
                    (case free_task h task of Inl e \<Rightarrow> Inl e | Inr h' \<Rightarrow> Inr (process_task d, h')))))"

section \<open>The queue refines a bounded list\<close>

definition wq_contents :: "WorkQueue \<Rightarrow> addr list" where
  "wq_contents q = map (\<lambda>i. tasks q ! nat ((front q + int i) mod MAX_QUEUE_SIZE)) [0..<nat (qcount q)]"

definition wq_wf :: "WorkQueue \<Rightarrow> bool" where
  "wq_wf q \<longleftrightarrow> length (tasks q) = nat MAX_QUEUE_SIZE \<and>
     0 \<le> front q \<and> front q < MAX_QUEUE_SIZE \<and>
     - 1 \<le> rear q \<and> rear q < MAX_QUEUE_SIZE \<and>
     0 \<le> qcount q \<and> qcount q \<le> MAX_QUEUE_SIZE \<and>
     (rear q + 1) mod MAX_QUEUE_SIZE = (front q + qcount q) mod MAX_QUEUE_SIZE"

lemma MAX_pos [simp]: "0 < MAX_QUEUE_SIZE" "0 \<le> MAX_QUEUE_SIZE" "MAX_QUEUE_SIZE \<noteq> 0"
  by (simp_all add: MAX_QUEUE_SIZE_def)

lemma length_wq_contents [simp]: "length (wq_contents q) = nat (qcount q)"
  by (simp add: wq_contents_def)

lemma wq_contents_Nil: "wq_wf q \<Longrightarrow> wq_contents q = [] \<longleftrightarrow> qcount q = 0"
  by (auto simp: wq_contents_def wq_wf_def)

lemma create_wf:
  "create_work_queue b g = Some q \<Longrightarrow> length g = nat MAX_QUEUE_SIZE \<Longrightarrow>
     wq_wf q \<and> wq_contents q = [] \<and> \<not> shutdown q"
  by (auto simp: create_work_queue_def wq_wf_def wq_contents_def MAX_QUEUE_SIZE_def split: if_splits)

text \<open>The slot an enqueue writes is distinct from the slots in use while the queue is not full.\<close>

lemma ring_slot_distinct:
  assumes "wq_wf q" "i < nat (qcount q)" "qcount q < MAX_QUEUE_SIZE"
  shows "nat ((front q + int i) mod MAX_QUEUE_SIZE) \<noteq> nat ((front q + qcount q) mod MAX_QUEUE_SIZE)"
proof
  assume "nat ((front q + int i) mod MAX_QUEUE_SIZE) = nat ((front q + qcount q) mod MAX_QUEUE_SIZE)"
  then have "(front q + int i) mod MAX_QUEUE_SIZE = (front q + qcount q) mod MAX_QUEUE_SIZE"
    by (simp add: eq_nat_nat_iff)
  then have "MAX_QUEUE_SIZE dvd qcount q - int i"
    by (metis add_diff_cancel_left mod_eq_dvd_iff)
  moreover have "0 < qcount q - int i" "qcount q - int i < MAX_QUEUE_SIZE"
    using assms by auto
  ultimately show False by (auto dest: zdvd_imp_le)
qed

lemma enqueue_contents:
  assumes wf: "wq_wf q" and enq: "enqueue_task q x = Return True q' w"
  shows "wq_wf q' \<and> wq_contents q' = wq_contents q @ [x] \<and> \<not> shutdown q' \<and> \<not> shutdown q
         \<and> w = [Signal Not_empty]"
proof -
  let ?r = "(rear q + 1) mod MAX_QUEUE_SIZE"
  have r: "(rear q + 1) smod MAX_QUEUE_SIZE = ?r"
    using wf by (simp add: wq_wf_def)
  have q': "q' = q\<lparr>rear := ?r, tasks := (tasks q)[nat ?r := x], qcount := qcount q + 1\<rparr>"
    and ns: "\<not> shutdown q" and nf: "qcount q < MAX_QUEUE_SIZE" and w: "w = [Signal Not_empty]"
    using enq wf by (auto simp: enqueue_task_def r wq_wf_def Let_def split: if_splits)
  have slot: "nat ?r < length (tasks q)" "?r = (front q + qcount q) mod MAX_QUEUE_SIZE"
    using wf by (auto simp: wq_wf_def nat_less_iff)
  have "wq_wf q'"
    using wf nf slot by (simp add: q' wq_wf_def order.trans [of "-1" 0] mod_simps) (simp add: algebra_simps)
  moreover have "(tasks q)[nat ?r := x] ! nat ((front q + int i) mod MAX_QUEUE_SIZE)
      = tasks q ! nat ((front q + int i) mod MAX_QUEUE_SIZE)" if "i < nat (qcount q)" for i
    using ring_slot_distinct [OF wf that nf] slot(2) by (metis nth_list_update_neq)
  then have "wq_contents q' = wq_contents q @ [x]"
    using wf nf slot
    by (intro nth_equalityI) (auto simp: q' wq_contents_def wq_wf_def nth_append nat_add_distrib less_Suc_eq)
  ultimately show ?thesis using ns w by (simp add: q')
qed

lemma dequeue_contents:
  assumes wf: "wq_wf q" and deq: "dequeue_task q = Return (Some x) q' w"
  shows "wq_wf q' \<and> wq_contents q = x # wq_contents q' \<and> shutdown q' = shutdown q
         \<and> w = [Signal Not_full]"
proof -
  have q': "q' = q\<lparr>front := (front q + 1) mod MAX_QUEUE_SIZE, qcount := qcount q - 1\<rparr>"
    and x: "x = tasks q ! nat (front q)" and c: "0 < qcount q" and w: "w = [Signal Not_full]"
    using deq wf by (auto simp: dequeue_task_def wq_wf_def split: if_splits)
  have "wq_wf q'"
    using wf c by (simp add: q' wq_wf_def mod_simps)
  moreover have "wq_contents q = x # wq_contents q'"
  proof (rule nth_equalityI)
    show "length (wq_contents q) = length (x # wq_contents q')"
      using c by (simp add: q')
    fix i assume i: "i < length (wq_contents q)"
    show "wq_contents q ! i = (x # wq_contents q') ! i"
    proof (cases i)
      case 0
      then show ?thesis using c wf by (simp add: wq_contents_def x wq_wf_def)
    next
      case (Suc j)
      with i c have "j < nat (qcount q - 1)" by simp
      with Suc i show ?thesis
        by (simp add: q' wq_contents_def mod_simps algebra_simps)
    qed
  qed
  ultimately show ?thesis by (simp add: q' w)
qed

text \<open>The branches in which the operations do not transfer a task.\<close>

lemma enqueue_other:
  "enqueue_task q x = CondWait c \<longleftrightarrow> qcount q = MAX_QUEUE_SIZE \<and> \<not> shutdown q \<and> c = Not_full"
  "enqueue_task q x = Return False q' w \<longleftrightarrow> shutdown q \<and> q' = q \<and> w = []"
  by (auto simp: enqueue_task_def Let_def)

lemma dequeue_other:
  "dequeue_task q = CondWait c \<longleftrightarrow> qcount q = 0 \<and> \<not> shutdown q \<and> c = Not_empty"
  "dequeue_task q = Return None q' w \<longleftrightarrow> qcount q = 0 \<and> shutdown q \<and> q' = q \<and> w = []"
  by (auto simp: dequeue_task_def)

text \<open>Attempts of a running queue, as the interface of \<^theory_text>\<open>Fifo\<close> wants them.\<close>

definition wq_put :: "WorkQueue \<Rightarrow> addr \<Rightarrow> WorkQueue option" where
  "wq_put q x = (case enqueue_task q x of Return True q' _ \<Rightarrow> Some q' | _ \<Rightarrow> None)"

definition wq_get :: "WorkQueue \<Rightarrow> (addr \<times> WorkQueue) option" where
  "wq_get q = (case dequeue_task q of Return (Some x) q' _ \<Rightarrow> Some (x, q') | _ \<Rightarrow> None)"

lemma wq_put_Some: "wq_put q x = Some q' \<longleftrightarrow> (\<exists>w. enqueue_task q x = Return True q' w)"
  by (auto simp: wq_put_def split: cs_result.splits bool.splits)

lemma wq_get_Some: "wq_get q = Some (x, q') \<longleftrightarrow> (\<exists>w. dequeue_task q = Return (Some x) q' w)"
  by (auto simp: wq_get_def split: cs_result.splits option.splits)

interpretation wq: bounded_fifo wq_put wq_get wq_contents "\<lambda>q. wq_wf q \<and> \<not> shutdown q" "nat MAX_QUEUE_SIZE"
proof
  fix q x q'
  assume inv: "wq_wf q \<and> \<not> shutdown q"
  show "length (wq_contents q) \<le> nat MAX_QUEUE_SIZE"
    using inv by (auto simp: wq_wf_def)
  show "(wq_put q x = None) = (length (wq_contents q) = nat MAX_QUEUE_SIZE)"
    using inv by (auto simp: wq_put_def enqueue_task_def Let_def wq_wf_def)
  show "(wq_get q = None) = (wq_contents q = [])"
    using inv by (auto simp: wq_get_def dequeue_task_def wq_contents_Nil)
qed (auto simp: wq_put_Some wq_get_Some dest: enqueue_contents dequeue_contents)

section \<open>Properties\<close>

text \<open>
  C1. The ring buffer is a bounded FIFO queue: from a freshly created queue, for any sequence of
  enqueue and dequeue attempts, the tasks dequeued followed by the tasks still stored are exactly
  the tasks accepted, in order, and at most \<^verbatim>\<open>MAX_QUEUE_SIZE\<close> are stored.
\<close>

theorem work_queue_fifo:
  assumes "create_work_queue True g = Some q" "length g = nat MAX_QUEUE_SIZE"
    and "fifo_run wq_put wq_get q ops = (puts, gets, r)"
  shows "gets @ wq_contents r = puts \<and> length (wq_contents r) \<le> nat MAX_QUEUE_SIZE"
proof -
  have q: "wq_wf q \<and> \<not> shutdown q" "wq_contents q = []"
    using create_wf [OF assms(1,2)] by auto
  have "gets @ wq_contents r = wq_contents q @ puts \<and> wq_wf r \<and> \<not> shutdown r"
    using wq.run_fifo [OF q(1) assms(3)] .
  then show ?thesis using q(2) wq.bounded [of r] by simp
qed

definition wq_fresh :: WorkQueue where
  "wq_fresh = \<lparr>tasks = replicate 100 0, front = 0, rear = -1, qcount = 0, shutdown = False\<rparr>"

lemma wq_fresh_created:
  "create_work_queue True (replicate 100 0) = Some wq_fresh" "length (replicate 100 (0::addr)) = nat MAX_QUEUE_SIZE"
  by (simp_all add: create_work_queue_def wq_fresh_def MAX_QUEUE_SIZE_def)

theorem work_queue_fifo_witness:
  "\<exists>r. fifo_run wq_put wq_get wq_fresh [Put 7, Get, Get, Put 8, Put 9] = ([7, 8, 9], [7], r) \<and>
     [7] @ wq_contents r = [7, 8, 9] \<and> length (wq_contents r) \<le> nat MAX_QUEUE_SIZE"
proof -
  obtain r where r: "fifo_run wq_put wq_get wq_fresh [Put 7, Get, Get, Put 8, Put 9] = ([7, 8, 9], [7], r)"
    by (simp add: wq_put_def wq_get_def enqueue_task_def dequeue_task_def wq_fresh_def MAX_QUEUE_SIZE_def)
  with work_queue_fifo [OF wq_fresh_created r] show ?thesis by blast
qed

end
