(* ===== verification/WorkQueue_System.thy ===== *)
theory WorkQueue_System
  imports WorkQueue
begin

text \<open>
  The work queue program as a whole (\<^verbatim>\<open>worker_thread\<close> and \<^verbatim>\<open>main\<close> of
  \<^verbatim>\<open>lesson_9/code_examples/04_work_queue_pattern/04_work_queue_pattern.c\<close>): \<open>NUM_WORKERS\<close> workers and
  \<^verbatim>\<open>main\<close> interleave at their critical sections. The theory shows that no reachable state uses freed
  memory, that no wake-up is lost, and that every run ends with every task executed exactly once.
  Sleeps and diagnostics have no effect on the state and are not modelled.
\<close>

section \<open>The concurrent program\<close>

text \<open>
  Program counters of a worker (about to call \<^verbatim>\<open>dequeue_task\<close>, blocked in
  \<^verbatim>\<open>pthread_cond_wait(&not_empty)\<close>, holding a dequeued task, returned) and of \<^verbatim>\<open>main\<close> (about to
  allocate task \<open>i\<close>, about to call \<^verbatim>\<open>enqueue_task\<close> with it, blocked on \<open>not_full\<close> inside that call,
  about to shut the queue down, joining worker \<open>i\<close>, about to destroy the queue, returned).
\<close>

datatype wpc = W_Call | W_Wait | W_Exec addr | W_Exit
datatype mpc = M_Create nat | M_Enq nat | M_WaitFull nat | M_Shutdown | M_Join nat | M_Destroy | M_Done

record wq_sys =
  queue :: WorkQueue
  blocks :: heap
  workers :: "wpc list"
  main_pc :: mpc
  enq_log :: "addr list"
  deq_log :: "addr list"
  results :: "(addr \<times> (int \<times> int)) list"
  fault :: "mem_error option"

text \<open>The effect of the signals on the threads that wait.\<close>

fun wake_main :: "wake list \<Rightarrow> mpc \<Rightarrow> mpc" where
  "wake_main ws (M_WaitFull i) =
     (if Signal Not_full \<in> set ws \<or> Broadcast Not_full \<in> set ws then M_Enq i else M_WaitFull i)"
| "wake_main ws p = p"

definition wake_all :: "wpc list \<Rightarrow> wpc list" where
  "wake_all ps = map (\<lambda>p. if p = W_Wait then W_Call else p) ps"

text \<open>\<^verbatim>\<open>pthread_cond_signal\<close> releases one of the waiting threads, any of them, if there is one.\<close>

definition wake_one :: "wpc list \<Rightarrow> wpc list \<Rightarrow> bool" where
  "wake_one ps ps' \<longleftrightarrow>
     (\<exists>i < length ps. ps ! i = W_Wait \<and> ps' = ps[i := W_Call]) \<or> (W_Wait \<notin> set ps \<and> ps' = ps)"

definition wake_workers :: "wake list \<Rightarrow> wpc list \<Rightarrow> wpc list \<Rightarrow> bool" where
  "wake_workers ws ps ps' \<longleftrightarrow>
     (if Broadcast Not_empty \<in> set ws then ps' = wake_all ps
      else if Signal Not_empty \<in> set ws then wake_one ps ps' else ps' = ps)"

text \<open>Task \<open>i\<close> of \<^verbatim>\<open>main\<close>: \<open>rnd i\<close> is the value \<^verbatim>\<open>rand()\<close> returned for it.\<close>

definition make_data :: "(nat \<Rightarrow> int) \<Rightarrow> nat \<Rightarrow> TaskData" where
  "make_data rnd i = \<lparr>task_value = int i + 1, processing_time = 100 + rnd i smod 900\<rparr>"

definition make_task :: "nat \<Rightarrow> Task" where
  "make_task i = \<lparr>task_id = int i + 1, task_function = Process_task, task_data = i\<rparr>"

definition after_enqueue :: "nat \<Rightarrow> mpc" where
  "after_enqueue i = (if Suc i < NUM_TASKS then M_Create (Suc i) else M_Shutdown)"

definition after_join :: "nat \<Rightarrow> mpc" where
  "after_join i = (if Suc i < NUM_WORKERS then M_Join (Suc i) else M_Destroy)"

text \<open>\<^verbatim>\<open>main\<close> after its worker threads are created; thread creation may fail, and then it returns 1.\<close>

definition wq_main :: "WorkQueue \<Rightarrow> bool list \<Rightarrow> int + wq_sys" where
  "wq_main q created =
     (if False \<in> set created then Inl 1
      else Inr \<lparr>queue = q, blocks = \<lparr>task_heap = Map.empty, data_heap = Map.empty\<rparr>,
                workers = map (\<lambda>_. W_Call) created, main_pc = M_Create 0,
                enq_log = [], deq_log = [], results = [], fault = None\<rparr>)"

text \<open>
  One step of \<^verbatim>\<open>main\<close> or of a worker. With \<open>sp\<close> a waiting thread may also wake up without a signal,
  as POSIX allows.
\<close>

inductive main_step :: "(nat \<Rightarrow> int) \<Rightarrow> wq_sys \<Rightarrow> wq_sys \<Rightarrow> bool" for rnd where
  create: "main_pc s = M_Create i \<Longrightarrow>
     main_step rnd s (s\<lparr>blocks := \<lparr>task_heap = (task_heap (blocks s))(i \<mapsto> make_task i),
                                  data_heap = (data_heap (blocks s))(i \<mapsto> make_data rnd i)\<rparr>,
                        main_pc := M_Enq i\<rparr>)"
| enq: "main_pc s = M_Enq i \<Longrightarrow> enqueue_task (queue s) i = Return True q' ws \<Longrightarrow>
     wake_workers ws (workers s) ps' \<Longrightarrow>
     main_step rnd s (s\<lparr>queue := q', workers := ps', main_pc := after_enqueue i,
                        enq_log := enq_log s @ [i]\<rparr>)"
| enq_refused: "main_pc s = M_Enq i \<Longrightarrow> enqueue_task (queue s) i = Return False q' ws \<Longrightarrow>
     main_step rnd s (s\<lparr>main_pc := after_enqueue i\<rparr>)"
| enq_wait: "main_pc s = M_Enq i \<Longrightarrow> enqueue_task (queue s) i = CondWait c \<Longrightarrow>
     main_step rnd s (s\<lparr>main_pc := M_WaitFull i\<rparr>)"
| shut: "main_pc s = M_Shutdown \<Longrightarrow> shutdown_work_queue (queue s) = (q', ws) \<Longrightarrow>
     wake_workers ws (workers s) ps' \<Longrightarrow>
     main_step rnd s (s\<lparr>queue := q', workers := ps', main_pc := M_Join 0\<rparr>)"
| join: "main_pc s = M_Join i \<Longrightarrow> i < length (workers s) \<Longrightarrow> workers s ! i = W_Exit \<Longrightarrow>
     main_step rnd s (s\<lparr>main_pc := after_join i\<rparr>)"
| destroy: "main_pc s = M_Destroy \<Longrightarrow> destroy_work_queue (queue s) (blocks s) = Inr h \<Longrightarrow>
     main_step rnd s (s\<lparr>blocks := h, main_pc := M_Done\<rparr>)"
| destroy_fault: "main_pc s = M_Destroy \<Longrightarrow> destroy_work_queue (queue s) (blocks s) = Inl e \<Longrightarrow>
     main_step rnd s (s\<lparr>fault := Some e, main_pc := M_Done\<rparr>)"

inductive worker_step :: "nat \<Rightarrow> wq_sys \<Rightarrow> wq_sys \<Rightarrow> bool" for w where
  take: "workers s ! w = W_Call \<Longrightarrow> dequeue_task (queue s) = Return (Some a) q' ws \<Longrightarrow>
     worker_step w s (s\<lparr>queue := q', workers := (workers s)[w := W_Exec a],
                        main_pc := wake_main ws (main_pc s), deq_log := deq_log s @ [a]\<rparr>)"
| take_none: "workers s ! w = W_Call \<Longrightarrow> dequeue_task (queue s) = Return None q' ws \<Longrightarrow>
     worker_step w s (s\<lparr>workers := (workers s)[w := W_Exit]\<rparr>)"
| take_wait: "workers s ! w = W_Call \<Longrightarrow> dequeue_task (queue s) = CondWait c \<Longrightarrow>
     worker_step w s (s\<lparr>workers := (workers s)[w := W_Wait]\<rparr>)"
| exec: "workers s ! w = W_Exec a \<Longrightarrow> run_task (blocks s) a = Inr (r, h) \<Longrightarrow>
     worker_step w s (s\<lparr>blocks := h, workers := (workers s)[w := W_Call],
                        results := results s @ [(a, r)]\<rparr>)"
| exec_fault: "workers s ! w = W_Exec a \<Longrightarrow> run_task (blocks s) a = Inl e \<Longrightarrow>
     worker_step w s (s\<lparr>fault := Some e, workers := (workers s)[w := W_Exit]\<rparr>)"

inductive wq_step :: "bool \<Rightarrow> (nat \<Rightarrow> int) \<Rightarrow> wq_sys \<Rightarrow> wq_sys \<Rightarrow> bool" for sp rnd where
  main: "main_step rnd s t \<Longrightarrow> wq_step sp rnd s t"
| worker: "w < length (workers s) \<Longrightarrow> worker_step w s t \<Longrightarrow> wq_step sp rnd s t"
| spurious_worker: "sp \<Longrightarrow> w < length (workers s) \<Longrightarrow> workers s ! w = W_Wait \<Longrightarrow>
     wq_step sp rnd s (s\<lparr>workers := (workers s)[w := W_Call]\<rparr>)"
| spurious_main: "sp \<Longrightarrow> main_pc s = M_WaitFull i \<Longrightarrow>
     wq_step sp rnd s (s\<lparr>main_pc := M_Enq i\<rparr>)"

definition wq_init :: "wq_sys \<Rightarrow> bool" where
  "wq_init s \<longleftrightarrow> (\<exists>g q created. length g = nat MAX_QUEUE_SIZE \<and> create_work_queue True g = Some q \<and>
     length created = NUM_WORKERS \<and> wq_main q created = Inr s)"

section \<open>Invariants\<close>

fun enqueued :: "mpc \<Rightarrow> nat" where
  "enqueued (M_Create i) = i"
| "enqueued (M_Enq i) = i"
| "enqueued (M_WaitFull i) = i"
| "enqueued _ = NUM_TASKS"

fun allocated :: "mpc \<Rightarrow> nat" where
  "allocated (M_Create i) = i"
| "allocated (M_Enq i) = Suc i"
| "allocated (M_WaitFull i) = Suc i"
| "allocated _ = NUM_TASKS"

fun main_bounds :: "mpc \<Rightarrow> bool" where
  "main_bounds (M_Create i) \<longleftrightarrow> i < NUM_TASKS"
| "main_bounds (M_Enq i) \<longleftrightarrow> i < NUM_TASKS"
| "main_bounds (M_WaitFull i) \<longleftrightarrow> i < NUM_TASKS"
| "main_bounds (M_Join i) \<longleftrightarrow> i < NUM_WORKERS"
| "main_bounds _ \<longleftrightarrow> True"

fun stopping :: "mpc \<Rightarrow> bool" where
  "stopping (M_Join i) \<longleftrightarrow> True"
| "stopping M_Destroy \<longleftrightarrow> True"
| "stopping M_Done \<longleftrightarrow> True"
| "stopping _ \<longleftrightarrow> False"

fun joined :: "mpc \<Rightarrow> nat" where
  "joined (M_Join i) = i"
| "joined M_Destroy = NUM_WORKERS"
| "joined M_Done = NUM_WORKERS"
| "joined _ = 0"

fun executing :: "wpc \<Rightarrow> addr multiset" where
  "executing (W_Exec a) = {#a#}"
| "executing _ = {#}"

definition shape_inv :: "wq_sys \<Rightarrow> bool" where [wf_simps]:
  "shape_inv s \<longleftrightarrow> wq_wf (queue s) \<and> length (workers s) = NUM_WORKERS \<and> main_bounds (main_pc s)
     \<and> fault s = None"

definition log_inv :: "wq_sys \<Rightarrow> bool" where [wf_simps]:
  "log_inv s \<longleftrightarrow> deq_log s @ wq_contents (queue s) = enq_log s \<and> enq_log s = [0..<enqueued (main_pc s)]
     \<and> mset (deq_log s) = mset (map fst (results s)) + sum_list (map executing (workers s))"

definition heap_inv :: "(nat \<Rightarrow> int) \<Rightarrow> wq_sys \<Rightarrow> bool" where [wf_simps]:
  "heap_inv rnd s \<longleftrightarrow>
     (\<forall>i. data_heap (blocks s) i = (if i < allocated (main_pc s) then Some (make_data rnd i) else None)) \<and>
     (\<forall>i. task_heap (blocks s) i =
        (if i < allocated (main_pc s) \<and> i \<notin> fst ` set (results s) then Some (make_task i) else None)) \<and>
     (\<forall>(a, r) \<in> set (results s). r = (int a + 1, (int a + 1) * (int a + 1)))"

definition sync_inv :: "wq_sys \<Rightarrow> bool" where [wf_simps]:
  "sync_inv s \<longleftrightarrow> (shutdown (queue s) = stopping (main_pc s))
     \<and> (shutdown (queue s) \<longrightarrow> W_Wait \<notin> set (workers s))
     \<and> (W_Exit \<in> set (workers s) \<longrightarrow> shutdown (queue s) \<and> qcount (queue s) = 0)
     \<and> (\<forall>i. main_pc s = M_WaitFull i \<longrightarrow> qcount (queue s) = MAX_QUEUE_SIZE)
     \<and> (\<not> shutdown (queue s) \<and> 0 < qcount (queue s) \<longrightarrow> (\<exists>p \<in> set (workers s). p \<noteq> W_Wait))
     \<and> (\<forall>j < joined (main_pc s). workers s ! j = W_Exit)"

definition wq_inv :: "(nat \<Rightarrow> int) \<Rightarrow> wq_sys \<Rightarrow> bool" where
  "wq_inv rnd s \<longleftrightarrow> shape_inv s \<and> log_inv s \<and> heap_inv rnd s \<and> sync_inv s"

lemma NUM_pos [simp]: "0 < NUM_TASKS" "0 < NUM_WORKERS"
  by (simp_all add: NUM_TASKS_def NUM_WORKERS_def)

lemma wq_inv_init:
  assumes "wq_init s"
  shows "wq_inv rnd s"
proof -
  from assms obtain g q created where q: "length g = nat MAX_QUEUE_SIZE" "create_work_queue True g = Some q"
    and created: "length created = NUM_WORKERS" and s: "wq_main q created = Inr s"
    by (auto simp: wq_init_def)
  have "wq_wf q" "wq_contents q = []" "\<not> shutdown q" "qcount q = 0"
    using create_wf [OF q(2,1)] by (auto simp: wq_contents_Nil)
  moreover have "sum_list (map executing (map (\<lambda>_. W_Call) created)) = {#}" for created :: "bool list"
    by (induction created) auto
  ultimately show ?thesis
    using created s by (auto simp: wq_main_def wq_inv_def wf_simps split: if_splits)
qed

lemma wake_all_props:
  "length (wake_all ps) = length ps" "W_Wait \<notin> set (wake_all ps)"
  "W_Exit \<in> set (wake_all ps) \<longleftrightarrow> W_Exit \<in> set ps"
  "map executing (wake_all ps) = map executing ps"
  by (auto simp: wake_all_def image_iff)

lemma executing_update:
  "i < length ps \<Longrightarrow> executing (ps ! i) = executing p \<Longrightarrow> map executing (ps[i := p]) = map executing ps"
  by (simp add: map_update list_update_same_conv)

lemma wake_one_props:
  assumes "wake_one ps ps'"
  shows "length ps' = length ps \<and> map executing ps' = map executing ps \<and>
    (W_Exit \<in> set ps' \<longleftrightarrow> W_Exit \<in> set ps) \<and> (ps \<noteq> [] \<longrightarrow> (\<exists>p \<in> set ps'. p \<noteq> W_Wait))"
proof (cases "W_Wait \<in> set ps")
  case True
  with assms obtain i where i: "i < length ps" "ps ! i = W_Wait" and ps': "ps' = ps[i := W_Call]"
    by (auto simp: wake_one_def)
  have "W_Exit \<in> set ps' \<longleftrightarrow> W_Exit \<in> set ps"
    using i by (simp add: ps' mem_update_other)
  moreover have "W_Call \<in> set ps'"
    using i by (simp add: ps' set_update_memI)
  ultimately show ?thesis
    using i by (auto simp: ps' executing_update intro!: bexI [of _ W_Call])
next
  case False
  with assms have "ps' = ps" by (auto simp: wake_one_def dest: nth_mem)
  with False show ?thesis by (cases ps) auto
qed

lemma wake_one_exists: "\<exists>ps'. wake_one ps ps'"
  by (auto simp: wake_one_def in_set_conv_nth)

lemma enqueued_after: "i < NUM_TASKS \<Longrightarrow> enqueued (after_enqueue i) = Suc i" "i < NUM_TASKS \<Longrightarrow> allocated (after_enqueue i) = Suc i"
  "\<not> stopping (after_enqueue i)" "main_bounds (after_enqueue i)" "joined (after_enqueue i) = 0" "after_enqueue i \<noteq> M_WaitFull j"
  by (auto simp: after_enqueue_def)

lemma after_join_props: "stopping (after_join i)" "enqueued (after_join i) = NUM_TASKS" "allocated (after_join i) = NUM_TASKS"
  "i < NUM_WORKERS \<Longrightarrow> main_bounds (after_join i)" "i < NUM_WORKERS \<Longrightarrow> joined (after_join i) = Suc i" "after_join i \<noteq> M_WaitFull j"
  by (auto simp: after_join_def)



lemma sum_list_mem: "x \<in># f p \<Longrightarrow> p \<in> set ps \<Longrightarrow> x \<in># sum_list (map f ps)"
  by (induction ps) auto

lemma enqueued_le_allocated: "enqueued p \<le> allocated p"
  by (cases p) auto

text \<open>A task is at one place only: finished tasks and tasks in execution were taken out once.\<close>

lemma log_facts:
  assumes "log_inv s"
  shows finished: "a \<in> fst ` set (results s) \<Longrightarrow> a < enqueued (main_pc s)"
    and running: "W_Exec a \<in> set (workers s) \<Longrightarrow> a < enqueued (main_pc s) \<and> a \<notin> fst ` set (results s)"
proof -
  let ?R = "mset (map fst (results s))" and ?E = "sum_list (map executing (workers s))"
  have app: "deq_log s @ wq_contents (queue s) = [0..<enqueued (main_pc s)]"
    and mset: "mset (deq_log s) = ?R + ?E"
    using assms by (auto simp: log_inv_def)
  have "distinct (deq_log s)" "set (deq_log s) \<subseteq> {..<enqueued (main_pc s)}"
    using arg_cong [OF app, of distinct] arg_cong [OF app, of set] by auto
  then have le: "count ?R a + count ?E a \<le> 1" and mem: "a \<in># ?R + ?E \<Longrightarrow> a < enqueued (main_pc s)"
    using mset by (auto simp: distinct_count_atmost_1 simp flip: count_union set_mset_mset)
  show "a < enqueued (main_pc s)" if "a \<in> fst ` set (results s)"
    using that by (intro mem) auto
  assume "W_Exec a \<in> set (workers s)"
  then have E: "a \<in># ?E" by (intro sum_list_mem) auto
  then have "0 < count ?E a" by (simp only: count_greater_zero_iff)
  with le have "count ?R a = 0" by linarith
  then have "a \<notin># ?R" by (simp only: not_in_iff)
  with E mem show "a < enqueued (main_pc s) \<and> a \<notin> fst ` set (results s)"
    by auto
qed

lemma inv_create:
  assumes "wq_inv rnd s" "main_pc s = M_Create i"
  shows "wq_inv rnd (s\<lparr>blocks := \<lparr>task_heap = (task_heap (blocks s))(i \<mapsto> make_task i),
           data_heap = (data_heap (blocks s))(i \<mapsto> make_data rnd i)\<rparr>, main_pc := M_Enq i\<rparr>)"
proof -
  have "i \<notin> fst ` set (results s)"
    using finished [of s i] assms by (auto simp: wq_inv_def)
  then show ?thesis
    using assms by (auto simp: wq_inv_def wf_simps)
qed

lemma inv_enq:
  assumes inv: "wq_inv rnd s" and pc: "main_pc s = M_Enq i"
    and enq: "enqueue_task (queue s) i = Return True q' ws"
    and wake: "wake_workers ws (workers s) ps'"
  shows "wq_inv rnd (s\<lparr>queue := q', workers := ps', main_pc := after_enqueue i, enq_log := enq_log s @ [i]\<rparr>)"
proof -
  have q': "wq_wf q'" "wq_contents q' = wq_contents (queue s) @ [i]" "\<not> shutdown q'" "\<not> shutdown (queue s)"
    and ws: "ws = [Signal Not_empty]"
    using enqueue_contents [OF _ enq] inv by (auto simp: wq_inv_def wf_simps)
  have ps: "length ps' = length (workers s)" "map executing ps' = map executing (workers s)"
    "W_Exit \<in> set ps' \<longleftrightarrow> W_Exit \<in> set (workers s)" 
    "workers s \<noteq> [] \<Longrightarrow> \<exists>p \<in> set ps'. p \<noteq> W_Wait"
    using wake_one_props wake by (auto simp: wake_workers_def ws)
  have i: "i < NUM_TASKS" "workers s \<noteq> []"
    using inv pc NUM_pos(2) by (auto simp: wq_inv_def shape_inv_def simp del: NUM_pos)
  have "shape_inv (s\<lparr>queue := q', workers := ps', main_pc := after_enqueue i, enq_log := enq_log s @ [i]\<rparr>)"
    using inv q' ps i by (simp add: wq_inv_def wf_simps enqueued_after)
  moreover have "log_inv (s\<lparr>queue := q', workers := ps', main_pc := after_enqueue i, enq_log := enq_log s @ [i]\<rparr>)"
    using inv q' ps i pc by (simp add: wq_inv_def wf_simps enqueued_after)
  moreover have "heap_inv rnd (s\<lparr>queue := q', workers := ps', main_pc := after_enqueue i, enq_log := enq_log s @ [i]\<rparr>)"
    using inv i pc by (simp add: wq_inv_def wf_simps enqueued_after)
  moreover have "sync_inv (s\<lparr>queue := q', workers := ps', main_pc := after_enqueue i, enq_log := enq_log s @ [i]\<rparr>)"
    using inv q' ps i pc by (simp add: wq_inv_def wf_simps enqueued_after)
  ultimately show ?thesis by (simp add: wq_inv_def)
qed

lemma inv_enq_wait:
  assumes "wq_inv rnd s" "main_pc s = M_Enq i" "enqueue_task (queue s) i = CondWait c"
  shows "wq_inv rnd (s\<lparr>main_pc := M_WaitFull i\<rparr>)"
  using assms by (simp add: wq_inv_def wf_simps enqueue_other)

lemma inv_shut:
  assumes "wq_inv rnd s" "main_pc s = M_Shutdown"
  shows "wq_inv rnd (s\<lparr>queue := (queue s)\<lparr>shutdown := True\<rparr>, workers := wake_all (workers s), main_pc := M_Join 0\<rparr>)"
  using assms by (auto simp: wq_inv_def wf_simps wake_all_props wq_wf_def wq_contents_def)

lemma inv_join:
  assumes "wq_inv rnd s" "main_pc s = M_Join i" "workers s ! i = W_Exit"
  shows "wq_inv rnd (s\<lparr>main_pc := after_join i\<rparr>)"
  using assms by (auto simp: wq_inv_def wf_simps after_join_props less_Suc_eq)

lemma inv_finished:
  assumes "wq_inv rnd s" "main_pc s = M_Destroy"
  shows "destroy_work_queue (queue s) (blocks s) = Inr (blocks s)"
    and "wq_inv rnd (s\<lparr>main_pc := M_Done\<rparr>)"
proof -
  have "W_Exit \<in> set (workers s)"
    using assms NUM_pos(2) nth_mem [of 0 "workers s"] by (auto simp: wq_inv_def wf_simps simp del: NUM_pos)
  then have "qcount (queue s) = 0"
    using assms by (auto simp: wq_inv_def wf_simps)
  then show "destroy_work_queue (queue s) (blocks s) = Inr (blocks s)"
    by (simp add: destroy_work_queue.simps)
  show "wq_inv rnd (s\<lparr>main_pc := M_Done\<rparr>)"
    using assms by (auto simp: wq_inv_def wf_simps)
qed

lemma main_step_inv: "main_step rnd s t \<Longrightarrow> wq_inv rnd s \<Longrightarrow> wq_inv rnd t"
proof (induction rule: main_step.induct)
  case (shut s q' ws ps')
  then show ?case using inv_shut [of rnd s] by (auto simp: shutdown_work_queue_def wake_workers_def)
next
  case (enq_refused s i q' ws)
  then show ?case by (auto simp: wq_inv_def wf_simps enqueue_other)
next
  case (destroy s h)
  then show ?case using inv_finished [of rnd s] by auto
qed (use inv_finished in \<open>auto intro: inv_create inv_enq inv_enq_wait inv_join\<close>)

lemma wake_main_props:
  "enqueued (wake_main ws p) = enqueued p" "allocated (wake_main ws p) = allocated p"
  "main_bounds (wake_main ws p) = main_bounds p" "stopping (wake_main ws p) = stopping p"
  "joined (wake_main ws p) = joined p" "wake_main [Signal Not_full] p \<noteq> M_WaitFull i"
  by (cases p; auto)+

lemma inv_take:
  assumes inv: "wq_inv rnd s" and w: "w < length (workers s)" "workers s ! w = W_Call"
    and deq: "dequeue_task (queue s) = Return (Some a) q' ws"
  shows "wq_inv rnd (s\<lparr>queue := q', workers := (workers s)[w := W_Exec a],
           main_pc := wake_main ws (main_pc s), deq_log := deq_log s @ [a]\<rparr>)"
    (is "wq_inv rnd ?t")
proof -
  have q': "wq_wf q'" "wq_contents (queue s) = a # wq_contents q'" "shutdown q' = shutdown (queue s)"
    "ws = [Signal Not_full]"
    using dequeue_contents [OF _ deq] inv by (auto simp: wq_inv_def wf_simps)
  have c: "0 < qcount (queue s)"
    using arg_cong [OF q'(2), of length] by simp
  have E: "sum_list (map executing ((workers s)[w := W_Exec a])) = add_mset a (sum_list (map executing (workers s)))"
    using sum_list_map_update [OF w(1), of executing "W_Exec a"] w(2) by simp
  have mem: "p \<in> set ((workers s)[w := W_Exec a]) \<longleftrightarrow> p = W_Exec a \<or> p \<in> set (workers s)" if "p \<noteq> W_Call" for p
    using that w by (simp add: mem_update_other)
  have "shape_inv ?t" "log_inv ?t"
    using inv q' E by (auto simp: wq_inv_def wf_simps wake_main_props)
  moreover have "heap_inv rnd ?t"
    using inv by (auto simp: wq_inv_def wf_simps wake_main_props)
  moreover have "sync_inv ?t"
    using inv q' c w mem by (auto simp: wq_inv_def wf_simps wake_main_props nth_list_update)
  ultimately show ?thesis by (simp add: wq_inv_def)
qed


lemma inv_take_none:
  assumes "wq_inv rnd s" "w < length (workers s)" "workers s ! w = W_Call"
    "dequeue_task (queue s) = Return None q' ws"
  shows "wq_inv rnd (s\<lparr>workers := (workers s)[w := W_Exit]\<rparr>)"
  using assms
  by (auto simp: wq_inv_def wf_simps dequeue_other executing_update mem_update_other nth_list_update)

lemma inv_take_wait:
  assumes "wq_inv rnd s" "w < length (workers s)" "workers s ! w = W_Call"
    "dequeue_task (queue s) = CondWait c"
  shows "wq_inv rnd (s\<lparr>workers := (workers s)[w := W_Wait]\<rparr>)"
  using assms
  by (auto simp: wq_inv_def wf_simps dequeue_other executing_update mem_update_other nth_list_update)

text \<open>A dequeued task is still allocated, so running it cannot touch freed memory.\<close>

lemma run_task_ok:
  assumes "wq_inv rnd s" "w < length (workers s)" "workers s ! w = W_Exec a"
  shows "run_task (blocks s) a = Inr ((int a + 1, (int a + 1) * (int a + 1)),
           (blocks s)\<lparr>task_heap := (task_heap (blocks s))(a := None)\<rparr>)"
proof -
  have "W_Exec a \<in> set (workers s)"
    using assms(2,3) nth_mem by metis
  then have "a < allocated (main_pc s)" "a \<notin> fst ` set (results s)"
    using running [of s a] enqueued_le_allocated [of "main_pc s"] assms(1) by (auto simp: wq_inv_def)
  then show ?thesis
    using assms(1)
    by (simp add: wq_inv_def heap_inv_def run_task_def free_task_def make_task_def make_data_def process_task_def)
qed

lemma inv_exec:
  assumes inv: "wq_inv rnd s" and w: "w < length (workers s)" "workers s ! w = W_Exec a"
    and run: "run_task (blocks s) a = Inr (r, h)"
  shows "wq_inv rnd (s\<lparr>blocks := h, workers := (workers s)[w := W_Call], results := results s @ [(a, r)]\<rparr>)"
    (is "wq_inv rnd ?t")
proof -
  have r: "r = (int a + 1, (int a + 1) * (int a + 1))"
    and h: "h = (blocks s)\<lparr>task_heap := (task_heap (blocks s))(a := None)\<rparr>"
    using run_task_ok [OF inv w] run by auto
  have E: "sum_list (map executing (workers s)) = add_mset a (sum_list (map executing ((workers s)[w := W_Call])))"
    using sum_list_map_update [OF w(1), of executing "W_Call"] w(2) by simp
  have "shape_inv ?t" "log_inv ?t"
    using inv E by (auto simp: wq_inv_def wf_simps)
  moreover have "heap_inv rnd ?t"
    using inv by (auto simp: wq_inv_def wf_simps r h)
  moreover have "sync_inv ?t"
    using inv w by (auto simp: wq_inv_def wf_simps mem_update_other nth_list_update)
  ultimately show ?thesis by (simp add: wq_inv_def)
qed

lemma worker_step_inv:
  "worker_step w s t \<Longrightarrow> w < length (workers s) \<Longrightarrow> wq_inv rnd s \<Longrightarrow> wq_inv rnd t"
proof (induction rule: worker_step.induct)
  case (exec_fault s a e)
  then show ?case using run_task_ok by fastforce
qed (auto intro: inv_take inv_take_none inv_take_wait inv_exec)

lemma joined_running: "\<not> stopping p \<Longrightarrow> joined p = 0"
  by (cases p) auto

lemma inv_spurious:
  assumes inv: "wq_inv rnd s" and w: "w < length (workers s)" "workers s ! w = W_Wait"
  shows "wq_inv rnd (s\<lparr>workers := (workers s)[w := W_Call]\<rparr>)" (is "wq_inv rnd ?t")
proof -
  have "W_Wait \<in> set (workers s)" using w by (metis nth_mem)
  then have ns: "\<not> shutdown (queue s)" "\<not> stopping (main_pc s)" "W_Exit \<notin> set (workers s)"
    using inv by (auto simp: wq_inv_def sync_inv_def)
  have "W_Exit \<notin> set ((workers s)[w := W_Call])" "W_Call \<in> set ((workers s)[w := W_Call])"
    using ns(3) w by (simp_all add: mem_update_other set_update_memI)
  then have "sync_inv ?t"
    using inv ns by (auto simp: wq_inv_def sync_inv_def joined_running intro!: bexI [of _ W_Call])
  moreover have "shape_inv ?t" "log_inv ?t" "heap_inv rnd ?t"
    using inv w by (simp_all add: wq_inv_def shape_inv_def log_inv_def heap_inv_def executing_update)
  ultimately show ?thesis by (simp add: wq_inv_def)
qed

lemma wq_step_inv: "wq_step sp rnd s t \<Longrightarrow> wq_inv rnd s \<Longrightarrow> wq_inv rnd t"
proof (induction rule: wq_step.induct)
  case (spurious_main s i)
  then show ?case by (auto simp: wq_inv_def wf_simps)
qed (auto intro: main_step_inv worker_step_inv inv_spurious)

interpretation wq_safe: invariant_system wq_init "wq_step sp rnd" "wq_inv rnd" for sp rnd
  by unfold_locales (auto intro: wq_inv_init wq_step_inv)


section \<open>Termination\<close>

fun main_measure :: "mpc \<Rightarrow> nat" where
  "main_measure (M_Create i) = (NUM_TASKS - i) * 10 + 3 * NUM_WORKERS + 5"
| "main_measure (M_Enq i) = (NUM_TASKS - i) * 10 + 3 * NUM_WORKERS + 4"
| "main_measure (M_WaitFull i) = (NUM_TASKS - i) * 10 + 3 * NUM_WORKERS + 3"
| "main_measure M_Shutdown = 3 * NUM_WORKERS + 3"
| "main_measure (M_Join i) = NUM_WORKERS - i + 2"
| "main_measure M_Destroy = 1"
| "main_measure M_Done = 0"

fun worker_measure :: "wpc \<Rightarrow> nat" where
  "worker_measure W_Call = 1"
| "worker_measure W_Wait = 0"
| "worker_measure (W_Exec a) = 2"
| "worker_measure W_Exit = 0"

definition wq_measure :: "wq_sys \<Rightarrow> nat" where
  "wq_measure s = main_measure (main_pc s) + 3 * nat (qcount (queue s))
     + sum_list (map worker_measure (workers s))"

definition wq_final :: "wq_sys \<Rightarrow> bool" where
  "wq_final s \<longleftrightarrow> main_pc s = M_Done"

lemma wake_measure:
  "wake_one ps ps' \<Longrightarrow> sum_list (map worker_measure ps') \<le> sum_list (map worker_measure ps) + 1"
proof -
  assume "wake_one ps ps'"
  moreover have "sum_list (map worker_measure (ps[i := W_Call])) = sum_list (map worker_measure ps) + 1"
    if "i < length ps" "ps ! i = W_Wait" for i
    using sum_list_map_update [of i ps worker_measure W_Call] that by simp
  ultimately show ?thesis by (auto simp: wake_one_def)
qed

lemma wake_all_measure:
  "sum_list (map worker_measure (wake_all ps)) \<le> sum_list (map worker_measure ps) + length ps"
  unfolding wake_all_def by (induction ps) auto

lemma after_enqueue_measure:
  "i < NUM_TASKS \<Longrightarrow> main_measure (after_enqueue i) + 5 \<le> main_measure (M_Enq i)"
  by (auto simp: after_enqueue_def Suc_diff_Suc algebra_simps)

lemma main_decreases:
  "main_step rnd s t \<Longrightarrow> wq_inv rnd s \<Longrightarrow> wq_measure t < wq_measure s"
proof (induction rule: main_step.induct)
  case (enq s i q' ws ps')
  then have i: "i < NUM_TASKS" and "wq_wf (queue s)" by (auto simp: wq_inv_def wf_simps)
  then have "wq_contents q' = wq_contents (queue s) @ [i]" "ws = [Signal Not_empty]"
    using enqueue_contents enq.hyps(2) by auto
  then have "length (wq_contents q') = length (wq_contents (queue s)) + 1" "wake_one (workers s) ps'"
    using enq.hyps(3) by (simp_all only: length_append_singleton) (auto simp: wake_workers_def)
  with i show ?case
    using wake_measure [of "workers s" ps'] after_enqueue_measure [OF i] enq.hyps(1)
    by (simp add: wq_measure_def)
next
  case (enq_refused s i q' ws)
  then show ?case by (auto simp: wq_inv_def wf_simps enqueue_other)
next
  case (shut s q' ws ps')
  then have "ps' = wake_all (workers s)" "q' = (queue s)\<lparr>shutdown := True\<rparr>" "length (workers s) = NUM_WORKERS"
    by (auto simp: shutdown_work_queue_def wake_workers_def wq_inv_def wf_simps)
  then show ?case
    using wake_all_measure [of "workers s"] shut.hyps(1) by (simp add: wq_measure_def)
next
  case (join s i)
  then show ?case by (auto simp: wq_measure_def after_join_def wq_inv_def wf_simps)
qed (auto simp: wq_measure_def)

lemma wake_main_measure: "main_measure (wake_main ws p) \<le> main_measure p + 1"
  by (cases p) auto

lemma worker_decreases:
  "worker_step w s t \<Longrightarrow> w < length (workers s) \<Longrightarrow> wq_inv rnd s \<Longrightarrow> wq_measure t < wq_measure s"
proof (induction rule: worker_step.induct)
  case (take s a q' ws)
  then have "wq_contents (queue s) = a # wq_contents q'"
    using dequeue_contents by (auto simp: wq_inv_def wf_simps)
  then have "length (wq_contents (queue s)) = length (wq_contents q') + 1"
    by simp
  then show ?case
    using take sum_list_map_update [of w "workers s" worker_measure "W_Exec a"]
      wake_main_measure [of ws "main_pc s"]
    by (simp add: wq_measure_def)
next
  case (take_none s q' ws)
  then show ?case
    using sum_list_map_update [of w "workers s" worker_measure W_Exit] by (simp add: wq_measure_def)
next
  case (take_wait s c)
  then show ?case
    using sum_list_map_update [of w "workers s" worker_measure W_Wait] by (simp add: wq_measure_def)
next
  case (exec s a r h)
  then show ?case
    using sum_list_map_update [of w "workers s" worker_measure W_Call] by (simp add: wq_measure_def)
next
  case (exec_fault s a e)
  then show ?case
    using sum_list_map_update [of w "workers s" worker_measure W_Exit] by (simp add: wq_measure_def)
qed

text \<open>A worker that does not wait and has not returned can move; so can \<^verbatim>\<open>main\<close> unless it blocks.\<close>

lemma worker_can_step:
  assumes "w < length (workers s)" "workers s ! w \<noteq> W_Wait" "workers s ! w \<noteq> W_Exit"
  shows "\<exists>t. wq_step sp rnd s t"
proof (cases "workers s ! w")
  case W_Call
  then have "\<exists>t. worker_step w s t"
    by (cases "dequeue_task (queue s)"; cases "case dequeue_task (queue s) of Return x _ _ \<Rightarrow> x | _ \<Rightarrow> None")
      (auto intro: worker_step.intros)
  with assms(1) show ?thesis by (blast intro: wq_step.worker)
next
  case (W_Exec a)
  then have "\<exists>t. worker_step w s t"
    by (cases "run_task (blocks s) a") (auto intro: worker_step.intros)
  with assms(1) show ?thesis by (blast intro: wq_step.worker)
qed (use assms in auto)

lemma wake_workers_exists: "\<exists>ps'. wake_workers ws ps ps'"
  using wake_one_exists by (auto simp: wake_workers_def)

lemma wq_progress:
  assumes inv: "wq_inv rnd s" and nf: "\<not> wq_final s"
  shows "\<exists>t. wq_step sp rnd s t"
proof (cases "main_pc s")
  case (M_Create i)
  then show ?thesis by (blast intro: wq_step.main main_step.create)
next
  case (M_Enq i)
  have "\<exists>t. main_step rnd s t"
  proof (cases "enqueue_task (queue s) i")
    case (CondWait c)
    with M_Enq show ?thesis by (blast intro: main_step.enq_wait)
  next
    case (Return b q' ws)
    obtain ps' where "wake_workers ws (workers s) ps'" using wake_workers_exists by blast
    with M_Enq Return show ?thesis
      by (cases b) (auto intro: main_step.enq main_step.enq_refused)
  qed
  then show ?thesis by (blast intro: wq_step.main)
next
  case (M_WaitFull i)
  then have "\<not> shutdown (queue s)" "0 < qcount (queue s)"
    using inv by (auto simp: wq_inv_def wf_simps)
  then obtain w where "w < length (workers s)" "workers s ! w \<noteq> W_Wait" "workers s ! w \<noteq> W_Exit"
    using inv by (auto simp: wq_inv_def wf_simps in_set_conv_nth)
  then show ?thesis by (rule worker_can_step)
next
  case M_Shutdown
  then show ?thesis
    using wake_workers_exists by (metis main_step.shut surj_pair wq_step.main)
next
  case (M_Join i)
  then have "i < length (workers s)" "W_Wait \<notin> set (workers s)"
    using inv by (auto simp: wq_inv_def wf_simps)
  then have i: "i < length (workers s)" "workers s ! i \<noteq> W_Wait"
    by (auto dest: nth_mem)
  show ?thesis
  proof (cases "workers s ! i = W_Exit")
    case True
    with M_Join i show ?thesis by (blast intro: wq_step.main main_step.join)
  next
    case False
    with i show ?thesis by (rule worker_can_step)
  qed
next
  case M_Destroy
  then show ?thesis
    using inv_finished(1) [OF inv] by (blast intro: wq_step.main main_step.destroy)
qed (use nf in \<open>auto simp: wq_final_def\<close>)

interpretation wq_live: terminating_system wq_init "wq_step False rnd" "wq_inv rnd" wq_final wq_measure for rnd
proof
  show "wq_measure t < wq_measure s" if "wq_inv rnd s" "wq_step False rnd s t" for s t
    using that by (auto elim!: wq_step.cases intro: main_decreases worker_decreases)
qed (auto intro: wq_inv_init wq_step_inv wq_progress)

section \<open>Properties\<close>

definition wq_start :: wq_sys where
  "wq_start = \<lparr>queue = wq_fresh, blocks = \<lparr>task_heap = Map.empty, data_heap = Map.empty\<rparr>,
     workers = replicate NUM_WORKERS W_Call, main_pc = M_Create 0,
     enq_log = [], deq_log = [], results = [], fault = None\<rparr>"

lemma wq_start_init: "wq_init wq_start"
  unfolding wq_init_def
  by (rule exI [of _ "replicate 100 0"], rule exI [of _ wq_fresh], rule exI [of _ "replicate NUM_WORKERS True"])
    (simp add: wq_fresh_created(1) wq_main_def wq_start_def MAX_QUEUE_SIZE_def)

lemma final_facts:
  assumes "wq_inv rnd s" "wq_final s"
  shows "mset (map fst (results s)) = mset [0..<NUM_TASKS]" "deq_log s = [0..<NUM_TASKS]"
proof -
  have ex: "\<forall>j < NUM_WORKERS. workers s ! j = W_Exit" "length (workers s) = NUM_WORKERS"
    using assms by (auto simp: wq_inv_def wf_simps wq_final_def)
  then have w: "workers s = replicate NUM_WORKERS W_Exit"
    by (intro nth_equalityI) auto
  then have "qcount (queue s) = 0"
    using assms(1) by (auto simp: wq_inv_def sync_inv_def)
  then have "wq_contents (queue s) = []"
    using assms(1) by (simp add: wq_inv_def shape_inv_def wq_contents_Nil)
  moreover have "sum_list (map executing (replicate n W_Exit)) = {#}" for n
    by (induction n) auto
  ultimately show "deq_log s = [0..<NUM_TASKS]" "mset (map fst (results s)) = mset [0..<NUM_TASKS]"
    using assms w by (auto simp: wq_inv_def log_inv_def wq_final_def)
qed



text \<open>
  Memory at exit: every task block has been freed, but the data block of every task is still
  allocated, because a worker frees the task it ran and not its data.
\<close>

lemma work_queue_leaks_task_data:
  assumes "wq_init s" "(wq_step sp rnd)\<^sup>*\<^sup>* s t" "wq_final t"
  shows "task_heap (blocks t) = Map.empty \<and> dom (data_heap (blocks t)) = {..<NUM_TASKS}"
proof -
  have inv: "wq_inv rnd t"
    using assms(1,2) by (rule wq_safe.reachable_inv)
  have "fst ` set (results t) = {..<NUM_TASKS}"
    using arg_cong [OF final_facts(1) [OF inv assms(3)], of set_mset] by (simp add: atLeast0LessThan)
  then show ?thesis
    using inv assms(3) by (auto simp: wq_inv_def heap_inv_def wq_final_def fun_eq_iff dom_def)
qed

text \<open>
  C3. When \<^verbatim>\<open>main\<close> has returned, in any interleaving and with spurious wake-ups allowed, every task was
  taken from the queue in the order it was enqueued, was executed exactly once, and reported the
  square of its value; no freed block was touched. Every task block has been freed, but the data block of every
  task is still allocated, because a worker frees the task it ran and not its data.
\<close>

theorem work_queue_executes_all:
  assumes "wq_init s" "(wq_step sp rnd)\<^sup>*\<^sup>* s t" "wq_final t"
  shows "deq_log t = [0..<NUM_TASKS] \<and> mset (map fst (results t)) = mset [0..<NUM_TASKS]
    \<and> (\<forall>(a, v, r) \<in> set (results t). v = int a + 1 \<and> r = v * v) \<and> fault t = None
    \<and> task_heap (blocks t) = Map.empty \<and> dom (data_heap (blocks t)) = {..<NUM_TASKS}"
proof -
  have "wq_inv rnd t"
    using assms(1,2) by (rule wq_safe.reachable_inv)
  with final_facts [OF this assms(3)] have "deq_log t = [0..<NUM_TASKS] \<and> mset (map fst (results t)) = mset [0..<NUM_TASKS]
    \<and> (\<forall>(a, v, r) \<in> set (results t). v = int a + 1 \<and> r = v * v) \<and> fault t = None"
    by (auto simp: wq_inv_def shape_inv_def heap_inv_def)
  with work_queue_leaks_task_data [OF assms] show ?thesis by blast
qed

theorem work_queue_executes_all_witness:
  "\<exists>t. (wq_step False (\<lambda>_. 0))\<^sup>*\<^sup>* wq_start t \<and> wq_final t \<and> deq_log t = [0..<NUM_TASKS]
     \<and> dom (data_heap (blocks t)) = {..<20}"
proof -
  obtain t where t: "(wq_step False (\<lambda>_. 0))\<^sup>*\<^sup>* wq_start t" "wq_final t"
    using wq_live.reaches_final [OF wq_inv_init [OF wq_start_init]] by blast
  from work_queue_executes_all [OF wq_start_init t] t show ?thesis
    by (auto simp: NUM_TASKS_def)
qed

end
