(* ===== verification/Locks.thy ===== *)
theory Locks
  imports Transition
begin

text \<open>
  Threads that take and release mutexes, as the remaining program of each thread: the calls on
  mutexes, the sleeps (cancellation points), the branches on a global flag, and a lock attempt with
  a timeout that continues in one of two ways. A mutex records its owner. The lock-ordering
  discipline \<open>ordered\<close> says that a blocking lock call only asks for a mutex of a higher rank than
  every mutex already held; timed attempts may ask for any mutex. Threads that follow it cannot
  deadlock and always finish with every mutex free.
\<close>

datatype 'r prog =
    Done
  | Lock 'r "'r prog"
  | Unlock 'r "'r prog"
  | Sleep "'r prog"
  | Branch "'r prog" "'r prog"
  | Timed 'r "'r prog" "'r prog"

record 'r lk_sys =
  progs :: "'r prog list"
  owner :: "'r \<Rightarrow> nat option"
  flag :: bool

text \<open>
  One step of thread \<open>t\<close>. A timed attempt that gives up found the mutex taken at its last try.
\<close>

inductive thread_step :: "nat \<Rightarrow> 'r lk_sys \<Rightarrow> 'r lk_sys \<Rightarrow> bool" for t where
  lock: "progs s ! t = Lock r p \<Longrightarrow> owner s r = None \<Longrightarrow>
     thread_step t s (s\<lparr>progs := (progs s)[t := p], owner := (owner s)(r := Some t)\<rparr>)"
| unlock: "progs s ! t = Unlock r p \<Longrightarrow>
     thread_step t s (s\<lparr>progs := (progs s)[t := p], owner := (owner s)(r := None)\<rparr>)"
| sleep: "progs s ! t = Sleep p \<Longrightarrow> thread_step t s (s\<lparr>progs := (progs s)[t := p]\<rparr>)"
| branch: "progs s ! t = Branch p q \<Longrightarrow>
     thread_step t s (s\<lparr>progs := (progs s)[t := if flag s then p else q]\<rparr>)"
| timed_ok: "progs s ! t = Timed r p q \<Longrightarrow> owner s r = None \<Longrightarrow>
     thread_step t s (s\<lparr>progs := (progs s)[t := p], owner := (owner s)(r := Some t)\<rparr>)"
| timed_out: "progs s ! t = Timed r p q \<Longrightarrow> owner s r \<noteq> None \<Longrightarrow>
     thread_step t s (s\<lparr>progs := (progs s)[t := q]\<rparr>)"

definition lk_step :: "'r lk_sys \<Rightarrow> 'r lk_sys \<Rightarrow> bool" where
  "lk_step s s' \<longleftrightarrow> (\<exists>t < length (progs s). thread_step t s s')"

definition lk_final :: "'r lk_sys \<Rightarrow> bool" where
  "lk_final s \<longleftrightarrow> (\<forall>p \<in> set (progs s). p = Done)"

definition lk_measure :: "'r lk_sys \<Rightarrow> nat" where
  "lk_measure s = sum_list (map size (progs s))"

definition held :: "'r lk_sys \<Rightarrow> nat \<Rightarrow> 'r set" where
  "held s t = {r. owner s r = Some t}"

text \<open>The ordering discipline, for a thread that holds the mutexes \<open>H\<close> while the flag is \<open>f\<close>.\<close>

primrec ordered :: "('r \<Rightarrow> nat) \<Rightarrow> bool \<Rightarrow> 'r set \<Rightarrow> 'r prog \<Rightarrow> bool" where
  "ordered rank f H Done \<longleftrightarrow> H = {}"
| "ordered rank f H (Lock r p) \<longleftrightarrow> (\<forall>h \<in> H. rank h < rank r) \<and> ordered rank f (insert r H) p"
| "ordered rank f H (Unlock r p) \<longleftrightarrow> r \<in> H \<and> ordered rank f (H - {r}) p"
| "ordered rank f H (Sleep p) \<longleftrightarrow> ordered rank f H p"
| "ordered rank f H (Branch p q) \<longleftrightarrow> (if f then ordered rank f H p else ordered rank f H q)"
| "ordered rank f H (Timed r p q) \<longleftrightarrow>
     r \<notin> H \<and> ordered rank f (insert r H) p \<and> ordered rank f H q"

definition lk_inv :: "('r \<Rightarrow> nat) \<Rightarrow> bool \<Rightarrow> 'r lk_sys \<Rightarrow> bool" where [wf_simps]:
  "lk_inv rank f s \<longleftrightarrow> flag s = f \<and> (\<forall>t < length (progs s). ordered rank f (held s t) (progs s ! t))
     \<and> (\<forall>r t. owner s r = Some t \<longrightarrow> t < length (progs s))"

definition lk_init :: "('r \<Rightarrow> nat) \<Rightarrow> bool \<Rightarrow> 'r lk_sys \<Rightarrow> bool" where
  "lk_init rank f s \<longleftrightarrow> flag s = f \<and> (\<forall>p \<in> set (progs s). ordered rank f {} p) \<and> (\<forall>r. owner s r = None)"

lemma lk_init_inv: "lk_init rank f s \<Longrightarrow> lk_inv rank f s"
  by (auto simp: lk_init_def lk_inv_def held_def)

lemma lk_inv_acquire:
  assumes "lk_inv rank f s" "t < length (progs s)" "owner s r = None" "ordered rank f (insert r (held s t)) p"
  shows "lk_inv rank f (s\<lparr>progs := (progs s)[t := p], owner := (owner s)(r := Some t)\<rparr>)" (is "lk_inv rank f ?s")
proof -
  have "held ?s t = insert r (held s t)"
    using assms(3) by (auto simp: held_def)
  moreover have "held ?s u = held s u" if "u \<noteq> t" for u
    using assms(3) that by (auto simp: held_def)
  ultimately show ?thesis
    using assms by (auto simp: lk_inv_def nth_list_update)
qed

lemma lk_inv_release:
  assumes "lk_inv rank f s" "t < length (progs s)" "r \<in> held s t" "ordered rank f (held s t - {r}) p"
  shows "lk_inv rank f (s\<lparr>progs := (progs s)[t := p], owner := (owner s)(r := None)\<rparr>)" (is "lk_inv rank f ?s")
proof -
  have "held ?s t = held s t - {r}"
    by (auto simp: held_def)
  moreover have "held ?s u = held s u" if "u \<noteq> t" for u
    using assms(3) that by (auto simp: held_def)
  ultimately show ?thesis
    using assms by (auto simp: lk_inv_def nth_list_update)
qed

lemma lk_inv_local:
  assumes "lk_inv rank f s" "t < length (progs s)" "ordered rank f (held s t) p"
  shows "lk_inv rank f (s\<lparr>progs := (progs s)[t := p]\<rparr>)"
  using assms by (auto simp: lk_inv_def nth_list_update held_def)

lemma thread_step_inv:
  "thread_step t s s' \<Longrightarrow> t < length (progs s) \<Longrightarrow> lk_inv rank f s \<Longrightarrow> lk_inv rank f s'"
proof (induction rule: thread_step.induct)
  case (lock s r p)
  then have "ordered rank f (held s t) (Lock r p)" by (metis lk_inv_def)
  with lock show ?case by (auto intro: lk_inv_acquire)
next
  case (unlock s r p)
  then have "ordered rank f (held s t) (Unlock r p)" by (metis lk_inv_def)
  with unlock show ?case by (auto intro: lk_inv_release)
next
  case (sleep s p)
  then have "ordered rank f (held s t) (Sleep p)" by (metis lk_inv_def)
  with sleep show ?case by (auto intro: lk_inv_local)
next
  case (branch s p q)
  then have "ordered rank f (held s t) (Branch p q)" "flag s = f" by (metis lk_inv_def)+
  with branch show ?case by (auto intro: lk_inv_local)
next
  case (timed_ok s r p q)
  then have "ordered rank f (held s t) (Timed r p q)" by (metis lk_inv_def)
  with timed_ok show ?case by (auto intro: lk_inv_acquire)
next
  case (timed_out s r p q)
  then have "ordered rank f (held s t) (Timed r p q)" by (metis lk_inv_def)
  with timed_out show ?case by (auto intro: lk_inv_local)
qed

lemma thread_step_size:
  "thread_step t s s' \<Longrightarrow> t < length (progs s) \<Longrightarrow> size (progs s' ! t) < size (progs s ! t)
     \<and> progs s' = (progs s)[t := progs s' ! t]"
  by (induction rule: thread_step.induct) auto

lemma lk_step_measure:
  assumes "lk_step s s'"
  shows "lk_measure s' < lk_measure s"
proof -
  obtain t where t: "t < length (progs s)" "thread_step t s s'"
    using assms by (auto simp: lk_step_def)
  then have "size (progs s' ! t) < size (progs s ! t)" "progs s' = (progs s)[t := progs s' ! t]"
    using thread_step_size by blast+
  with sum_list_map_update [OF t(1), of size "progs s' ! t"] show ?thesis
    by (simp add: lk_measure_def)
qed

text \<open>The step of a thread as a function, and a run under a given schedule.\<close>

definition thread_next :: "nat \<Rightarrow> 'r lk_sys \<Rightarrow> 'r lk_sys option" where
  "thread_next t s =
     (case progs s ! t of
        Done \<Rightarrow> None
      | Lock r p \<Rightarrow> if owner s r = None
          then Some (s\<lparr>progs := (progs s)[t := p], owner := (owner s)(r := Some t)\<rparr>) else None
      | Unlock r p \<Rightarrow> Some (s\<lparr>progs := (progs s)[t := p], owner := (owner s)(r := None)\<rparr>)
      | Sleep p \<Rightarrow> Some (s\<lparr>progs := (progs s)[t := p]\<rparr>)
      | Branch p q \<Rightarrow> Some (s\<lparr>progs := (progs s)[t := if flag s then p else q]\<rparr>)
      | Timed r p q \<Rightarrow> if owner s r = None
          then Some (s\<lparr>progs := (progs s)[t := p], owner := (owner s)(r := Some t)\<rparr>)
          else Some (s\<lparr>progs := (progs s)[t := q]\<rparr>))"

lemma thread_step_next: "thread_step t s u \<longleftrightarrow> thread_next t s = Some u"
proof
  show "thread_next t s = Some u" if "thread_step t s u"
    using that by (induction rule: thread_step.induct) (auto simp: thread_next_def)
next
  assume "thread_next t s = Some u"
  then show "thread_step t s u"
    using thread_step.branch [of s t]
    by (cases "progs s ! t") (auto simp: thread_next_def intro: thread_step.intros split: if_splits)
qed

fun lk_exec :: "nat list \<Rightarrow> 'r lk_sys \<Rightarrow> 'r lk_sys option" where
  "lk_exec [] s = Some s"
| "lk_exec (t # ts) s = (if t < length (progs s) then
     (case thread_next t s of None \<Rightarrow> None | Some u \<Rightarrow> lk_exec ts u) else None)"

lemma lk_exec_steps: "lk_exec ts s = Some u \<Longrightarrow> lk_step\<^sup>*\<^sup>* s u"
proof (induction ts s rule: lk_exec.induct)
  case (2 t ts s)
  then obtain v where v: "t < length (progs s)" "thread_next t s = Some v" "lk_step\<^sup>*\<^sup>* v u"
    by (auto split: if_splits option.splits)
  then have "lk_step s v"
    by (auto simp: lk_step_def thread_step_next)
  with v(3) show ?case by simp
qed simp

text \<open>A thread that cannot move has finished or waits for a mutex that is taken.\<close>

lemma thread_blocked:
  assumes "\<And>s'. \<not> thread_step t s s'" "progs s ! t \<noteq> Done"
  obtains r p where "progs s ! t = Lock r p" "owner s r \<noteq> None"
proof (cases "progs s ! t")
  case (Lock r p)
  with assms(1) that show thesis by (metis thread_step.lock)
next
  case (Timed r p q)
  with assms(1) show thesis by (metis thread_step.timed_ok thread_step.timed_out)
qed (use assms in \<open>metis thread_step.intros\<close>)+

text \<open>
  Progress: among the threads that wait, take one whose mutex has the highest rank. The owner of
  that mutex has not finished and does not wait for a higher one, so it can move.
\<close>

lemma lk_progress:
  assumes inv: "lk_inv rank f s" and nf: "\<not> lk_final s"
  shows "\<exists>s'. lk_step s s'"
proof (rule ccontr)
  assume "\<nexists>s'. lk_step s s'"
  then have stuck: "\<And>t s'. t < length (progs s) \<Longrightarrow> \<not> thread_step t s s'"
    by (auto simp: lk_step_def)
  define W where "W = {t. t < length (progs s) \<and> progs s ! t \<noteq> Done}"
  have waits: "\<exists>r p. progs s ! t = Lock r p \<and> owner s r \<noteq> None" if "t \<in> W" for t
    using that stuck by (metis (mono_tags, lifting) W_def mem_Collect_eq thread_blocked)
  then obtain want where want: "\<And>t. t \<in> W \<Longrightarrow> \<exists>p. progs s ! t = Lock (want t) p \<and> owner s (want t) \<noteq> None"
    by metis
  have "finite W" "W \<noteq> {}"
    using nf by (auto simp: W_def lk_final_def in_set_conv_nth)
  then have "Max ((\<lambda>u. rank (want u)) ` W) \<in> (\<lambda>u. rank (want u)) ` W"
    by (intro Max_in) auto
  then obtain t where t: "t \<in> W" and m: "Max ((\<lambda>u. rank (want u)) ` W) = rank (want t)" by auto
  have max: "rank (want u) \<le> rank (want t)" if "u \<in> W" for u
    using \<open>finite W\<close> that by (simp flip: m)
  from want [OF t] obtain u where u: "owner s (want t) = Some u" by auto
  then have uW: "u \<in> W"
    using inv by (fastforce simp: lk_inv_def W_def held_def)
  then obtain p where p: "progs s ! u = Lock (want u) p" using want by blast
  have "ordered rank f (held s u) (progs s ! u)" using inv uW by (auto simp: lk_inv_def W_def)
  then have "rank (want t) < rank (want u)"
    using p u by (auto simp: held_def)
  with max [OF uW] show False by simp
qed

interpretation lk: terminating_system "lk_init rank f" lk_step "lk_inv rank f" lk_final lk_measure for rank f
proof
  show "lk_inv rank f t" if "lk_inv rank f s" "lk_step s t" for s t :: "'a lk_sys"
    using that by (auto simp: lk_step_def intro: thread_step_inv)
qed (auto intro: lk_init_inv lk_progress lk_step_measure)

lemma lk_final_free:
  assumes "lk_inv rank f s" "lk_final s"
  shows "owner s r = None"
proof (cases "owner s r")
  case (Some t)
  then have t: "t < length (progs s)" "r \<in> held s t"
    using assms(1) by (auto simp: lk_inv_def held_def)
  then have "progs s ! t = Done"
    using assms(2) by (simp add: lk_final_def)
  with assms(1) t show ?thesis by (auto simp: lk_inv_def)
qed

end
