(* ===== verification/Deadlock.thy ===== *)
theory Deadlock
  imports Locks
begin

text \<open>
  \<^verbatim>\<open>lesson_9/code_examples/07_deadlock/07_dead_lock.c\<close>: two threads and two mutexes, run by \<^verbatim>\<open>main\<close> in
  three parts (opposite lock order, common lock order, lock attempts with a timeout). The thread
  functions are programs over the mutexes of \<^theory_text>\<open>Locks\<close>; the global
  \<^verbatim>\<open>use_deadlock_prevention\<close> is the flag they branch on. \<^verbatim>\<open>main\<close> is the list of its calls; its
  \<^verbatim>\<open>pthread_cancel\<close> takes effect when the thread reaches a cancellation point, which
  \<^verbatim>\<open>sleep\<close> is and \<^verbatim>\<open>pthread_mutex_lock\<close> is not. Printing is not modelled.
\<close>

section \<open>The thread functions\<close>

datatype resource = Resource_A | Resource_B

definition thread1_function :: "resource prog" where
  "thread1_function =
     Lock Resource_A (Sleep
       (Branch (Lock Resource_B (Unlock Resource_B (Unlock Resource_A Done)))
               (Lock Resource_B (Unlock Resource_B (Unlock Resource_A Done)))))"

definition thread2_unlocks :: "resource prog" where
  "thread2_unlocks =
     Branch (Unlock Resource_B (Unlock Resource_A Done)) (Unlock Resource_A (Unlock Resource_B Done))"

definition thread2_function :: "resource prog" where
  "thread2_function =
     Branch (Lock Resource_A (Sleep (Lock Resource_B thread2_unlocks)))
            (Lock Resource_B (Sleep (Lock Resource_A thread2_unlocks)))"

definition thread1_function_timeout :: "resource prog" where
  "thread1_function_timeout =
     Lock Resource_A (Sleep
       (Timed Resource_B (Unlock Resource_B (Unlock Resource_A Done)) (Unlock Resource_A Done)))"

definition thread2_function_timeout :: "resource prog" where
  "thread2_function_timeout =
     Lock Resource_B (Sleep
       (Timed Resource_A (Unlock Resource_A (Unlock Resource_B Done)) (Unlock Resource_B Done)))"

text \<open>
  \<^verbatim>\<open>mutex_lock_with_timeout\<close>: \<open>trylock k\<close> is the result of the \<open>k\<close>-th \<^verbatim>\<open>pthread_mutex_trylock\<close> and
  \<open>clock k\<close> the time read after it. The loop may not end, so its result is an option.
\<close>

partial_function (option) lock_attempts ::
  "(nat \<Rightarrow> int) \<Rightarrow> (nat \<Rightarrow> int) \<Rightarrow> int \<Rightarrow> int \<Rightarrow> nat \<Rightarrow> bool option" where
  "lock_attempts trylock clock start_time timeout_seconds k =
     (if trylock k \<noteq> 0 then
        (if clock k - start_time \<ge> timeout_seconds then Some False
         else lock_attempts trylock clock start_time timeout_seconds (Suc k))
      else Some True)"

definition mutex_lock_with_timeout ::
  "(nat \<Rightarrow> int) \<Rightarrow> (nat \<Rightarrow> int) \<Rightarrow> int \<Rightarrow> int \<Rightarrow> bool option" where
  "mutex_lock_with_timeout trylock clock start_time timeout_seconds =
     lock_attempts trylock clock start_time timeout_seconds 0"

section \<open>main\<close>

datatype main_call =
    Set_prevention bool
  | Init_mutexes
  | Destroy_mutexes
  | Create nat "resource prog"
  | Cancel nat
  | Join nat

definition main_calls :: "main_call list" where
  "main_calls =
     [Init_mutexes,
      Set_prevention False, Create 0 thread1_function, Create 1 thread2_function,
      Cancel 0, Cancel 1, Join 0, Join 1, Destroy_mutexes, Init_mutexes,
      Set_prevention True, Create 0 thread1_function, Create 1 thread2_function,
      Join 0, Join 1, Destroy_mutexes, Init_mutexes,
      Create 0 thread1_function_timeout, Create 1 thread2_function_timeout,
      Join 0, Join 1, Destroy_mutexes]"

record dl_sys = "resource lk_sys" +
  cancels :: "nat set"
  calls :: "main_call list"

definition dl_start :: dl_sys where
  "dl_start = \<lparr>progs = [Done, Done], owner = (\<lambda>_. None), flag = False, cancels = {}, calls = main_calls\<rparr>"

text \<open>The part of the state the threads see, and its update by a thread step.\<close>

definition threads_part :: "dl_sys \<Rightarrow> resource lk_sys" where
  "threads_part s = \<lparr>progs = progs s, owner = owner s, flag = flag s\<rparr>"

text \<open>The next call of the main thread; \<^verbatim>\<open>pthread_join\<close> waits for the thread to end.\<close>

definition dl_main :: "dl_sys \<Rightarrow> dl_sys option" where
  "dl_main s = (case calls s of
     [] \<Rightarrow> None
   | Set_prevention b # cs \<Rightarrow> Some (s\<lparr>flag := b, calls := cs\<rparr>)
   | Init_mutexes # cs \<Rightarrow> Some (s\<lparr>owner := \<lambda>_. None, calls := cs\<rparr>)
   | Destroy_mutexes # cs \<Rightarrow> Some (s\<lparr>calls := cs\<rparr>)
   | Create t p # cs \<Rightarrow> Some (s\<lparr>progs := (progs s)[t := p], cancels := cancels s - {t}, calls := cs\<rparr>)
   | Cancel t # cs \<Rightarrow> Some (s\<lparr>cancels := insert t (cancels s), calls := cs\<rparr>)
   | Join t # cs \<Rightarrow> if progs s ! t = Done then Some (s\<lparr>calls := cs\<rparr>) else None)"

inductive dl_step :: "dl_sys \<Rightarrow> dl_sys \<Rightarrow> bool" where
  threads: "t < length (progs s) \<Longrightarrow> thread_step t (threads_part s) u \<Longrightarrow>
     dl_step s (s\<lparr>progs := progs u, owner := owner u, flag := flag u\<rparr>)"
| cancelled: "t < length (progs s) \<Longrightarrow> t \<in> cancels s \<Longrightarrow> progs s ! t = Sleep p \<Longrightarrow>
     dl_step s (s\<lparr>progs := (progs s)[t := Done]\<rparr>)"
| main: "dl_main s = Some u \<Longrightarrow> dl_step s u"

section \<open>Lock ordering and timeouts exclude deadlock\<close>

fun rank :: "resource \<Rightarrow> nat" where
  "rank Resource_A = 0"
| "rank Resource_B = 1"

lemmas thread_defs = thread1_function_def thread2_function_def thread2_unlocks_def
  thread1_function_timeout_def thread2_function_timeout_def

definition lk_pair :: "bool \<Rightarrow> resource prog \<Rightarrow> resource prog \<Rightarrow> resource lk_sys" where
  "lk_pair f p q = \<lparr>progs = [p, q], owner = (\<lambda>_. None), flag = f\<rparr>"

lemma prevention_ordered: "lk_init rank True (lk_pair True thread1_function thread2_function)"
  by (auto simp: lk_init_def lk_pair_def thread_defs)

lemma timeout_ordered: "lk_init rank f (lk_pair f thread1_function_timeout thread2_function_timeout)"
  by (auto simp: lk_init_def lk_pair_def thread_defs)

lemma ordered_run:
  assumes "lk_init rank f s" "(lk_step ^^ n) s t"
  shows "n \<le> lk_measure s \<and> (\<exists>u. lk_step\<^sup>*\<^sup>* t u \<and> lk_final u) \<and> ((\<forall>u. \<not> lk_step t u) \<longrightarrow> lk_final t)
    \<and> (lk_final t \<longrightarrow> (\<forall>r. owner t r = None))"
proof -
  have inv: "lk_inv rank f t"
    using assms by (meson relpowp_imp_rtranclp lk.reachable_inv)
  then have "(\<forall>u. \<not> lk_step t u) \<longrightarrow> lk_final t"
    using lk.stuck_final by blast
  moreover have "lk_final t \<longrightarrow> (\<forall>r. owner t r = None)"
    using lk_final_free [OF inv] by simp
  ultimately show ?thesis
    using lk.run_from_init [OF assms] by simp
qed

text \<open>
  C4. Both ways to prevent the deadlock work: with \<^verbatim>\<open>use_deadlock_prevention\<close> set, both threads take \<open>A\<close> before \<open>B\<close>; the threads of the
  third part take the mutexes in opposite orders, whatever the flag, but ask for the second one with a timeout. In both cases every
  run of the two thread functions is bounded, can be completed, is never stuck before both threads have finished, and leaves both
  mutexes free.
\<close>

theorem prevention_completes:
  assumes "s = lk_pair True thread1_function thread2_function \<or> s = lk_pair f thread1_function_timeout thread2_function_timeout"
    "(lk_step ^^ n) s t"
  shows "n \<le> lk_measure s \<and> (\<exists>u. lk_step\<^sup>*\<^sup>* t u \<and> lk_final u) \<and> ((\<forall>u. \<not> lk_step t u) \<longrightarrow> lk_final t)
    \<and> (lk_final t \<longrightarrow> (\<forall>r. owner t r = None))"
  using assms ordered_run [OF prevention_ordered] ordered_run [OF timeout_ordered] by blast

theorem prevention_completes_witness:
  "\<exists>t u. lk_step (lk_pair True thread1_function thread2_function) t \<and> lk_step\<^sup>*\<^sup>* t u \<and> lk_final u"
proof -
  let ?s = "lk_pair True thread1_function thread2_function"
  have "lk_step ?s (?s\<lparr>progs := (progs ?s)[0 := Sleep (Branch
      (Lock Resource_B (Unlock Resource_B (Unlock Resource_A Done)))
      (Lock Resource_B (Unlock Resource_B (Unlock Resource_A Done))))],
      owner := (owner ?s)(Resource_A := Some 0)\<rparr>)"
    unfolding lk_step_def
    by (intro exI [of _ 0] conjI thread_step.lock) (auto simp: lk_pair_def thread_defs)
  then obtain t where t: "lk_step ?s t" by blast
  then have "(lk_step ^^ 1) ?s t" by (simp only: relpowp_1)
  from prevention_completes [OF disjI1 [OF refl] this] t show ?thesis by blast
qed

section \<open>The timed attempt\<close>

text \<open>
  \<^verbatim>\<open>mutex_lock_with_timeout\<close> returns as soon as time passes the limit at some attempt, and it
  returns true exactly when the attempt at which it stops got the mutex; that is the first attempt
  that got it or found the time limit passed.
\<close>

lemma mutex_lock_with_timeout_returns:
  assumes "clock n - start_time \<ge> timeout_seconds"
  shows "\<exists>k \<le> n. mutex_lock_with_timeout trylock clock start_time timeout_seconds = Some (trylock k = 0)
    \<and> (trylock k = 0 \<or> clock k - start_time \<ge> timeout_seconds)
    \<and> (\<forall>j < k. trylock j \<noteq> 0 \<and> clock j - start_time < timeout_seconds)"
proof -
  let ?stop = "\<lambda>k. trylock k = 0 \<or> clock k - start_time \<ge> timeout_seconds"
  define k where "k = (LEAST k. ?stop k)"
  have k: "?stop k" "k \<le> n"
    unfolding k_def by (rule LeastI [of ?stop n], simp add: assms) (rule Least_le, simp add: assms)
  have before: "\<not> ?stop j" if "j < k" for j
    using that unfolding k_def by (rule not_less_Least)
  have "lock_attempts trylock clock start_time timeout_seconds (k - d) = Some (trylock k = 0)" if "d \<le> k" for d
    using that
  proof (induction d)
    case 0
    then show ?case using k(1) by (subst lock_attempts.simps) auto
  next
    case (Suc d)
    then have "k - Suc d < k" "Suc (k - Suc d) = k - d" by auto
    with Suc before [of "k - Suc d"] show ?case
      by (subst lock_attempts.simps) auto
  qed
  from this [of k] show ?thesis
    using k before by (intro exI [of _ k]) (auto simp: mutex_lock_with_timeout_def not_le)
qed

section \<open>Opposite lock orders\<close>

text \<open>
  The stages of the two threads in the first part, where the flag is false, and the mutexes a
  thread holds at each stage.
\<close>

definition t1_stages :: "resource prog list" where
  "t1_stages =
     (let rest = Unlock Resource_B (Unlock Resource_A Done); lb = Lock Resource_B rest
      in [thread1_function, Sleep (Branch lb lb), Branch lb lb, lb, rest, Unlock Resource_A Done, Done])"

definition t2_stages :: "resource prog list" where
  "t2_stages =
     (let la = Lock Resource_A thread2_unlocks
      in [thread2_function, Lock Resource_B (Sleep la), Sleep la, la, thread2_unlocks,
          Unlock Resource_A (Unlock Resource_B Done), Unlock Resource_B Done, Done])"

definition t1_owner :: "nat \<Rightarrow> resource \<Rightarrow> bool" where
  "t1_owner i r \<longleftrightarrow> (case r of Resource_A \<Rightarrow> 1 \<le> i \<and> i \<le> 5 | Resource_B \<Rightarrow> i = 4)"

definition t2_owner :: "nat \<Rightarrow> resource \<Rightarrow> bool" where
  "t2_owner j r \<longleftrightarrow> (case r of Resource_A \<Rightarrow> 4 \<le> j \<and> j \<le> 5 | Resource_B \<Rightarrow> 2 \<le> j \<and> j \<le> 6)"

definition opp_inv :: "resource lk_sys \<Rightarrow> bool" where
  "opp_inv s \<longleftrightarrow> \<not> flag s \<and> (\<exists>i < length t1_stages. \<exists>j < length t2_stages.
     progs s = [t1_stages ! i, t2_stages ! j] \<and>
     (\<forall>r. owner s r = (if t1_owner i r then Some 0 else if t2_owner j r then Some 1 else None)) \<and>
     (\<forall>r. \<not> (t1_owner i r \<and> t2_owner j r)))"

lemmas stage_defs = t1_stages_def t2_stages_def thread_defs Let_def

lemma t1_step:
  assumes "thread_step 0 s s'" "progs s = [t1_stages ! i, q]" "i < length t1_stages" "\<not> flag s"
  shows "Suc i < length t1_stages \<and> s' = s\<lparr>progs := [t1_stages ! Suc i, q],
    owner := (\<lambda>r. if t1_owner (Suc i) r then (if t1_owner i r then owner s r else Some 0)
                  else if t1_owner i r then None else owner s r)\<rparr>
    \<and> (\<forall>r. t1_owner (Suc i) r \<and> \<not> t1_owner i r \<longrightarrow> owner s r = None)"
proof -
  have "i \<in> {0, 1, 2, 3, 4, 5, 6}"
    using assms(3) by (auto simp: stage_defs)
  then show ?thesis
    using assms
    by (elim insertE; elim thread_step.cases)
      (auto simp: stage_defs t1_owner_def fun_eq_iff split: resource.splits)
qed

lemma t2_step:
  assumes "thread_step 1 s s'" "progs s = [p, t2_stages ! j]" "j < length t2_stages" "\<not> flag s"
  shows "Suc j < length t2_stages \<and> s' = s\<lparr>progs := [p, t2_stages ! Suc j],
    owner := (\<lambda>r. if t2_owner (Suc j) r then (if t2_owner j r then owner s r else Some 1)
                  else if t2_owner j r then None else owner s r)\<rparr>
    \<and> (\<forall>r. t2_owner (Suc j) r \<and> \<not> t2_owner j r \<longrightarrow> owner s r = None)"
proof -
  have "j \<in> {0, 1, 2, 3, 4, 5, 6, 7}"
    using assms(3) by (auto simp: stage_defs)
  then show ?thesis
    using assms
    by (elim insertE; elim thread_step.cases)
      (auto simp: stage_defs t2_owner_def fun_eq_iff split: resource.splits)
qed

lemma opp_inv_step:
  assumes "opp_inv s" "lk_step s s'"
  shows "opp_inv s'"
proof -
  obtain i j where ij: "i < length t1_stages" "j < length t2_stages" "progs s = [t1_stages ! i, t2_stages ! j]"
    and own: "\<And>r. owner s r = (if t1_owner i r then Some 0 else if t2_owner j r then Some 1 else None)"
    and excl: "\<And>r. \<not> (t1_owner i r \<and> t2_owner j r)" and f: "\<not> flag s"
    using assms(1) by (auto simp: opp_inv_def)
  obtain t where t: "t < 2" "thread_step t s s'"
    using assms(2) ij(3) by (auto simp: lk_step_def numeral_2_eq_2)
  then consider "t = 0" | "t = 1" by linarith
  then show ?thesis
  proof cases
    case 1
    note st = t1_step [OF t(2) [unfolded 1] ij(3) ij(1) f]
    have own': "owner s' r = (if t1_owner (Suc i) r then Some 0 else if t2_owner j r then Some 1 else None)"
      and "\<not> (t1_owner (Suc i) r \<and> t2_owner j r)" for r
      using st own [of r] excl [of r] by (auto split: if_splits)
    moreover have "Suc i < length t1_stages" "progs s' = [t1_stages ! Suc i, t2_stages ! j]" "\<not> flag s'"
      using st f by auto
    ultimately show ?thesis
      unfolding opp_inv_def using ij(2) by blast
  next
    case 2
    note st = t2_step [OF t(2) [unfolded 2] ij(3) ij(2) f]
    have own': "owner s' r = (if t1_owner i r then Some 0 else if t2_owner (Suc j) r then Some 1 else None)"
      and "\<not> (t1_owner i r \<and> t2_owner (Suc j) r)" for r
      using st own [of r] excl [of r] by (auto split: if_splits)
    moreover have "Suc j < length t2_stages" "progs s' = [t1_stages ! i, t2_stages ! Suc j]" "\<not> flag s'"
      using st f by auto
    ultimately show ?thesis
      unfolding opp_inv_def using ij(1) by blast
  qed
qed

interpretation opp: invariant_system "\<lambda>s. s = lk_pair False thread1_function thread2_function" lk_step opp_inv
proof
  show "opp_inv s" if "s = lk_pair False thread1_function thread2_function" for s
    unfolding opp_inv_def that
    by (intro conjI exI [of _ 0]) (auto simp: lk_pair_def stage_defs t1_owner_def t2_owner_def split: resource.splits)
qed (auto intro: opp_inv_step)

text \<open>
  Without prevention the only way the two threads can get stuck is the circular wait the program
  announces: thread 1 holds \<open>A\<close> and waits for \<open>B\<close>, thread 2 holds \<open>B\<close> and waits for \<open>A\<close>.
\<close>

lemma opposite_order_deadlock:
  assumes "lk_step\<^sup>*\<^sup>* (lk_pair False thread1_function thread2_function) s"
    "\<not> lk_final s" "\<And>u. \<not> lk_step s u"
  shows "owner s Resource_A = Some 0 \<and> owner s Resource_B = Some 1 \<and>
    (\<exists>p q. progs s = [Lock Resource_B p, Lock Resource_A q])"
proof -
  have "opp_inv s" using opp.reachable_inv assms(1) by blast
  then obtain i j where ij: "i < length t1_stages" "j < length t2_stages" "progs s = [t1_stages ! i, t2_stages ! j]"
    and own: "\<And>r. owner s r = (if t1_owner i r then Some 0 else if t2_owner j r then Some 1 else None)"
    by (auto simp: opp_inv_def)
  have stuck: "\<not> thread_step t s u" if "t < 2" for t u
    using assms(3) [of u] that ij(3) by (auto simp: lk_step_def)
  have w: "\<exists>r p. progs s ! t = Lock r p \<and> owner s r \<noteq> None" if "t < 2" "progs s ! t \<noteq> Done" for t
    using that stuck by (metis thread_blocked)
  have "i \<in> {0, 1, 2, 3, 4, 5, 6}" "j \<in> {0, 1, 2, 3, 4, 5, 6, 7}"
    using ij by (auto simp: stage_defs)
  then show ?thesis
    using w [of 0] w [of 1] assms(2) own [of Resource_A] own [of Resource_B] ij(3)
    by (elim insertE) (auto simp: stage_defs t1_owner_def t2_owner_def lk_final_def)
qed

section \<open>Cancelling deadlocked threads\<close>

text \<open>A run under a schedule: thread \<open>t\<close> moves, or the main thread does.\<close>

fun dl_exec :: "nat option list \<Rightarrow> dl_sys \<Rightarrow> dl_sys option" where
  "dl_exec [] s = Some s"
| "dl_exec (None # es) s = (case dl_main s of None \<Rightarrow> None | Some u \<Rightarrow> dl_exec es u)"
| "dl_exec (Some t # es) s = (if t < length (progs s) then
     (case thread_next t (threads_part s) of None \<Rightarrow> None
      | Some u \<Rightarrow> dl_exec es (s\<lparr>progs := progs u, owner := owner u, flag := flag u\<rparr>)) else None)"

lemma dl_exec_steps: "dl_exec es s = Some u \<Longrightarrow> dl_step\<^sup>*\<^sup>* s u"
proof (induction es s rule: dl_exec.induct)
  case (2 es s)
  then show ?case
    by (auto split: option.splits intro: dl_step.main converse_rtranclp_into_rtranclp)
next
  case (3 t es s)
  then obtain v where "t < length (progs s)" "thread_next t (threads_part s) = Some v"
    and "dl_step\<^sup>*\<^sup>* (s\<lparr>progs := progs v, owner := owner v, flag := flag v\<rparr>) u"
    by (auto split: option.splits if_splits)
  then show ?case
    using dl_step.threads [of t s v] by (auto simp: thread_step_next)
qed simp

definition circular_wait :: "dl_sys \<Rightarrow> bool" where
  "circular_wait s \<longleftrightarrow> owner s Resource_A = Some 0 \<and> owner s Resource_B = Some 1 \<and>
     (\<exists>p q. progs s = [Lock Resource_B p, Lock Resource_A q])"

lemma circular_wait_step:
  assumes "circular_wait s" "dl_step s u"
  shows "dl_main s = Some u"
  using assms(2)
proof cases
  case (threads t v)
  with assms(1) show ?thesis
    by (auto simp: circular_wait_def threads_part_def thread_step_next thread_next_def less_Suc_eq split: if_splits)
next
  case (cancelled t p)
  with assms(1) show ?thesis by (auto simp: circular_wait_def less_Suc_eq)
qed

lemma circular_wait_kept:
  assumes "dl_step\<^sup>*\<^sup>* s u" "circular_wait s" "calls s = Cancel 0 # Cancel 1 # Join 0 # cs"
  shows "progs u = progs s \<and> owner u = owner s \<and>
    calls u \<in> {Cancel 0 # Cancel 1 # Join 0 # cs, Cancel 1 # Join 0 # cs, Join 0 # cs}"
  using assms
proof (induction rule: rtranclp_induct)
  case base
  then show ?case by simp
next
  case (step u v)
  then have ih: "progs u = progs s" "owner u = owner s"
    "calls u \<in> {Cancel 0 # Cancel 1 # Join 0 # cs, Cancel 1 # Join 0 # cs, Join 0 # cs}" by auto
  then have c: "circular_wait u" using step.prems(1) by (auto simp: circular_wait_def)
  then have "dl_main u = Some v" using circular_wait_step step.hyps(2) by blast
  with ih c show ?case by (auto simp: dl_main_def circular_wait_def)
qed

text \<open>
  Once the threads of the first part are deadlocked, cancelling them does not help: a thread
  blocked in \<^verbatim>\<open>pthread_mutex_lock\<close> never reaches a cancellation point, so in every later state both
  threads still wait and \<^verbatim>\<open>main\<close> has not returned from its first \<^verbatim>\<open>pthread_join\<close>. The second and
  third part are never reached.
\<close>

lemma cancel_does_not_end_deadlock:
  assumes "circular_wait s" "calls s = Cancel 0 # Cancel 1 # Join 0 # cs" "dl_step\<^sup>*\<^sup>* s u"
  shows "circular_wait u \<and> (\<exists>done. calls s = done @ calls u \<and> Join 0 \<notin> set done)"
  using circular_wait_kept [OF assms(3,1,2)] assms(1,2)
  by (auto simp: circular_wait_def Cons_eq_append_conv)

text \<open>The circular wait is reached.\<close>

lemma reaches_circular_wait:
  "\<exists>s. lk_step\<^sup>*\<^sup>* (lk_pair False thread1_function thread2_function) s \<and> \<not> lk_final s \<and> (\<forall>u. \<not> lk_step s u)"
proof -
  let ?s = "the (lk_exec [0, 1, 1, 0, 1, 0] (lk_pair False thread1_function thread2_function))"
  have "lk_exec [0, 1, 1, 0, 1, 0] (lk_pair False thread1_function thread2_function) = Some ?s"
    by (simp add: lk_pair_def thread_defs thread_next_def)
  then have r: "lk_step\<^sup>*\<^sup>* (lk_pair False thread1_function thread2_function) ?s"
    by (rule lk_exec_steps)
  have nf: "\<not> lk_final ?s"
    by (simp add: lk_pair_def thread_defs thread_next_def lk_final_def)
  have stuck: "\<not> lk_step ?s u" for u
    by (simp add: lk_step_def thread_step_next lk_pair_def thread_defs thread_next_def All_less_Suc)
  with r nf show ?thesis by blast
qed

text \<open>
  C5. Without prevention the only way the two threads get stuck is the circular wait the program announces: thread 1 holds \<open>A\<close> and
  waits for \<open>B\<close>, thread 2 holds \<open>B\<close> and waits for \<open>A\<close>. Cancelling the threads then does not help: a thread blocked in
  \<^verbatim>\<open>pthread_mutex_lock\<close> never reaches a cancellation point, so in every later state both threads still wait and \<^verbatim>\<open>main\<close> has
  not returned from its first \<^verbatim>\<open>pthread_join\<close>.
\<close>

theorem deadlock_is_permanent:
  "(lk_step\<^sup>*\<^sup>* (lk_pair False thread1_function thread2_function) s \<and> \<not> lk_final s \<and> (\<forall>u. \<not> lk_step s u) \<longrightarrow>
      owner s Resource_A = Some 0 \<and> owner s Resource_B = Some 1 \<and> (\<exists>p q. progs s = [Lock Resource_B p, Lock Resource_A q])) \<and>
   (circular_wait d \<and> calls d = Cancel 0 # Cancel 1 # Join 0 # cs \<and> dl_step\<^sup>*\<^sup>* d e \<longrightarrow>
      circular_wait e \<and> (\<exists>done. calls d = done @ calls e \<and> Join 0 \<notin> set done))"
  using opposite_order_deadlock cancel_does_not_end_deadlock by blast

theorem deadlock_is_permanent_witness:
  "(\<exists>s. lk_step\<^sup>*\<^sup>* (lk_pair False thread1_function thread2_function) s \<and> (\<forall>u. \<not> lk_step s u) \<and> owner s Resource_A = Some 0) \<and>
   (\<exists>s cs. dl_step\<^sup>*\<^sup>* dl_start s \<and> calls s = Cancel 0 # Cancel 1 # Join 0 # cs \<and>
     (\<forall>u. dl_step\<^sup>*\<^sup>* s u \<longrightarrow> circular_wait u \<and> calls u \<noteq> []))"
proof -
  obtain d where d: "lk_step\<^sup>*\<^sup>* (lk_pair False thread1_function thread2_function) d" "\<not> lk_final d" "\<forall>u. \<not> lk_step d u"
    using reaches_circular_wait by blast
  let ?es = "[None, None, None, Some 0, None, Some 1, Some 1, Some 0, Some 0, Some 1]"
  let ?s = "the (dl_exec ?es dl_start)"
  note ev = dl_start_def dl_main_def main_calls_def threads_part_def thread_next_def thread_defs
  have "dl_exec ?es dl_start = Some ?s" by (simp add: ev)
  then have r: "dl_step\<^sup>*\<^sup>* dl_start ?s" by (rule dl_exec_steps)
  have w: "circular_wait ?s" by (simp add: ev circular_wait_def)
  have c: "calls ?s = Cancel 0 # Cancel 1 # Join 0 # drop 7 main_calls" by (simp add: ev)
  have "circular_wait u \<and> calls u \<noteq> []" if "dl_step\<^sup>*\<^sup>* ?s u" for u
    using deadlock_is_permanent [of d ?s "drop 7 main_calls" u] w c that unfolding c by auto
  with r c d deadlock_is_permanent [of d] show ?thesis by blast
qed

end
