(* ===== verification/Slots.thy ===== *)
theory Slots
  imports Prelude
begin

text \<open>
  The interface of a fixed table of slots, the structure behind the client table of the event-driven
  server and the timer table: \<open>alloc\<close> takes the first free slot or fails, \<open>release\<close> clears one. What a
  client may rely on is proved once from these laws: the table is full exactly when \<open>cap\<close> slots
  are taken, an allocation disturbs no other slot, releasing undoes an allocation, and a table with
  a released slot can allocate again.
\<close>

locale slot_table =
  fixes lookup :: "'t \<Rightarrow> nat \<Rightarrow> 'x option"
    and alloc :: "'x \<Rightarrow> 't \<Rightarrow> (nat \<times> 't) option"
    and release :: "nat \<Rightarrow> 't \<Rightarrow> 't"
    and invar :: "'t \<Rightarrow> bool"
    and cap :: nat
  assumes lookup_bound: "invar t \<Longrightarrow> lookup t i = Some x \<Longrightarrow> i < cap"
    and alloc_None: "invar t \<Longrightarrow> alloc x t = None \<longleftrightarrow> (\<forall>i < cap. lookup t i \<noteq> None)"
    and alloc_first: "invar t \<Longrightarrow> alloc x t = Some (i, t') \<Longrightarrow>
      i < cap \<and> lookup t i = None \<and> (\<forall>j < i. lookup t j \<noteq> None)"
    and alloc_lookup: "invar t \<Longrightarrow> alloc x t = Some (i, t') \<Longrightarrow> lookup t' = (lookup t)(i \<mapsto> x)"
    and alloc_invar: "invar t \<Longrightarrow> alloc x t = Some (i, t') \<Longrightarrow> invar t'"
    and release_lookup: "invar t \<Longrightarrow> i < cap \<Longrightarrow> lookup (release i t) = (lookup t)(i := None)"
    and release_invar: "invar t \<Longrightarrow> i < cap \<Longrightarrow> invar (release i t)"
begin

lemma used_bounded: "invar t \<Longrightarrow> dom (lookup t) \<subseteq> {..<cap}"
  using lookup_bound by blast

lemma finite_used: "invar t \<Longrightarrow> finite (dom (lookup t))"
  using used_bounded finite_subset by blast

lemma alloc_fails_iff_full:
  assumes "invar t"
  shows "alloc x t = None \<longleftrightarrow> card (dom (lookup t)) = cap"
proof
  assume "alloc x t = None"
  then have "dom (lookup t) = {..<cap}"
    using alloc_None [OF assms] used_bounded [OF assms] by (auto simp: domIff)
  then show "card (dom (lookup t)) = cap" by simp
next
  assume "card (dom (lookup t)) = cap"
  then have "dom (lookup t) = {..<cap}"
    using used_bounded [OF assms] by (intro card_subset_eq) auto
  then show "alloc x t = None" using alloc_None [OF assms] by auto
qed

lemma alloc_card:
  assumes "invar t" "alloc x t = Some (i, t')"
  shows "card (dom (lookup t')) = Suc (card (dom (lookup t)))"
proof -
  have "i \<notin> dom (lookup t)" using alloc_first [OF assms] by (simp add: domIff)
  then show ?thesis using finite_used [OF assms(1)] by (simp add: alloc_lookup [OF assms])
qed

lemma alloc_release:
  assumes "invar t" "alloc x t = Some (i, t')"
  shows "lookup (release i t') = lookup t"
proof -
  have "i < cap" "lookup t i = None" using alloc_first [OF assms] by auto
  then show ?thesis
    using release_lookup [OF alloc_invar [OF assms], of i] alloc_lookup [OF assms] by (auto simp: fun_eq_iff)
qed

lemma release_alloc:
  assumes "invar t" "i < cap"
  shows "\<exists>j t'. alloc x (release i t) = Some (j, t') \<and> j \<le> i"
proof -
  have free: "lookup (release i t) i = None" using release_lookup [OF assms] by simp
  have inv: "invar (release i t)" using release_invar [OF assms] .
  obtain j t' where a: "alloc x (release i t) = Some (j, t')"
    using alloc_None [OF inv, of x] free assms(2) by fastforce
  then have "\<not> i < j" using alloc_first [OF inv] free by blast
  with a show ?thesis by auto
qed

end

section \<open>An array of pointers\<close>

text \<open>The array \<^verbatim>\<open>T *table[N]\<close>, where \<open>None\<close> is \<^verbatim>\<open>NULL\<close>.\<close>

definition array_lookup :: "'a option list \<Rightarrow> nat \<Rightarrow> 'a option" where
  "array_lookup xs i = (if i < length xs then xs ! i else None)"

definition array_alloc :: "'a \<Rightarrow> 'a option list \<Rightarrow> (nat \<times> 'a option list) option" where
  "array_alloc x xs = (case first_index (\<lambda>e. e = None) xs of
     None \<Rightarrow> None | Some j \<Rightarrow> Some (j, xs[j := Some x]))"

lemma array_alloc_None: "array_alloc x xs = None \<longleftrightarrow> (\<forall>i < length xs. array_lookup xs i \<noteq> None)"
proof -
  have "array_alloc x xs = None \<longleftrightarrow> first_index (\<lambda>e. e = None) xs = None"
    by (simp add: array_alloc_def split: option.split)
  then show ?thesis
    by (simp add: first_index_None all_set_conv_all_nth array_lookup_def)
qed

lemma array_alloc_Some:
  assumes "array_alloc x xs = Some (i, ys)"
  shows "i < length xs" "xs ! i = None" "\<And>j. j < i \<Longrightarrow> xs ! j \<noteq> None" "ys = xs[i := Some x]"
  using assms by (auto simp: array_alloc_def dest: first_index_SomeD split: option.splits)

interpretation array: slot_table array_lookup array_alloc "\<lambda>i xs. xs[i := None]" "\<lambda>xs. length xs = cap" cap for cap
proof
  fix t t' :: "'a option list" and x :: 'a and i
  assume inv: "length t = cap"
  show "array_alloc x t = None \<longleftrightarrow> (\<forall>i < cap. array_lookup t i \<noteq> None)"
    using inv by (simp add: array_alloc_None)
  show "i < cap" if "array_lookup t i = Some x"
    using inv that by (simp add: array_lookup_def split: if_splits)
  show "array_lookup (t[i := None]) = (array_lookup t)(i := None)" "length (t[i := None]) = cap" if "i < cap"
    using inv by (auto simp: array_lookup_def fun_eq_iff nth_list_update)
  assume a: "array_alloc x t = Some (i, t')"
  show "i < cap \<and> array_lookup t i = None \<and> (\<forall>j < i. array_lookup t j \<noteq> None)"
    using array_alloc_Some [OF a] inv by (simp add: array_lookup_def)
  show "array_lookup t' = (array_lookup t)(i \<mapsto> x)" "length t' = cap"
    using array_alloc_Some [OF a] inv by (auto simp: array_lookup_def fun_eq_iff nth_list_update)
qed

definition purge :: "'a \<Rightarrow> 'a option list \<Rightarrow> 'a option list" where
  "purge p xs = map (\<lambda>e. if e = Some p then None else e) xs"

definition inj_table :: "'a option list \<Rightarrow> bool" where
  "inj_table xs \<longleftrightarrow> (\<forall>i < length xs. \<forall>j < length xs. \<forall>p. xs ! i = Some p \<and> xs ! j = Some p \<longrightarrow> i = j)"

lemma length_purge [simp]: "length (purge p xs) = length xs"
  by (simp add: purge_def)

lemma in_purge: "Some q \<in> set (purge p xs) \<longleftrightarrow> Some q \<in> set xs \<and> q \<noteq> p"
  by (auto simp: purge_def split: if_splits)

lemma nth_purge: "i < length xs \<Longrightarrow> purge p xs ! i = (if xs ! i = Some p then None else xs ! i)"
  by (simp add: purge_def)

lemma purge_absent: "Some p \<notin> set xs \<Longrightarrow> purge p xs = xs"
  by (auto simp: purge_def intro: map_idI)

lemma purge_present:
  "inj_table xs \<Longrightarrow> i < length xs \<Longrightarrow> xs ! i = Some p \<Longrightarrow> xs[i := None] = purge p xs"
  by (intro nth_equalityI) (auto simp: nth_purge nth_list_update inj_table_def)

lemma inj_table_purge: "inj_table xs \<Longrightarrow> inj_table (purge p xs)"
  by (auto simp: inj_table_def nth_purge split: if_splits)

lemma inj_table_insert:
  assumes "inj_table xs" "Some p \<notin> set xs" "i < length xs"
  shows "inj_table (xs[i := Some p])"
proof -
  have "xs ! k \<noteq> Some p" if "k < length xs" for k
    using assms(2) that by (metis nth_mem)
  with assms(1,3) show ?thesis
    by (auto simp: inj_table_def nth_list_update_iff split: if_splits)
qed

end
