(* ===== verification/EventServer.thy ===== *)
theory EventServer
  imports Slots Transition
begin

text \<open>
  The echo server of \<^verbatim>\<open>lesson_9/code_examples/05_event_driven_server/05_event_driven_server.c\<close>: one
  thread, an edge-triggered epoll instance, a table of at most \<open>MAX_CLIENTS\<close> heap-allocated
  clients. The state holds the heap blocks of the clients, the table, the open descriptors of the
  process and the epoll registrations; a dereference or \<^verbatim>\<open>free\<close> of a freed block and an access
  outside a buffer are errors of the model. The answers of the kernel (\<^verbatim>\<open>accept\<close>, \<^verbatim>\<open>fcntl\<close>,
  \<^verbatim>\<open>malloc\<close>, \<^verbatim>\<open>read\<close>, \<^verbatim>\<open>write\<close>, \<^verbatim>\<open>epoll_ctl\<close>) are arguments of the operations. \<open>received\<close> and
  \<open>sent\<close> record the bytes exchanged on each connection.
\<close>

section \<open>Data\<close>

definition MAX_CLIENTS :: nat where "MAX_CLIENTS = 1024"
definition BUFFER_SIZE :: int where "BUFFER_SIZE = 1024"
definition MAX_EVENTS :: nat where "MAX_EVENTS = 64"

record Client =
  socket :: fd
  read_buffer :: "byte list"
  read_size :: int
  write_buffer :: "byte list"
  write_size :: int
  write_offset :: int

datatype epoll_flag = EPOLLIN | EPOLLOUT | EPOLLRDHUP | EPOLLHUP | EPOLLERR | EPOLLET

datatype srv_error = Use_after_free | Double_free | Out_of_bounds

record server =
  mem :: "addr \<rightharpoonup> Client"
  clients :: "addr option list"
  server_fd :: fd
  epoll_fd :: fd
  opened :: "fd set"
  nonblocking :: "fd set"
  interest :: "fd \<rightharpoonup> epoll_flag set"
  received :: "fd \<Rightarrow> byte list"
  sent :: "fd \<Rightarrow> byte list"

section \<open>System calls\<close>

definition close_fd :: "fd \<Rightarrow> server \<Rightarrow> server" where
  "close_fd fd s = s\<lparr>opened := opened s - {fd}, interest := (interest s)(fd := None)\<rparr>"

definition epoll_del :: "fd \<Rightarrow> server \<Rightarrow> server" where
  "epoll_del fd s = s\<lparr>interest := (interest s)(fd := None)\<rparr>"

definition epoll_set :: "fd \<Rightarrow> epoll_flag set \<Rightarrow> server \<Rightarrow> server" where
  "epoll_set fd fl s = s\<lparr>interest := (interest s)(fd \<mapsto> fl)\<rparr>"

text \<open>What \<^verbatim>\<open>read\<close> finds: an error, or the bytes available (none at end of file).\<close>

datatype read_answer = Read_error | Read_avail "byte list"

record accept_answer =
  new_fd :: fd
  getfl :: int
  setfl_ok :: bool
  malloc_at :: "addr option"
  add_ok :: bool

section \<open>Operations on clients\<close>

definition set_nonblocking :: "int \<Rightarrow> bool \<Rightarrow> fd \<Rightarrow> server \<Rightarrow> int \<times> server" where
  "set_nonblocking flags set_ok fd s =
     (if flags = -1 then (-1, s)
      else if \<not> set_ok then (-1, s)
      else (0, s\<lparr>nonblocking := insert fd (nonblocking s)\<rparr>))"

definition create_client :: "addr option \<Rightarrow> fd \<Rightarrow> server \<Rightarrow> addr option \<times> server" where
  "create_client malloc socket_fd s =
     (case malloc of
        None \<Rightarrow> (None, s)
      | Some p \<Rightarrow>
          (Some p, s\<lparr>mem := (mem s)(p \<mapsto>
             \<lparr>socket = socket_fd, read_buffer = replicate (nat BUFFER_SIZE) 0, read_size = 0,
              write_buffer = replicate (nat BUFFER_SIZE) 0, write_size = 0, write_offset = 0\<rparr>)\<rparr>))"

text \<open>The scan \<^verbatim>\<open>clients[i] && clients[i]->socket == fd\<close>.\<close>

fun scan_socket :: "(addr \<rightharpoonup> Client) \<Rightarrow> fd \<Rightarrow> addr option list \<Rightarrow> srv_error + nat option" where
  "scan_socket m fd [] = Inr None"
| "scan_socket m fd (None # xs) = map_sum id (map_option Suc) (scan_socket m fd xs)"
| "scan_socket m fd (Some p # xs) =
     (case m p of
        None \<Rightarrow> Inl Use_after_free
      | Some c \<Rightarrow> if socket c = fd then Inr (Some 0)
                  else map_sum id (map_option Suc) (scan_socket m fd xs))"

definition free_client :: "addr \<Rightarrow> server \<Rightarrow> srv_error + server" where
  "free_client p s =
     (if mem s p = None then Inl Double_free else Inr (s\<lparr>mem := (mem s)(p := None)\<rparr>))"

definition close_client :: "addr option \<Rightarrow> server \<Rightarrow> srv_error + server" where
  "close_client client s =
     (case client of
        None \<Rightarrow> Inr s
      | Some p \<Rightarrow>
          (case mem s p of
             None \<Rightarrow> Inl Use_after_free
           | Some c \<Rightarrow>
               and_then
                 (if socket c \<ge> 0 then
                    (let s1 = close_fd (socket c) (epoll_del (socket c) s)
                     in and_then (scan_socket (mem s1) (socket c) (clients s1))
                          (\<lambda>r. case r of
                             None \<Rightarrow> Inr s1
                           | Some i \<Rightarrow> Inr (s1\<lparr>clients := (clients s1)[i := None]\<rparr>)))
                  else Inr s)
                 (free_client p)))"

definition handle_read_event :: "read_answer \<Rightarrow> bool \<Rightarrow> addr \<Rightarrow> server \<Rightarrow> srv_error + server" where
  "handle_read_event answer mod_ok p s =
     (case mem s p of
        None \<Rightarrow> Inl Use_after_free
      | Some c \<Rightarrow>
          (case answer of
             Read_error \<Rightarrow> close_client (Some p) s
           | Read_avail avail \<Rightarrow>
               (let bytes = take (nat ((BUFFER_SIZE - read_size c) mod 2 ^ 64)) avail;
                    bytes_read = int (length bytes)
                in if read_size c < 0 \<or> read_size c + bytes_read > BUFFER_SIZE then Inl Out_of_bounds
                   else if bytes_read \<le> 0 then close_client (Some p) s
                   else
                     (let rb = blit (read_buffer c) (nat (read_size c)) bytes;
                          rs = read_size c + bytes_read;
                          c' = c\<lparr>read_buffer := rb,
                                 write_buffer := blit (write_buffer c) 0 (take (nat rs) rb),
                                 write_size := rs, write_offset := 0, read_size := 0\<rparr>;
                          s' = s\<lparr>mem := (mem s)(p \<mapsto> c'),
                                 received := (received s)(socket c := received s (socket c) @ bytes)\<rparr>
                      in if mod_ok then Inr (epoll_set (socket c) {EPOLLIN, EPOLLOUT, EPOLLET} s')
                         else close_client (Some p) s'))))"

text \<open>
  \<^verbatim>\<open>write\<close> returns \<open>ret\<close> or the number of bytes asked for, whichever is less; \<open>again\<close> says that
  \<^verbatim>\<open>errno\<close> is \<^verbatim>\<open>EAGAIN\<close> or \<^verbatim>\<open>EWOULDBLOCK\<close>.
\<close>

definition handle_write_event :: "int \<Rightarrow> bool \<Rightarrow> bool \<Rightarrow> addr \<Rightarrow> server \<Rightarrow> srv_error + server" where
  "handle_write_event ret again mod_ok p s =
     (case mem s p of
        None \<Rightarrow> Inl Use_after_free
      | Some c \<Rightarrow>
          if write_offset c < write_size c then
            (let bytes_written = min ret (write_size c - write_offset c)
             in if write_offset c < 0 \<or> write_size c > BUFFER_SIZE then Inl Out_of_bounds
                else if bytes_written \<le> 0 then (if again then Inr s else close_client (Some p) s)
                else
                  (let bytes = take (nat bytes_written) (drop (nat (write_offset c)) (write_buffer c));
                       c1 = c\<lparr>write_offset := write_offset c + bytes_written\<rparr>;
                       s1 = s\<lparr>mem := (mem s)(p \<mapsto> c1),
                              sent := (sent s)(socket c := sent s (socket c) @ bytes)\<rparr>
                   in if write_offset c1 \<ge> write_size c1 then
                        (let s2 = s1\<lparr>mem := (mem s1)(p \<mapsto> c1\<lparr>write_size := 0, write_offset := 0\<rparr>)\<rparr>
                         in if mod_ok then Inr (epoll_set (socket c) {EPOLLIN, EPOLLET} s2)
                            else close_client (Some p) s2)
                      else Inr s1))
          else Inr s)"

section \<open>The event loop\<close>

text \<open>One accepted connection; a \<^verbatim>\<open>continue\<close> of the source ends the function.\<close>

definition accept_one :: "accept_answer \<Rightarrow> server \<Rightarrow> srv_error + server" where
  "accept_one a s =
     (let client_fd = new_fd a;
          s0 = s\<lparr>opened := insert client_fd (opened s), nonblocking := nonblocking s - {client_fd},
                 received := (received s)(client_fd := []), sent := (sent s)(client_fd := [])\<rparr>;
          (r, s1) = set_nonblocking (getfl a) (setfl_ok a) client_fd s0
      in if r = -1 then Inr (close_fd client_fd s1)
         else
           (case create_client (malloc_at a) client_fd s1 of
              (None, s2) \<Rightarrow> Inr (close_fd client_fd s2)
            | (Some p, s2) \<Rightarrow>
                (case array_alloc p (clients s2) of
                   None \<Rightarrow> close_client (Some p) s2
                 | Some (slot, table) \<Rightarrow>
                     (let s3 = s2\<lparr>clients := table\<rparr>
                      in if add_ok a then Inr (epoll_set client_fd {EPOLLIN, EPOLLET} s3)
                         else close_client (Some p) s3))))"

text \<open>The connections accepted before \<^verbatim>\<open>accept\<close> fails or \<^verbatim>\<open>running\<close> is cleared.\<close>

fun accept_loop :: "accept_answer list \<Rightarrow> server \<Rightarrow> srv_error + server" where
  "accept_loop [] s = Inr s"
| "accept_loop (a # as) s = and_then (accept_one a s) (accept_loop as)"

record client_answer =
  read_ans :: read_answer
  read_mod_ok :: bool
  write_ret :: int
  write_again :: bool
  write_mod_ok :: bool

definition handle_client_event :: "fd \<Rightarrow> epoll_flag set \<Rightarrow> client_answer \<Rightarrow> server \<Rightarrow> srv_error + server" where
  "handle_client_event fd events a s =
     and_then (scan_socket (mem s) fd (clients s))
       (\<lambda>r. case r of
          None \<Rightarrow> Inr (close_fd fd (epoll_del fd s))
        | Some j \<Rightarrow>
            (let p = the (clients s ! j)
             in and_then (if EPOLLIN \<in> events then handle_read_event (read_ans a) (read_mod_ok a) p s else Inr s)
                  (\<lambda>s1. and_then
                     (if EPOLLOUT \<in> events then
                        handle_write_event (write_ret a) (write_again a) (write_mod_ok a) p s1 else Inr s1)
                     (\<lambda>s2. if events \<inter> {EPOLLRDHUP, EPOLLHUP, EPOLLERR} \<noteq> {}
                           then close_client (Some p) s2 else Inr s2))))"

text \<open>One entry of the array filled by \<^verbatim>\<open>epoll_wait\<close>, with the answers its handler gets.\<close>

datatype server_event =
    Connections "accept_answer list"
  | Client_event fd "epoll_flag set" client_answer

fun dispatch :: "server_event \<Rightarrow> server \<Rightarrow> srv_error + server" where
  "dispatch (Connections as) s = accept_loop as s"
| "dispatch (Client_event fd events a) s = handle_client_event fd events a s"

text \<open>The loop over the events of all rounds, until \<^verbatim>\<open>running\<close> is cleared or \<^verbatim>\<open>epoll_wait\<close> fails.\<close>

fun event_loop :: "server_event list \<Rightarrow> server \<Rightarrow> srv_error + server" where
  "event_loop [] s = Inr s"
| "event_loop (e # es) s = and_then (dispatch e s) (event_loop es)"

fun close_all :: "nat list \<Rightarrow> server \<Rightarrow> srv_error + server" where
  "close_all [] s = Inr s"
| "close_all (i # is) s =
     and_then (if clients s ! i \<noteq> None then close_client (clients s ! i) s else Inr s) (close_all is)"

definition server_cleanup :: "server \<Rightarrow> srv_error + server" where
  "server_cleanup s =
     and_then (close_all [0..<MAX_CLIENTS] s)
       (\<lambda>s1. Inr (close_fd (epoll_fd s1) (close_fd (server_fd s1) s1)))"

text \<open>
  The start of \<^verbatim>\<open>server_thread\<close>: on failure, the descriptors left open; \<open>fds\<close> are those of the rest
  of the process. A descriptor of -1 is a failed call.
\<close>

record setup_answer =
  socket_ret :: fd
  setsockopt_ok :: bool
  srv_getfl :: int
  srv_setfl_ok :: bool
  bind_ok :: bool
  listen_ok :: bool
  epoll_ret :: fd
  srv_add_ok :: bool

definition server_setup :: "setup_answer \<Rightarrow> fd set \<Rightarrow> fd set + server" where
  "server_setup a fds =
     (let sfd = socket_ret a; efd = epoll_ret a
      in if sfd = -1 then Inl fds
         else
           (let s0 = \<lparr>mem = Map.empty, clients = replicate MAX_CLIENTS None, server_fd = sfd, epoll_fd = efd,
                      opened = insert sfd fds, nonblocking = {}, interest = Map.empty,
                      received = (\<lambda>_. []), sent = (\<lambda>_. [])\<rparr>;
                closed = opened (close_fd sfd s0);
                (r, s1) = set_nonblocking (srv_getfl a) (srv_setfl_ok a) sfd s0
            in if \<not> setsockopt_ok a then Inl closed
               else if r = -1 then Inl closed
               else if \<not> bind_ok a then Inl closed
               else if \<not> listen_ok a then Inl closed
               else if efd = -1 then Inl closed
               else
                 (let s2 = s1\<lparr>opened := insert efd (opened s1)\<rparr>
                  in if \<not> srv_add_ok a then Inl (opened (close_fd efd (close_fd sfd s2)))
                     else Inr (epoll_set sfd {EPOLLIN, EPOLLET} s2))))"

end
