(* ===== verification/EventServer_Inv.thy ===== *)
theory EventServer_Inv
  imports EventServer
begin

text \<open>
  The invariant of the event-driven server: the table, the heap and the descriptors agree, and the
  buffers are used within their bounds. Every event whose handlers close the client at most once
  keeps it; an event that makes a handler close the client and then runs another handler uses the
  freed block. The last part is about the bytes echoed on a connection and about shutdown.
\<close>

section \<open>Invariant\<close>

definition client_ok :: "server \<Rightarrow> Client \<Rightarrow> bool" where
  "client_ok s c \<longleftrightarrow> length (read_buffer c) = nat BUFFER_SIZE \<and> length (write_buffer c) = nat BUFFER_SIZE \<and>
     read_size c = 0 \<and> 0 \<le> write_offset c \<and> write_offset c \<le> write_size c \<and> write_size c \<le> BUFFER_SIZE \<and>
     0 \<le> socket c \<and> socket c \<in> opened s \<and> socket c \<in> nonblocking s \<and> socket c \<in> dom (interest s) \<and>
     socket c \<noteq> server_fd s \<and> socket c \<noteq> epoll_fd s"

definition srv_wf :: "server \<Rightarrow> bool" where
  "srv_wf s \<longleftrightarrow> length (clients s) = MAX_CLIENTS \<and> inj_table (clients s) \<and>
     (\<forall>p. p \<in> dom (mem s) \<longleftrightarrow> Some p \<in> set (clients s)) \<and>
     (\<forall>p c. mem s p = Some c \<longrightarrow> client_ok s c) \<and>
     (\<forall>p q c d. mem s p = Some c \<longrightarrow> mem s q = Some d \<longrightarrow> socket c = socket d \<longrightarrow> p = q) \<and>
     server_fd s \<in> opened s \<and> epoll_fd s \<in> opened s"

lemma srv_wfD:
  assumes "srv_wf s"
  shows "length (clients s) = MAX_CLIENTS" "inj_table (clients s)"
    "\<And>p. p \<in> dom (mem s) \<longleftrightarrow> Some p \<in> set (clients s)"
    "\<And>p c. mem s p = Some c \<Longrightarrow> client_ok s c"
    "\<And>p q c d. mem s p = Some c \<Longrightarrow> mem s q = Some d \<Longrightarrow> socket c = socket d \<Longrightarrow> p = q"
    "server_fd s \<in> opened s" "epoll_fd s \<in> opened s"
  using assms by (auto simp: srv_wf_def)

lemma srv_wfI:
  assumes "length (clients s) = MAX_CLIENTS" "inj_table (clients s)"
    "\<And>p. p \<in> dom (mem s) \<longleftrightarrow> Some p \<in> set (clients s)"
    "\<And>p c. mem s p = Some c \<Longrightarrow> client_ok s c"
    "\<And>p q c d. mem s p = Some c \<Longrightarrow> mem s q = Some d \<Longrightarrow> socket c = socket d \<Longrightarrow> p = q"
    "server_fd s \<in> opened s" "epoll_fd s \<in> opened s"
  shows "srv_wf s"
  unfolding srv_wf_def using assms by blast

section \<open>Scans of the table\<close>

definition has_socket :: "(addr \<rightharpoonup> Client) \<Rightarrow> fd \<Rightarrow> addr option \<Rightarrow> bool" where
  "has_socket m fd e \<longleftrightarrow> (\<exists>p c. e = Some p \<and> m p = Some c \<and> socket c = fd)"

lemma scan_socket_index:
  "(\<And>q. Some q \<in> set xs \<Longrightarrow> q \<in> dom m) \<Longrightarrow> scan_socket m fd xs = Inr (first_index (has_socket m fd) xs)"
proof (induction m fd xs rule: scan_socket.induct)
  case (3 m fd p xs)
  then obtain c where "m p = Some c" by (metis domD list.set_intros(1))
  with 3 show ?case by (auto simp: has_socket_def)
qed (auto simp: has_socket_def)

text \<open>
  What \<open>close_client\<close> does to a client block whose socket no other client of the table shares:
  the block is freed, its descriptor closed, and its slot, if it has one, cleared.
\<close>

definition closed_client :: "addr \<Rightarrow> Client \<Rightarrow> server \<Rightarrow> server" where
  "closed_client p c s = s\<lparr>mem := (mem s)(p := None), clients := purge p (clients s),
     opened := opened s - {socket c}, interest := (interest s)(socket c := None)\<rparr>"

lemma close_client_effect:
  assumes "mem s p = Some c" "0 \<le> socket c" "inj_table (clients s)"
    and valid: "\<And>q. Some q \<in> set (clients s) \<Longrightarrow> q \<in> dom (mem s)"
    and only: "\<And>q d. Some q \<in> set (clients s) \<Longrightarrow> mem s q = Some d \<Longrightarrow> socket d = socket c \<Longrightarrow> q = p"
  shows "close_client (Some p) s = Inr (closed_client p c s)"
proof -
  let ?s1 = "close_fd (socket c) (epoll_del (socket c) s)"
  have s1: "mem ?s1 = mem s" "clients ?s1 = clients s"
    by (simp_all add: close_fd_def epoll_del_def)
  have scan: "scan_socket (mem s) (socket c) (clients s) = Inr (first_index (has_socket (mem s) (socket c)) (clients s))"
    using valid by (rule scan_socket_index)
  show ?thesis
  proof (cases "first_index (has_socket (mem s) (socket c)) (clients s)")
    case None
    then have "Some p \<notin> set (clients s)"
      using assms(1) by (auto simp: first_index_None has_socket_def)
    then show ?thesis
      using assms(1,2) None scan s1
      by (simp add: close_client_def free_client_def closed_client_def purge_absent close_fd_def epoll_del_def Let_def)
  next
    case (Some i)
    then have i: "i < length (clients s)" "has_socket (mem s) (socket c) (clients s ! i)"
      by (auto dest: first_index_SomeD)
    then have "clients s ! i = Some p"
      using only by (metis has_socket_def nth_mem)
    then have "(clients s)[i := None] = purge p (clients s)"
      using purge_present [OF assms(3) i(1)] by blast
    then show ?thesis
      using assms(1,2) Some scan s1
      by (simp add: close_client_def free_client_def closed_client_def close_fd_def epoll_del_def Let_def)
  qed
qed

lemma close_client_wf:
  assumes wf: "srv_wf s" and p: "mem s p = Some c"
  shows "close_client (Some p) s = Inr (closed_client p c s)" "srv_wf (closed_client p c s)"
proof -
  note D = srv_wfD [OF wf]
  have ok: "client_ok s c" using D(4) p by blast
  show "close_client (Some p) s = Inr (closed_client p c s)"
    using ok D(2,3,5) p by (intro close_client_effect) (auto simp: client_ok_def)
  have other: "client_ok (closed_client p c s) d" if "mem s q = Some d" "q \<noteq> p" for q d
    using D(4) [OF that(1)] D(5) [OF that(1) p] that(2)
    by (auto simp: client_ok_def closed_client_def)
  show "srv_wf (closed_client p c s)"
  proof (rule srv_wfI)
    show "q \<in> dom (mem (closed_client p c s)) \<longleftrightarrow> Some q \<in> set (clients (closed_client p c s))" for q
      using D(3) [of q] by (simp add: closed_client_def in_purge domIff)
    show "client_ok (closed_client p c s) d" if "mem (closed_client p c s) q = Some d" for q d
      using other [of q d] that by (simp add: closed_client_def split: if_splits)
    show "q = r" if "mem (closed_client p c s) q = Some d" "mem (closed_client p c s) r = Some e"
      "socket d = socket e" for q r d e
      using D(5) that by (simp add: closed_client_def split: if_splits)
  qed (use ok D inj_table_purge [OF D(2)] in \<open>auto simp: closed_client_def client_ok_def\<close>)
qed

section \<open>Handlers\<close>

text \<open>Bytes of the last request not echoed yet.\<close>

definition pending :: "Client \<Rightarrow> byte list" where
  "pending c = take (nat (write_size c - write_offset c)) (drop (nat (write_offset c)) (write_buffer c))"

lemma update_client_wf:
  assumes wf: "srv_wf s" and p: "mem s p = Some c" and "socket c' = socket c" "client_ok s c'"
    and "mem t = (mem s)(p \<mapsto> c')" "clients t = clients s" "server_fd t = server_fd s" "epoll_fd t = epoll_fd s"
    "opened t = opened s" "nonblocking t = nonblocking s" "dom (interest s) \<subseteq> dom (interest t)"
  shows "srv_wf t"
proof -
  note D = srv_wfD [OF wf]
  have ok: "client_ok t d" if "client_ok s d" for d
    using that assms by (auto simp: client_ok_def)
  show ?thesis
  proof (rule srv_wfI)
    show "q \<in> dom (mem t) \<longleftrightarrow> Some q \<in> set (clients t)" for q
      using D(3) [of q] D(3) [of p] p assms(5,6) by (auto simp: domIff)
    show "client_ok t d" if "mem t q = Some d" for q d
      using that ok assms(4,5) D(4) by (simp split: if_splits)
    show "q = r" if "mem t q = Some d" "mem t r = Some e" "socket d = socket e" for q r d e
      using that assms(3,5) D(5) p by (simp split: if_splits)
  qed (use D assms in auto)
qed

fun read_closes :: "read_answer \<Rightarrow> bool \<Rightarrow> bool" where
  "read_closes Read_error mod_ok \<longleftrightarrow> True"
| "read_closes (Read_avail avail) mod_ok \<longleftrightarrow> avail = [] \<or> \<not> mod_ok"

text \<open>The client after a read, for a well-formed client.\<close>

definition read_client :: "byte list \<Rightarrow> Client \<Rightarrow> Client" where
  "read_client bytes c = c\<lparr>read_buffer := blit (read_buffer c) 0 bytes, write_buffer := blit (write_buffer c) 0 bytes,
     write_size := int (length bytes), write_offset := 0, read_size := 0\<rparr>"

definition read_state :: "byte list \<Rightarrow> addr \<Rightarrow> Client \<Rightarrow> server \<Rightarrow> server" where
  "read_state bytes p c s = s\<lparr>mem := (mem s)(p \<mapsto> read_client bytes c),
     received := (received s)(socket c := received s (socket c) @ bytes)\<rparr>"

lemma handle_read_event_data:
  assumes "mem s p = Some c" "client_ok s c" "avail \<noteq> []"
  shows "handle_read_event (Read_avail avail) mod_ok p s =
    (let s' = read_state (take (nat BUFFER_SIZE) avail) p c s
     in if mod_ok then Inr (epoll_set (socket c) {EPOLLIN, EPOLLOUT, EPOLLET} s') else close_client (Some p) s')"
proof -
  define bytes where "bytes = take (nat BUFFER_SIZE) avail"
  have "nat ((BUFFER_SIZE - read_size c) mod 2 ^ 64) = nat BUFFER_SIZE"
    using assms(2) by (simp add: client_ok_def BUFFER_SIZE_def)
  moreover have "bytes \<noteq> []" "int (length bytes) \<le> BUFFER_SIZE"
    using assms(3) by (auto simp: BUFFER_SIZE_def bytes_def)
  ultimately show ?thesis
    using assms(1,2)
    by (simp add: bytes_def [symmetric] handle_read_event_def read_state_def read_client_def client_ok_def Let_def)
qed

lemma read_state_wf:
  assumes "srv_wf s" "mem s p = Some c" "length bytes \<le> nat BUFFER_SIZE"
  shows "srv_wf (read_state bytes p c s)"
proof (rule update_client_wf [OF assms(1,2)])
  show "client_ok s (read_client bytes c)"
    using srv_wfD(4) [OF assms(1,2)] assms(3)
    by (auto simp: client_ok_def read_client_def length_blit)
qed (auto simp: read_state_def read_client_def)

lemma epoll_set_wf: "srv_wf s \<Longrightarrow> srv_wf (epoll_set fd fl s)"
  by (auto simp: srv_wf_def epoll_set_def client_ok_def)

lemma closed_client_dead [simp]: "mem (closed_client p c s) p = None"
  by (simp add: closed_client_def)

lemma read_event:
  assumes "srv_wf s" "mem s p = Some c"
  obtains s' where "handle_read_event ans mod_ok p s = Inr s'" "srv_wf s'"
    "mem s' p = None \<longleftrightarrow> read_closes ans mod_ok"
proof (cases "ans = Read_error \<or> ans = Read_avail []")
  case True
  then have "handle_read_event ans mod_ok p s = close_client (Some p) s"
    using assms srv_wfD(4) [OF assms]
    by (auto simp: handle_read_event_def client_ok_def BUFFER_SIZE_def split: read_answer.split)
  with close_client_wf [OF assms] True that [of "closed_client p c s"] show thesis by auto
next
  case False
  then obtain avail where ans: "ans = Read_avail avail" "avail \<noteq> []" by (cases ans) auto
  let ?b = "take (nat BUFFER_SIZE) avail"
  have wf: "srv_wf (read_state ?b p c s)" using assms by (intro read_state_wf) auto
  have m: "mem (read_state ?b p c s) p = Some (read_client ?b c)" by (simp add: read_state_def)
  note eq = handle_read_event_data [OF assms(2) srv_wfD(4) [OF assms] ans(2), of mod_ok]
  show thesis
  proof (cases mod_ok)
    case True
    with eq ans wf m show thesis
      by (intro that [of "epoll_set (socket c) {EPOLLIN, EPOLLOUT, EPOLLET} (read_state ?b p c s)"] epoll_set_wf)
        (auto simp: epoll_set_def Let_def)
  next
    case False
    with eq ans close_client_wf [OF wf m] show thesis
      by (intro that [of "closed_client p (read_client ?b c) (read_state ?b p c s)"]) (auto simp: Let_def)
  qed
qed

definition written_client :: "int \<Rightarrow> Client \<Rightarrow> Client" where
  "written_client n c =
     (if write_offset c + n \<ge> write_size c then c\<lparr>write_size := 0, write_offset := 0\<rparr>
      else c\<lparr>write_offset := write_offset c + n\<rparr>)"

definition write_state :: "int \<Rightarrow> addr \<Rightarrow> Client \<Rightarrow> server \<Rightarrow> server" where
  "write_state n p c s = s\<lparr>mem := (mem s)(p \<mapsto> written_client n c),
     sent := (sent s)(socket c := sent s (socket c) @ take (nat n) (pending c))\<rparr>"

definition write_closes :: "Client \<Rightarrow> int \<Rightarrow> bool \<Rightarrow> bool \<Rightarrow> bool" where
  "write_closes c ret again mod_ok \<longleftrightarrow> write_offset c < write_size c \<and>
     (if ret \<le> 0 then \<not> again else write_size c - write_offset c \<le> ret \<and> \<not> mod_ok)"

lemma sent_mem_commute: "s\<lparr>sent := x, mem := y\<rparr> = s\<lparr>mem := y, sent := x\<rparr>" for s :: server
  by simp

lemma handle_write_event_data:
  assumes "mem s p = Some c" "client_ok s c" "write_offset c < write_size c" "0 < ret"
  defines "n \<equiv> min ret (write_size c - write_offset c)"
  shows "handle_write_event ret again mod_ok p s =
    (let s' = write_state n p c s
     in if write_offset c + n < write_size c then Inr s'
        else if mod_ok then Inr (epoll_set (socket c) {EPOLLIN, EPOLLET} s') else close_client (Some p) s')"
proof -
  have n: "0 < n" "n \<le> write_size c - write_offset c" using assms by (auto simp: n_def)
  then have t: "take (nat n) (pending c) = take (nat n) (drop (nat (write_offset c)) (write_buffer c))"
    by (simp add: pending_def min_def nat_le_eq_zle)
  have nb: "\<not> (write_offset c < 0 \<or> write_size c > BUFFER_SIZE)" "\<not> n \<le> 0"
    using assms(2) n by (auto simp: client_ok_def)
  show ?thesis
    by (simp only: handle_write_event_def Let_def n_def [symmetric] assms(1,3) nb t [symmetric] option.case if_True if_False)
      (simp add: write_state_def written_client_def not_le sent_mem_commute)
qed

lemma write_state_wf:
  assumes "srv_wf s" "mem s p = Some c" "0 < n"
  shows "srv_wf (write_state n p c s)"
proof (rule update_client_wf [OF assms(1,2)])
  show "client_ok s (written_client n c)"
    using srv_wfD(4) [OF assms(1,2)] assms(3)
    by (auto simp: client_ok_def written_client_def BUFFER_SIZE_def)
qed (auto simp: write_state_def written_client_def)

lemma write_event:
  assumes "srv_wf s" "mem s p = Some c"
  obtains s' where "handle_write_event ret again mod_ok p s = Inr s'" "srv_wf s'"
    "mem s' p = None \<longleftrightarrow> write_closes c ret again mod_ok"
proof -
  have ok: "client_ok s c" using srv_wfD(4) [OF assms] .
  consider "write_size c \<le> write_offset c \<or> ret \<le> 0 \<and> again"
    | "write_offset c < write_size c" "ret \<le> 0" "\<not> again" | "write_offset c < write_size c" "0 < ret"
    by linarith
  then show thesis
  proof cases
    case 1
    then have "handle_write_event ret again mod_ok p s = Inr s"
      using assms(2) ok by (auto simp: handle_write_event_def client_ok_def Let_def)
    with 1 assms that [of s] show thesis by (auto simp: write_closes_def)
  next
    case 2
    then have "handle_write_event ret again mod_ok p s = close_client (Some p) s"
      using assms(2) ok by (auto simp: handle_write_event_def client_ok_def Let_def)
    with 2 close_client_wf [OF assms] that [of "closed_client p c s"] show thesis
      by (auto simp: write_closes_def)
  next
    case 3
    define n where "n = min ret (write_size c - write_offset c)"
    have wf: "srv_wf (write_state n p c s)"
      using 3 assms by (intro write_state_wf) (auto simp: n_def)
    have m: "mem (write_state n p c s) p = Some (written_client n c)" by (simp add: write_state_def)
    note eq = handle_write_event_data [OF assms(2) ok 3, of again mod_ok, folded n_def]
    consider "write_offset c + n < write_size c" | "write_size c \<le> write_offset c + n" mod_ok
      | "write_size c \<le> write_offset c + n" "\<not> mod_ok" by linarith
    then show thesis
    proof cases
      case 1
      then have "handle_write_event ret again mod_ok p s = Inr (write_state n p c s)"
        by (simp add: eq Let_def)
      with wf show thesis
        using 1 m \<open>0 < ret\<close> by (rule_tac that) (auto simp: write_closes_def n_def)
    next
      case 2
      with eq epoll_set_wf [OF wf] m 3 show thesis
        by (intro that [of "epoll_set (socket c) {EPOLLIN, EPOLLET} (write_state n p c s)"])
          (auto simp: write_closes_def Let_def epoll_set_def)
    next
      case 3
      with eq close_client_wf [OF wf m] \<open>0 < ret\<close> \<open>write_offset c < write_size c\<close> show thesis
        by (intro that [of "closed_client p (written_client n c) (write_state n p c s)"])
          (auto simp: write_closes_def Let_def n_def)
    qed
  qed
qed

lemma scan_client:
  assumes "srv_wf s" "mem s p = Some c"
  obtains j where "scan_socket (mem s) (socket c) (clients s) = Inr (Some j)" "clients s ! j = Some p"
proof -
  note D = srv_wfD [OF assms(1)]
  obtain i where i: "i < length (clients s)" "clients s ! i = Some p"
    using D(3) [of p] assms(2) by (auto simp: in_set_conv_nth)
  have "first_index (has_socket (mem s) (socket c)) (clients s) = Some i"
  proof (rule first_index_unique [OF i(1)])
    show "has_socket (mem s) (socket c) (clients s ! i)" using i assms(2) by (simp add: has_socket_def)
    show "j = i" if "j < length (clients s)" "has_socket (mem s) (socket c) (clients s ! j)" for j
      using that D(2) D(5) [OF _ assms(2)] i unfolding has_socket_def inj_table_def by metis
  qed
  with i scan_socket_index [of "clients s" "mem s" "socket c"] D(3) that show thesis by auto
qed

lemma scan_unknown:
  assumes "srv_wf s" "\<And>p c. mem s p = Some c \<Longrightarrow> socket c \<noteq> fd"
  shows "scan_socket (mem s) fd (clients s) = Inr None"
  using scan_socket_index [of "clients s" "mem s" fd] srv_wfD(3) [OF assms(1)] assms(2)
  by (auto simp: first_index_None has_socket_def)

text \<open>The handlers run for an event of a known client.\<close>

lemma handle_client_event_known:
  assumes "srv_wf s" "mem s p = Some c"
  shows "handle_client_event (socket c) events a s =
    and_then (if EPOLLIN \<in> events then handle_read_event (read_ans a) (read_mod_ok a) p s else Inr s)
      (\<lambda>s1. and_then
         (if EPOLLOUT \<in> events then
            handle_write_event (write_ret a) (write_again a) (write_mod_ok a) p s1 else Inr s1)
         (\<lambda>s2. if events \<inter> {EPOLLRDHUP, EPOLLHUP, EPOLLERR} \<noteq> {} then close_client (Some p) s2 else Inr s2))"
proof -
  obtain j where j: "scan_socket (mem s) (socket c) (clients s) = Inr (Some j)" "clients s ! j = Some p"
    using scan_client [OF assms] .
  show ?thesis
    by (simp only: handle_client_event_def j and_then.simps option.case Let_def option.sel)
qed

section \<open>Events\<close>

abbreviation hangup_flags :: "epoll_flag set" where
  "hangup_flags \<equiv> {EPOLLRDHUP, EPOLLHUP, EPOLLERR}"

text \<open>The event does not run a handler after one that closes the client.\<close>

definition orderly :: "epoll_flag set \<Rightarrow> client_answer \<Rightarrow> bool" where
  "orderly events a \<longleftrightarrow>
     (EPOLLIN \<in> events \<and> read_closes (read_ans a) (read_mod_ok a) \<longrightarrow> events \<inter> insert EPOLLOUT hangup_flags = {}) \<and>
     (EPOLLOUT \<in> events \<and> events \<inter> hangup_flags \<noteq> {} \<longrightarrow> (0 < write_ret a \<or> write_again a) \<and> write_mod_ok a)"

text \<open>What the kernel guarantees of a new descriptor and a new block.\<close>

definition fresh_accept :: "accept_answer \<Rightarrow> server \<Rightarrow> bool" where
  "fresh_accept a s \<longleftrightarrow> 0 \<le> new_fd a \<and> new_fd a \<notin> opened s \<and> (\<forall>p. malloc_at a = Some p \<longrightarrow> mem s p = None)"

fun accepts_ok :: "accept_answer list \<Rightarrow> server \<Rightarrow> bool" where
  "accepts_ok [] s \<longleftrightarrow> True"
| "accepts_ok (a # as) s \<longleftrightarrow> fresh_accept a s \<and> (case accept_one a s of Inl _ \<Rightarrow> True | Inr s' \<Rightarrow> accepts_ok as s')"

fun event_ok :: "server_event \<Rightarrow> server \<Rightarrow> bool" where
  "event_ok (Connections as) s \<longleftrightarrow> accepts_ok as s"
| "event_ok (Client_event fd events a) s \<longleftrightarrow> fd \<noteq> server_fd s \<and> fd \<noteq> epoll_fd s \<and> orderly events a"

lemma close_fd_wf:
  assumes "srv_wf s" "fd \<noteq> server_fd s" "fd \<noteq> epoll_fd s" "\<And>p c. mem s p = Some c \<Longrightarrow> socket c \<noteq> fd"
  shows "srv_wf (close_fd fd s)"
proof (rule srv_wfI)
  note D = srv_wfD [OF assms(1)]
  show "client_ok (close_fd fd s) c" if "mem (close_fd fd s) p = Some c" for p c
    using D(4) [of p c] assms(4) [of p c] that by (auto simp: close_fd_def client_ok_def)
  show "p = q" if "mem (close_fd fd s) p = Some c" "mem (close_fd fd s) q = Some d" "socket c = socket d" for p q c d
    using D(5) that by (simp add: close_fd_def)
  show "p \<in> dom (mem (close_fd fd s)) \<longleftrightarrow> Some p \<in> set (clients (close_fd fd s))" for p
    using D(3) [of p] by (simp add: close_fd_def)
qed (use assms srv_wfD [OF assms(1)] in \<open>auto simp: close_fd_def\<close>)

lemma read_phase:
  assumes "srv_wf s" "mem s p = Some c"
  obtains s1 where "srv_wf s1"
    "(if EPOLLIN \<in> events then handle_read_event (read_ans a) (read_mod_ok a) p s else Inr s) = Inr s1"
    "mem s1 p = None \<longleftrightarrow> EPOLLIN \<in> events \<and> read_closes (read_ans a) (read_mod_ok a)"
proof (cases "EPOLLIN \<in> events")
  case True
  then show thesis using read_event [OF assms] that by (simp only: if_True simp_thms) metis
next
  case False
  then show thesis using assms that [of s] by simp
qed

lemma write_phase:
  assumes "srv_wf s" "mem s p = Some c"
  obtains s1 where "srv_wf s1"
    "(if EPOLLOUT \<in> events then handle_write_event (write_ret a) (write_again a) (write_mod_ok a) p s else Inr s) = Inr s1"
    "mem s1 p = None \<longleftrightarrow> EPOLLOUT \<in> events \<and> write_closes c (write_ret a) (write_again a) (write_mod_ok a)"
proof (cases "EPOLLOUT \<in> events")
  case True
  then show thesis using write_event [OF assms] that by (simp only: if_True simp_thms) metis
next
  case False
  then show thesis using assms that [of s] by simp
qed

lemma client_event_wf:
  assumes wf: "srv_wf s" and fd: "fd \<noteq> server_fd s" "fd \<noteq> epoll_fd s" and ord: "orderly events a"
  obtains s' where "handle_client_event fd events a s = Inr s'" "srv_wf s'"
proof (cases "\<exists>p c. mem s p = Some c \<and> socket c = fd")
  case False
  then have "scan_socket (mem s) fd (clients s) = Inr None" using scan_unknown [OF wf] by blast
  then have "handle_client_event fd events a s = Inr (close_fd fd s)"
    by (simp add: handle_client_event_def epoll_del_def close_fd_def)
  moreover have "srv_wf (close_fd fd s)" using False fd wf by (intro close_fd_wf) auto
  ultimately show thesis by (rule that)
next
  case True
  then obtain p c where pc: "mem s p = Some c" "socket c = fd" by auto
  note eq = handle_client_event_known [OF wf pc(1), unfolded pc(2), of events a]
  obtain s1 where s1: "srv_wf s1"
    "(if EPOLLIN \<in> events then handle_read_event (read_ans a) (read_mod_ok a) p s else Inr s) = Inr s1"
    "mem s1 p = None \<longleftrightarrow> EPOLLIN \<in> events \<and> read_closes (read_ans a) (read_mod_ok a)"
    using read_phase [OF wf pc(1)] .
  show thesis
  proof (cases "mem s1 p")
    case None
    then have "events \<inter> insert EPOLLOUT hangup_flags = {}" using ord s1(3) by (simp add: orderly_def)
    then have "handle_client_event fd events a s = Inr s1" using eq s1(2) by auto
    with s1(1) show thesis using that by blast
  next
    case (Some c1)
    obtain s2 where s2: "srv_wf s2"
      "(if EPOLLOUT \<in> events then handle_write_event (write_ret a) (write_again a) (write_mod_ok a) p s1 else Inr s1) = Inr s2"
      "mem s2 p = None \<longleftrightarrow> EPOLLOUT \<in> events \<and> write_closes c1 (write_ret a) (write_again a) (write_mod_ok a)"
      using write_phase [OF s1(1) Some] .
    show thesis
    proof (cases "events \<inter> hangup_flags = {}")
      case True
      then have "handle_client_event fd events a s = Inr s2" using eq s1(2) s2(2) by (simp only: and_then.simps) simp
      with s2(1) show thesis using that by blast
    next
      case False
      then have "mem s2 p \<noteq> None"
        using ord s2(3) unfolding orderly_def write_closes_def by (auto split: if_splits)
      then obtain c2 where c2: "mem s2 p = Some c2" by blast
      have "handle_client_event fd events a s = close_client (Some p) s2"
        using eq s1(2) s2(2) False by (simp only: and_then.simps) simp
      with close_client_wf [OF s2(1) c2] show thesis using that by metis
    qed
  qed
qed

text \<open>A handler that runs after one that closed the client dereferences the freed block.\<close>

lemma dead_client:
  assumes "mem s p = None"
  shows "handle_write_event ret again mod_ok p s = Inl Use_after_free" "close_client (Some p) s = Inl Use_after_free"
  using assms by (simp_all add: handle_write_event_def close_client_def)

section \<open>Accepting connections\<close>

text \<open>The state just after \<^verbatim>\<open>accept\<close> returned descriptor \<open>fd\<close> and it was made non-blocking.\<close>

definition accepted :: "fd \<Rightarrow> fd set \<Rightarrow> server \<Rightarrow> server" where
  "accepted fd nb s = s\<lparr>opened := insert fd (opened s),
     received := (received s)(fd := []), sent := (sent s)(fd := []), nonblocking := nb\<rparr>"

lemma nonblocking_last:
  "s\<lparr>nonblocking := x, received := y, sent := z\<rparr> = s\<lparr>received := y, sent := z, nonblocking := x\<rparr>" for s :: server
  by simp

definition new_client :: "fd \<Rightarrow> Client" where
  "new_client fd = \<lparr>socket = fd, read_buffer = replicate (nat BUFFER_SIZE) 0, read_size = 0,
     write_buffer = replicate (nat BUFFER_SIZE) 0, write_size = 0, write_offset = 0\<rparr>"

lemma fresh_not_socket:
  assumes "srv_wf s" "fd \<notin> opened s"
  shows "fd \<noteq> server_fd s" "fd \<noteq> epoll_fd s" "mem s p = Some c \<Longrightarrow> socket c \<noteq> fd"
  using assms srv_wfD(4,6,7) [OF assms(1)] by (auto simp: client_ok_def)

lemma accepted_wf:
  assumes wf: "srv_wf s" and fd: "fd \<notin> opened s" and nb: "nonblocking s - {fd} \<subseteq> nb"
  shows "srv_wf (accepted fd nb s)"
proof (rule srv_wfI)
  note D = srv_wfD [OF wf]
  show "client_ok (accepted fd nb s) c" if "mem (accepted fd nb s) p = Some c" for p c
    using D(4) [of p c] fresh_not_socket(3) [OF wf fd, of p c] nb that by (auto simp: accepted_def client_ok_def)
  show "p = q" if "mem (accepted fd nb s) p = Some c" "mem (accepted fd nb s) q = Some d" "socket c = socket d" for p q c d
    using D(5) that by (simp add: accepted_def)
  show "p \<in> dom (mem (accepted fd nb s)) \<longleftrightarrow> Some p \<in> set (clients (accepted fd nb s))" for p
    using D(3) [of p] by (simp add: accepted_def)
qed (use srv_wfD [OF wf] in \<open>auto simp: accepted_def\<close>)

text \<open>A client block in its slot, before and after its descriptor is registered with epoll.\<close>

definition slotted :: "addr \<Rightarrow> fd \<Rightarrow> addr option list \<Rightarrow> server \<Rightarrow> server" where
  "slotted p fd table s = s\<lparr>mem := (mem s)(p \<mapsto> new_client fd), clients := table\<rparr>"

lemma slotted_wf:
  assumes wf: "srv_wf s" and fd: "0 \<le> fd" "fd \<in> opened s" "fd \<in> nonblocking s" "fd \<noteq> server_fd s" "fd \<noteq> epoll_fd s"
    and ns: "\<And>q d. mem s q = Some d \<Longrightarrow> socket d \<noteq> fd"
    and p: "mem s p = None" and al: "array_alloc p (clients s) = Some (slot, table)"
  shows "srv_wf (epoll_set fd fl (slotted p fd table s))" (is "srv_wf ?t")
proof (rule srv_wfI)
  note D = srv_wfD [OF wf] and A = array_alloc_Some [OF al]
  have np: "Some p \<notin> set (clients s)" using D(3) [of p] p by (simp add: domIff)
  have t: "mem ?t = (mem s)(p \<mapsto> new_client fd)" "clients ?t = (clients s)[slot := Some p]"
    "opened ?t = opened s" "server_fd ?t = server_fd s" "epoll_fd ?t = epoll_fd s"
    "nonblocking ?t = nonblocking s" "interest ?t = (interest s)(fd \<mapsto> fl)"
    using A(4) by (simp_all add: epoll_set_def slotted_def)
  show "client_ok ?t c" if "mem ?t q = Some c" for q c
  proof (cases "q = p")
    case True
    with that t fd show ?thesis by (auto simp: client_ok_def new_client_def BUFFER_SIZE_def)
  next
    case False
    with that t D(4) [of q c] show ?thesis by (auto simp: client_ok_def)
  qed
  show "q = r" if "mem ?t q = Some c" "mem ?t r = Some d" "socket c = socket d" for q r c d
    using that t(1) ns [of q c] ns [of r d] D(5) [of q c r d] by (auto simp: new_client_def split: if_splits)
  show "q \<in> dom (mem ?t) \<longleftrightarrow> Some q \<in> set (clients ?t)" for q
    using D(3) [of q] A(1,2) by (auto simp: t mem_update_other domIff)
  show "inj_table (clients ?t)" using inj_table_insert [OF D(2) np A(1)] t by simp
  show "length (clients ?t) = MAX_CLIENTS" "server_fd ?t \<in> opened ?t" "epoll_fd ?t \<in> opened ?t"
    using D(1,6,7) t by auto
qed

text \<open>The state after \<^verbatim>\<open>set_nonblocking\<close> succeeded, and the four outcomes of an accepted connection.\<close>

definition ready :: "fd \<Rightarrow> server \<Rightarrow> server" where
  "ready fd s = accepted fd (insert fd (nonblocking s - {fd})) s"

lemma accept_one_outcomes:
  "accept_one a s =
    (if getfl a = -1 \<or> \<not> setfl_ok a then Inr (close_fd (new_fd a) (accepted (new_fd a) (nonblocking s - {new_fd a}) s))
     else case malloc_at a of
       None \<Rightarrow> Inr (close_fd (new_fd a) (ready (new_fd a) s))
     | Some p \<Rightarrow>
         (case array_alloc p (clients s) of
            None \<Rightarrow> close_client (Some p) (slotted p (new_fd a) (clients s) (ready (new_fd a) s))
          | Some (slot, table) \<Rightarrow>
              if add_ok a then Inr (epoll_set (new_fd a) {EPOLLIN, EPOLLET} (slotted p (new_fd a) table (ready (new_fd a) s)))
              else close_client (Some p) (slotted p (new_fd a) table (ready (new_fd a) s))))"
  by (simp add: accept_one_def set_nonblocking_def create_client_def accepted_def slotted_def new_client_def
      ready_def Let_def nonblocking_last split: option.split)

lemma ready_simps [simp]:
  "clients (ready fd s) = clients s" "mem (ready fd s) = mem s" "opened (ready fd s) = insert fd (opened s)"
  "server_fd (ready fd s) = server_fd s" "epoll_fd (ready fd s) = epoll_fd s" "fd \<in> nonblocking (ready fd s)"
  by (simp_all add: ready_def accepted_def)

lemma close_slotted:
  assumes wf: "srv_wf s" and fd: "0 \<le> fd" "fd \<notin> opened s" and p: "mem s p = None"
    and tab: "inj_table table" "set table \<subseteq> insert (Some p) (set (clients s))"
  shows "close_client (Some p) (slotted p fd table (ready fd s)) =
    Inr (closed_client p (new_client fd) (slotted p fd table (ready fd s)))"
proof (rule close_client_effect)
  show "q = p" if "Some q \<in> set (clients (slotted p fd table (ready fd s)))"
    "mem (slotted p fd table (ready fd s)) q = Some d" "socket d = socket (new_client fd)" for q d
    using that fresh_not_socket(3) [OF wf fd(2), of q d] by (auto simp: slotted_def new_client_def split: if_splits)
  show "q \<in> dom (mem (slotted p fd table (ready fd s)))" if "Some q \<in> set (clients (slotted p fd table (ready fd s)))" for q
    using that tab(2) srv_wfD(3) [OF wf, of q] by (auto simp: slotted_def)
qed (use tab fd in \<open>auto simp: slotted_def new_client_def\<close>)

lemma ready_wf:
  assumes wf: "srv_wf s" and fd: "fd \<notin> opened s"
  shows "srv_wf (ready fd s)"
  unfolding ready_def using assms by (rule accepted_wf) auto

lemma ready_closed_wf:
  assumes wf: "srv_wf s" and fd: "fd \<notin> opened s"
  shows "srv_wf (close_fd fd (ready fd s))"
  using fresh_not_socket [OF assms] by (intro close_fd_wf ready_wf assms) auto

lemma rejected_wf:
  assumes wf: "srv_wf s" and fd: "fd \<notin> opened s" and p: "mem s p = None"
  shows "srv_wf (closed_client p (new_client fd) (slotted p fd (clients s) (ready fd s)))"
proof -
  have "Some p \<notin> set (clients s)" using srv_wfD(3) [OF wf, of p] p by (simp add: domIff)
  then have "closed_client p (new_client fd) (slotted p fd (clients s) (ready fd s)) = close_fd fd (ready fd s)"
    using p by (simp add: closed_client_def slotted_def close_fd_def new_client_def purge_absent fun_upd_idem)
  then show ?thesis using ready_closed_wf [OF wf fd] by simp
qed

lemma registered_wf:
  assumes wf: "srv_wf s" and fd: "0 \<le> fd" "fd \<notin> opened s" and p: "mem s p = None"
    and al: "array_alloc p (clients s) = Some (slot, table)"
  shows "srv_wf (epoll_set fd fl (slotted p fd table (ready fd s)))"
  using al fd p fresh_not_socket [OF wf fd(2)] by (intro slotted_wf ready_wf wf) auto

lemma unregistered:
  assumes wf: "srv_wf s" and fd: "0 \<le> fd" "fd \<notin> opened s" and p: "mem s p = None"
    and al: "array_alloc p (clients s) = Some (slot, table)"
  obtains t where "close_client (Some p) (slotted p fd table (ready fd s)) = Inr t" "srv_wf t"
proof -
  note A = array_alloc_Some [OF al]
  have np: "Some p \<notin> set (clients s)" using srv_wfD(3) [OF wf, of p] p by (simp add: domIff)
  let ?t = "epoll_set fd {} (slotted p fd table (ready fd s))"
  have "mem ?t p = Some (new_client fd)" by (simp add: epoll_set_def slotted_def)
  then have "srv_wf (closed_client p (new_client fd) ?t)"
    using close_client_wf(2) [OF registered_wf [OF wf fd p al]] by blast
  moreover have "closed_client p (new_client fd) ?t = closed_client p (new_client fd) (slotted p fd table (ready fd s))"
    by (simp add: closed_client_def epoll_set_def new_client_def)
  moreover have "close_client (Some p) (slotted p fd table (ready fd s)) =
      Inr (closed_client p (new_client fd) (slotted p fd table (ready fd s)))"
    using inj_table_insert [OF srv_wfD(2) [OF wf] np A(1)] A(4) set_update_subset_insert [of "clients s" slot "Some p"]
    by (intro close_slotted wf fd p) auto
  ultimately show thesis using that by simp
qed

lemma accept_one_wf:
  assumes wf: "srv_wf s" and fresh: "fresh_accept a s"
  obtains s' where "accept_one a s = Inr s'" "srv_wf s'"
proof -
  have fd: "0 \<le> new_fd a" "new_fd a \<notin> opened s" using fresh by (auto simp: fresh_accept_def)
  show thesis
  proof (cases "getfl a = -1 \<or> \<not> setfl_ok a")
    case True
    have "srv_wf (close_fd (new_fd a) (accepted (new_fd a) (nonblocking s - {new_fd a}) s))"
      using fresh_not_socket [OF wf fd(2)] by (intro close_fd_wf accepted_wf wf fd) (auto simp: accepted_def)
    with True show thesis by (intro that) (auto simp: accept_one_outcomes)
  next
    case ok: False
    show thesis
    proof (cases "malloc_at a")
      case None
      with ok ready_closed_wf [OF wf fd(2)] show thesis by (intro that) (auto simp: accept_one_outcomes)
    next
      case (Some p)
      then have p: "mem s p = None" using fresh by (auto simp: fresh_accept_def)
      note W = wf fd p
      show thesis
      proof (cases "array_alloc p (clients s)")
        case None
        with ok Some close_slotted [OF W srv_wfD(2) [OF wf] subset_insertI] rejected_wf [OF wf fd(2) p] show thesis
          by (intro that) (auto simp: accept_one_outcomes)
      next
        case al: (Some st)
        obtain slot table where st: "st = (slot, table)" by (cases st)
        show thesis
        proof (cases "add_ok a")
          case True
          with ok Some al st registered_wf [OF W, of slot table] show thesis
            by (intro that) (auto simp: accept_one_outcomes)
        next
          case False
          obtain t where "close_client (Some p) (slotted p (new_fd a) table (ready (new_fd a) s)) = Inr t" "srv_wf t"
            using unregistered [OF W, of slot table] al st by auto
          with ok Some al st False show thesis by (intro that [of t]) (auto simp: accept_one_outcomes)
        qed
      qed
    qed
  qed
qed

section \<open>The server as a transition system\<close>

definition srv_init :: "server \<Rightarrow> bool" where
  "srv_init s \<longleftrightarrow> (\<exists>a fds. server_setup a fds = Inr s)"

definition srv_step :: "server \<Rightarrow> server \<Rightarrow> bool" where
  "srv_step s s' \<longleftrightarrow> (\<exists>e. event_ok e s \<and> dispatch e s = Inr s')"

lemma srv_init_wf: "srv_init s \<Longrightarrow> srv_wf s \<and> mem s = Map.empty"
  by (auto simp: srv_init_def server_setup_def srv_wf_def set_nonblocking_def epoll_set_def inj_table_def Let_def
      split: if_splits)

lemma accept_loop_wf:
  "srv_wf s \<Longrightarrow> accepts_ok as s \<Longrightarrow> \<exists>s'. accept_loop as s = Inr s' \<and> srv_wf s'"
proof (induction as arbitrary: s)
  case (Cons a as)
  then obtain s1 where "accept_one a s = Inr s1" "srv_wf s1"
    using accept_one_wf [of s a] by auto
  with Cons show ?case by auto
qed simp

lemma dispatch_wf:
  assumes "srv_wf s" "event_ok e s"
  shows "\<exists>s'. dispatch e s = Inr s' \<and> srv_wf s'"
proof (cases e)
  case (Connections as)
  with assms show ?thesis using accept_loop_wf by simp
next
  case (Client_event fd events a)
  with assms show ?thesis using client_event_wf [of s fd events a] by auto
qed

interpretation srv: invariant_system srv_init srv_step srv_wf
  using dispatch_wf by unfold_locales (auto simp: srv_init_wf srv_step_def, metis Inr_inject)

text \<open>
  C6. From a successful start, whatever connections and client events arrive, in any order and with
  any answers of the kernel, an event that does not run a handler after the one that closed its client
  is handled without touching a freed block and within the buffers, and the table, the heap, the
  descriptors and the epoll registrations stay consistent.
\<close>

theorem server_events_safe:
  assumes "srv_init s0" "srv_step\<^sup>*\<^sup>* s0 s" "event_ok e s"
  shows "\<exists>s'. dispatch e s = Inr s' \<and> srv_wf s'"
  using dispatch_wf [OF srv.reachable_inv [OF assms(1,2)] assms(3)] .

definition ex_setup :: setup_answer where
  "ex_setup = \<lparr>socket_ret = 3, setsockopt_ok = True, srv_getfl = 2, srv_setfl_ok = True, bind_ok = True,
     listen_ok = True, epoll_ret = 4, srv_add_ok = True\<rparr>"

definition ex_accept :: accept_answer where
  "ex_accept = \<lparr>new_fd = 5, getfl = 2, setfl_ok = True, malloc_at = Some 100, add_ok = True\<rparr>"

definition ex_start :: server where
  "ex_start = (case server_setup ex_setup {0, 1, 2} of Inr s \<Rightarrow> s)"

lemma ex_setup_ok: "server_setup ex_setup {0, 1, 2} = Inr ex_start"
  by (simp add: ex_start_def server_setup_def ex_setup_def set_nonblocking_def Let_def)

lemma ex_start: "srv_init ex_start" "mem ex_start = Map.empty" "opened ex_start = {0, 1, 2, 3, 4}"
  "clients ex_start = replicate MAX_CLIENTS None"
  by (use ex_setup_ok srv_init_def in blast)
    (auto simp: ex_start_def server_setup_def ex_setup_def set_nonblocking_def epoll_set_def)

lemma ex_event_ok: "event_ok (Connections [ex_accept]) ex_start"
  by (auto simp: ex_start fresh_accept_def ex_accept_def split: sum.split)

theorem server_events_safe_witness:
  "\<exists>s'. dispatch (Connections [ex_accept]) ex_start = Inr s' \<and> srv_wf s'"
  using server_events_safe [OF ex_start(1) rtranclp.rtrancl_refl ex_event_ok] .

text \<open>
  C7. When the read handler closes the client (end of file, a read error, or a failed
  \<^verbatim>\<open>epoll_ctl\<close>) and the same event also carries \<^verbatim>\<open>EPOLLOUT\<close> or a hang-up flag, the server goes on
  with the freed client: the handler of the other flag dereferences it.
\<close>

theorem server_uses_freed_client:
  assumes "srv_wf s" "mem s p = Some c" "EPOLLIN \<in> events" "read_closes (read_ans a) (read_mod_ok a)"
    "events \<inter> insert EPOLLOUT hangup_flags \<noteq> {}"
  shows "dispatch (Client_event (socket c) events a) s = Inl Use_after_free"
proof -
  obtain s1 where s1: "srv_wf s1"
    "(if EPOLLIN \<in> events then handle_read_event (read_ans a) (read_mod_ok a) p s else Inr s) = Inr s1"
    "mem s1 p = None"
    using read_phase [OF assms(1,2), of events a] assms(3,4) by blast
  have hup: "events \<inter> hangup_flags \<noteq> {}" if "EPOLLOUT \<notin> events" using assms(5) that by blast
  show ?thesis
    unfolding dispatch.simps handle_client_event_known [OF assms(1,2)] s1(2) and_then.simps
    using hup by (cases "EPOLLOUT \<in> events") (auto simp: dead_client [OF s1(3)])
qed

lemma ex_client:
  obtains s c where "accept_one ex_accept ex_start = Inr s" "srv_wf s" "mem s 100 = Some c" "socket c = 5"
    "c = new_client 5" "received s 5 = []" "sent s 5 = []"
proof -
  have "0 < MAX_CLIENTS" by (simp add: MAX_CLIENTS_def)
  then have "first_index (\<lambda>e. e = None) (clients ex_start) = Some 0"
    by (simp add: first_index_Some ex_start)
  then have al: "array_alloc p (clients ex_start) = Some (0, (clients ex_start)[0 := Some p])" for p
    by (simp add: array_alloc_def)
  obtain s where s: "accept_one ex_accept ex_start = Inr s" "srv_wf s"
    using accept_one_wf [of ex_start ex_accept] srv_init_wf [OF ex_start(1)] ex_event_ok by auto
  have "s = epoll_set 5 {EPOLLIN, EPOLLET} (slotted 100 5 ((clients ex_start)[0 := Some 100]) (ready 5 ex_start))"
    using s(1) by (simp add: accept_one_outcomes al) (simp add: ex_accept_def al)
  with s that show thesis
    by (simp add: epoll_set_def slotted_def ready_def accepted_def new_client_def)
qed

definition ex_hangup :: client_answer where
  "ex_hangup = \<lparr>read_ans = Read_error, read_mod_ok = True, write_ret = 0, write_again = False, write_mod_ok = True\<rparr>"

theorem server_uses_freed_client_witness:
  "\<exists>s. dispatch (Connections [ex_accept]) ex_start = Inr s \<and>
     dispatch (Client_event 5 {EPOLLIN, EPOLLHUP, EPOLLERR} ex_hangup) s = Inl Use_after_free"
proof -
  obtain s c where s: "accept_one ex_accept ex_start = Inr s" "srv_wf s" "mem s 100 = Some c" "socket c = 5"
    using ex_client by metis
  have "dispatch (Client_event (socket c) {EPOLLIN, EPOLLHUP, EPOLLERR} ex_hangup) s = Inl Use_after_free"
    by (rule server_uses_freed_client [OF s(2,3)]) (auto simp: ex_hangup_def)
  with s show ?thesis by auto
qed

section \<open>Echo\<close>

text \<open>On every connection, the bytes sent followed by those still pending are the bytes received.\<close>

definition echo_ok :: "server \<Rightarrow> bool" where
  "echo_ok s \<longleftrightarrow> (\<forall>p c. mem s p = Some c \<longrightarrow> sent s (socket c) @ pending c = received s (socket c))"

lemma close_client_frame:
  assumes "close_client x s = Inr t"
  shows "mem t \<subseteq>\<^sub>m mem s" "sent t = sent s" "received t = received s"
  using assms
  by (auto simp: close_client_def free_client_def close_fd_def epoll_del_def map_le_def and_then_Inr Let_def
      split: option.splits if_splits)

lemma close_client_echo: "close_client x s = Inr t \<Longrightarrow> echo_ok s \<Longrightarrow> echo_ok t"
  using close_client_frame [of x s t] unfolding echo_ok_def by (metis domI map_le_def)

lemma epoll_set_echo [simp]: "echo_ok (epoll_set fd fl s) = echo_ok s"
  by (simp add: echo_ok_def epoll_set_def)

lemma echo_update:
  assumes "srv_wf s" "echo_ok s" "mem s p = Some c" "mem t = (mem s)(p \<mapsto> c')" "socket c' = socket c"
    "sent t (socket c) @ pending c' = received t (socket c)"
    "\<And>fd. fd \<noteq> socket c \<Longrightarrow> sent t fd = sent s fd \<and> received t fd = received s fd"
  shows "echo_ok t"
proof -
  have "sent t (socket d) @ pending d = received t (socket d)" if "mem s q = Some d" "q \<noteq> p" for q d
  proof -
    have "socket d \<noteq> socket c" using srv_wfD(5) [OF assms(1) that(1) assms(3)] that(2) by blast
    with assms(2,7) that(1) show ?thesis by (simp add: echo_ok_def)
  qed
  with assms(4-6) show ?thesis by (simp add: echo_ok_def)
qed

lemma pending_read: "bytes \<noteq> [] \<Longrightarrow> pending (read_client bytes c) = bytes"
  by (simp add: pending_def read_client_def)

lemma pending_written:
  assumes "client_ok s c" "0 < n" "n \<le> write_size c - write_offset c"
  shows "take (nat n) (pending c) @ pending (written_client n c) = pending c"
proof -
  have "nat (write_offset c + n) = nat (write_offset c) + nat n"
    "nat (write_size c - (write_offset c + n)) = nat (write_size c - write_offset c) - nat n"
    using assms by (auto simp: client_ok_def nat_add_distrib nat_diff_distrib)
  then have "write_offset c + n < write_size c \<Longrightarrow> pending (written_client n c) = drop (nat n) (pending c)"
    by (simp add: pending_def written_client_def drop_take add.commute)
  moreover have "pending (written_client n c) = [] \<and> nat n = nat (write_size c - write_offset c)"
    if "\<not> write_offset c + n < write_size c"
    using that assms(3) by (simp add: pending_def written_client_def)
  moreover have "length (pending c) \<le> nat (write_size c - write_offset c)" by (simp add: pending_def)
  ultimately show ?thesis
    by (cases "write_offset c + n < write_size c") simp_all
qed

lemma read_event_echo:
  assumes wf: "srv_wf s" and c: "mem s p = Some c" and "echo_ok s" "pending c = []"
    and h: "handle_read_event ans mod_ok p s = Inr t"
  shows "echo_ok t"
proof (cases "ans = Read_error \<or> ans = Read_avail []")
  case True
  then have "close_client (Some p) s = Inr t"
    using h c srv_wfD(4) [OF wf c]
    by (auto simp: handle_read_event_def client_ok_def BUFFER_SIZE_def split: read_answer.splits)
  then show ?thesis using assms(3) close_client_echo by blast
next
  case False
  then obtain avail where ans: "ans = Read_avail avail" "avail \<noteq> []" by (cases ans) auto
  let ?b = "take (nat BUFFER_SIZE) avail"
  have b: "?b \<noteq> []" using ans by (simp add: BUFFER_SIZE_def)
  have "sent s (socket c) @ pending c = received s (socket c)" using assms(3) c by (simp add: echo_ok_def)
  then have "echo_ok (read_state ?b p c s)"
    using assms(4) c pending_read [OF b, of c]
    by (intro echo_update [OF wf assms(3) c, of _ "read_client ?b c"])
      (auto simp: read_state_def read_client_def)
  then show ?thesis
    using h ans handle_read_event_data [OF c srv_wfD(4) [OF wf c] ans(2), of mod_ok] close_client_echo
    by (auto simp: Let_def split: if_splits)
qed

lemma write_event_echo:
  assumes wf: "srv_wf s" and c: "mem s p = Some c" and "echo_ok s"
    and h: "handle_write_event ret again mod_ok p s = Inr t"
  shows "echo_ok t"
proof (cases "write_offset c < write_size c \<and> 0 < ret")
  case False
  then have "t = s \<or> close_client (Some p) s = Inr t"
    using h c srv_wfD(4) [OF wf c]
    by (auto simp: handle_write_event_def client_ok_def Let_def split: if_splits)
  then show ?thesis using assms(3) close_client_echo by blast
next
  case True
  define n where "n = min ret (write_size c - write_offset c)"
  have n: "0 < n" "n \<le> write_size c - write_offset c" using True by (auto simp: n_def)
  have "echo_ok (write_state n p c s)"
    using assms(3) c pending_written [OF srv_wfD(4) [OF wf c] n]
    by (intro echo_update [OF wf assms(3) c, of _ "written_client n c"])
      (auto simp: write_state_def written_client_def echo_ok_def)
  then show ?thesis
    using h handle_write_event_data [OF c srv_wfD(4) [OF wf c], of ret again mod_ok, folded n_def] True close_client_echo
    by (auto simp: Let_def split: if_splits)
qed

lemma client_event_echo:
  assumes wf: "srv_wf s" and e: "echo_ok s" and h: "handle_client_event fd events a s = Inr t"
    and idle: "EPOLLIN \<in> events \<Longrightarrow> \<forall>p c. mem s p = Some c \<longrightarrow> socket c = fd \<longrightarrow> pending c = []"
  shows "echo_ok t"
proof (cases "\<exists>p c. mem s p = Some c \<and> socket c = fd")
  case False
  then have "scan_socket (mem s) fd (clients s) = Inr None" using scan_unknown [OF wf] by blast
  then have "t = close_fd fd s"
    using h by (simp add: handle_client_event_def epoll_del_def close_fd_def)
  with e show ?thesis by (simp add: echo_ok_def close_fd_def)
next
  case True
  then obtain p c where pc: "mem s p = Some c" "socket c = fd" by auto
  obtain s1 where s1: "srv_wf s1"
    "(if EPOLLIN \<in> events then handle_read_event (read_ans a) (read_mod_ok a) p s else Inr s) = Inr s1"
    using read_phase [OF wf pc(1)] by metis
  have e1: "echo_ok s1"
    using s1(2) e read_event_echo [OF wf pc(1) e] idle pc by (auto split: if_splits)
  obtain s2 where
    s2: "(if EPOLLOUT \<in> events then handle_write_event (write_ret a) (write_again a) (write_mod_ok a) p s1 else Inr s1) = Inr s2"
    and t: "(if events \<inter> hangup_flags \<noteq> {} then close_client (Some p) s2 else Inr s2) = Inr t"
    using h unfolding pc(2) [symmetric] handle_client_event_known [OF wf pc(1)] s1(2) and_then.simps and_then_Inr
    by metis
  have "echo_ok s2"
  proof (cases "EPOLLOUT \<in> events")
    case True
    then have w: "handle_write_event (write_ret a) (write_again a) (write_mod_ok a) p s1 = Inr s2" using s2 by simp
    then obtain c1 where "mem s1 p = Some c1" using dead_client(1) [of s1 p] by (cases "mem s1 p") auto
    then show ?thesis using write_event_echo [OF s1(1) _ e1 w] by blast
  qed (use s2 e1 in simp)
  with t show ?thesis using close_client_echo by (auto split: if_splits)
qed

lemma echo_ready:
  assumes "srv_wf s" "echo_ok s" "fd \<notin> opened s"
  shows "echo_ok (accepted fd nb s)" "echo_ok (slotted p fd table (accepted fd nb s))"
  using assms(2) fresh_not_socket(3) [OF assms(1,3)]
  by (auto simp: echo_ok_def accepted_def slotted_def new_client_def pending_def)

lemma close_fd_echo [simp]: "echo_ok (close_fd fd s) = echo_ok s"
  by (simp add: echo_ok_def close_fd_def)

lemma accept_one_echo:
  assumes "srv_wf s" "echo_ok s" "fresh_accept a s" "accept_one a s = Inr t"
  shows "echo_ok t"
proof -
  have "new_fd a \<notin> opened s" using assms(3) by (simp add: fresh_accept_def)
  note E = echo_ready [OF assms(1,2) this]
  show ?thesis
    using assms(4) E close_client_echo unfolding accept_one_outcomes ready_def
    by (auto split: if_splits option.splits)
qed

lemma accept_loop_echo:
  "srv_wf s \<Longrightarrow> echo_ok s \<Longrightarrow> accepts_ok as s \<Longrightarrow> accept_loop as s = Inr t \<Longrightarrow> echo_ok t"
proof (induction as arbitrary: s)
  case (Cons a as)
  then obtain s1 where s1: "accept_one a s = Inr s1" "srv_wf s1"
    using accept_one_wf [of s a] by auto
  then have "echo_ok s1" using Cons.prems accept_one_echo [of s a s1] by simp
  with Cons.IH [of s1] Cons.prems(3,4) s1 show ?case by simp
qed simp

text \<open>A client event reads a new request only when the previous one has been echoed completely.\<close>

fun in_turn :: "server_event \<Rightarrow> server \<Rightarrow> bool" where
  "in_turn (Connections as) s \<longleftrightarrow> True"
| "in_turn (Client_event fd events a) s \<longleftrightarrow>
     (EPOLLIN \<in> events \<longrightarrow> (\<forall>p c. mem s p = Some c \<longrightarrow> socket c = fd \<longrightarrow> pending c = []))"

text \<open>
  C8. The server echoes: as long as each client waits for its reply before it sends again, on every
  connection the bytes written so far followed by the bytes still pending are exactly the bytes
  read from it, whatever the sizes of the partial reads and writes.
\<close>

theorem server_echoes:
  assumes "srv_wf s" "echo_ok s" "event_ok e s" "in_turn e s" "dispatch e s = Inr s'"
  shows "srv_wf s' \<and> echo_ok s'"
proof
  show "srv_wf s'" using dispatch_wf [OF assms(1,3)] assms(5) by auto
  show "echo_ok s'"
  proof (cases e)
    case (Connections as)
    with assms show ?thesis using accept_loop_echo [of s as s'] by simp
  next
    case (Client_event fd events a)
    with assms client_event_echo [of s fd events a s'] show ?thesis by simp
  qed
qed

definition ex_request :: "byte list \<Rightarrow> client_answer" where
  "ex_request bytes = \<lparr>read_ans = Read_avail bytes, read_mod_ok = True, write_ret = 0, write_again = True, write_mod_ok = True\<rparr>"

lemma ex_request_event:
  "event_ok (Client_event 5 {EPOLLIN} (ex_request bytes)) s \<longleftrightarrow> server_fd s \<noteq> 5 \<and> epoll_fd s \<noteq> 5"
  by (auto simp: orderly_def ex_request_def)

theorem server_echoes_witness:
  "\<exists>s s'. dispatch (Connections [ex_accept]) ex_start = Inr s \<and>
     dispatch (Client_event 5 {EPOLLIN} (ex_request [104, 105])) s = Inr s' \<and> srv_wf s' \<and> echo_ok s'"
proof -
  obtain s c where s: "accept_one ex_accept ex_start = Inr s" "srv_wf s" "mem s 100 = Some c" "socket c = 5"
    "c = new_client 5" "received s 5 = []" "sent s 5 = []" using ex_client by metis
  have e: "echo_ok s"
    using accept_one_echo [OF _ _ _ s(1)] srv_init_wf [OF ex_start(1)] ex_event_ok
    by (simp add: echo_ok_def ex_start)
  have "server_fd s \<noteq> 5" "epoll_fd s \<noteq> 5" using srv_wfD(4) [OF s(2,3)] s(4) by (auto simp: client_ok_def)
  then have ok: "event_ok (Client_event 5 {EPOLLIN} (ex_request [104, 105])) s"
    by (simp only: ex_request_event) simp
  have turn: "in_turn (Client_event 5 {EPOLLIN} (ex_request [104, 105])) s"
    using srv_wfD(5) [OF s(2) s(3)] s(3-5) by (auto simp: pending_def new_client_def)
  obtain s' where d: "dispatch (Client_event 5 {EPOLLIN} (ex_request [104, 105])) s = Inr s'"
    using dispatch_wf [OF s(2) ok] by blast
  from server_echoes [OF s(2) e ok turn d] s(1) d show ?thesis by auto
qed

text \<open>
  A client that sends again before its reply was written loses the rest of the reply: the read
  handler overwrites the write buffer, so the bytes that were pending are never sent, although more
  was received than was sent and is pending.
\<close>

lemma server_drops_pending_reply:
  assumes "srv_wf s" "echo_ok s" "mem s p = Some c" "pending c \<noteq> []" "bytes \<noteq> []"
  shows "\<exists>s' c'. dispatch (Client_event (socket c) {EPOLLIN} (ex_request bytes)) s = Inr s' \<and>
    mem s' p = Some c' \<and> sent s' (socket c) = sent s (socket c) \<and>
    received s' (socket c) = sent s' (socket c) @ pending c @ pending c'"
proof -
  let ?b = "take (nat BUFFER_SIZE) bytes"
  let ?s = "epoll_set (socket c) {EPOLLIN, EPOLLOUT, EPOLLET} (read_state ?b p c s)"
  have b: "?b \<noteq> []" using assms(5) by (simp add: BUFFER_SIZE_def)
  have h: "handle_read_event (Read_avail bytes) True p s = Inr ?s"
    using handle_read_event_data [OF assms(3) srv_wfD(4) [OF assms(1,3)] assms(5), of True] by (simp add: Let_def)
  have "dispatch (Client_event (socket c) {EPOLLIN} (ex_request bytes)) s = Inr ?s"
    unfolding dispatch.simps handle_client_event_known [OF assms(1,3)] by (simp add: ex_request_def h)
  moreover have "sent s (socket c) @ pending c = received s (socket c)"
    using assms(2,3) by (simp add: echo_ok_def)
  ultimately show ?thesis
    using pending_read [OF b, of c]
    by (intro exI [of _ ?s] exI [of _ "read_client ?b c"]) (auto simp: epoll_set_def read_state_def)
qed

section \<open>Shutdown\<close>

definition sockets :: "server \<Rightarrow> fd set" where
  "sockets s = {socket c |p c. mem s p = Some c}"

lemma closed_client_sockets:
  assumes "srv_wf s" "mem s p = Some c"
  shows "sockets (closed_client p c s) = sockets s - {socket c}"
proof -
  have other: "q = p \<longleftrightarrow> socket d = socket c" if "mem s q = Some d" for q d
    using srv_wfD(5) [OF assms(1) that assms(2)] assms(2) that by fastforce
  have "sockets (closed_client p c s) = {socket d |q d. mem s q = Some d \<and> q \<noteq> p}"
    by (auto simp: sockets_def closed_client_def)
  also have "\<dots> = sockets s - {socket c}"
    unfolding sockets_def set_eq_iff Diff_iff mem_Collect_eq singleton_iff using other by metis
  finally show ?thesis .
qed

lemma close_all_effect:
  "srv_wf s \<Longrightarrow> \<forall>i \<in> set is. i < MAX_CLIENTS \<Longrightarrow>
    \<exists>t. close_all is s = Inr t \<and> srv_wf t \<and> server_fd t = server_fd s \<and> epoll_fd t = epoll_fd s \<and>
      sockets t \<subseteq> sockets s \<and> opened t = opened s - (sockets s - sockets t) \<and>
      (\<forall>i < MAX_CLIENTS. clients s ! i = None \<or> i \<in> set is \<longrightarrow> clients t ! i = None)"
proof (induction "is" arbitrary: s)
  case Nil
  then show ?case by auto
next
  case (Cons i "is")
  show ?case
  proof (cases "clients s ! i")
    case None
    from Cons.IH [OF Cons.prems(1)] Cons.prems(2) obtain t where "close_all is s = Inr t" "srv_wf t"
      "server_fd t = server_fd s" "epoll_fd t = epoll_fd s" "sockets t \<subseteq> sockets s"
      "opened t = opened s - (sockets s - sockets t)"
      "\<forall>i < MAX_CLIENTS. clients s ! i = None \<or> i \<in> set is \<longrightarrow> clients t ! i = None" by auto
    with None show ?thesis by (intro exI [of _ t]) auto
  next
    case (Some p)
    have len: "length (clients s) = MAX_CLIENTS" using srv_wfD(1) [OF Cons.prems(1)] .
    then have "Some p \<in> set (clients s)" using Some Cons.prems(2) by (auto simp: in_set_conv_nth)
    then obtain c where c: "mem s p = Some c" using srv_wfD(3) [OF Cons.prems(1), of p] by auto
    let ?s = "closed_client p c s"
    note W = close_client_wf [OF Cons.prems(1) c] and S = closed_client_sockets [OF Cons.prems(1) c]
    have "socket c \<in> sockets s" using c by (auto simp: sockets_def)
    moreover have "opened ?s = opened s - {socket c}" "server_fd ?s = server_fd s" "epoll_fd ?s = epoll_fd s"
      by (simp_all add: closed_client_def)
    moreover have "clients ?s ! j = (if clients s ! j = Some p then None else clients s ! j)" if "j < MAX_CLIENTS" for j
      using that len by (simp add: closed_client_def nth_purge)
    moreover obtain t where "close_all is ?s = Inr t" "srv_wf t" "server_fd t = server_fd ?s" "epoll_fd t = epoll_fd ?s"
      "sockets t \<subseteq> sockets ?s" "opened t = opened ?s - (sockets ?s - sockets t)"
      "\<forall>i < MAX_CLIENTS. clients ?s ! i = None \<or> i \<in> set is \<longrightarrow> clients t ! i = None"
      using Cons.IH [OF W(2)] Cons.prems(2) by auto
    ultimately show ?thesis
      using W(1) Some S by (intro exI [of _ t]) auto
  qed
qed

text \<open>
  C9. Shutdown releases everything: from any consistent state the cleanup frees every client block,
  empties the table, and closes every client socket, the listening socket and the epoll
  descriptor, and no other descriptor.
\<close>

theorem server_cleanup_releases_all:
  assumes "srv_wf s"
  shows "\<exists>t. server_cleanup s = Inr t \<and> mem t = Map.empty \<and> (\<forall>e \<in> set (clients t). e = None) \<and>
    opened t = opened s - sockets s - {server_fd s, epoll_fd s}"
proof -
  have "\<forall>i \<in> set [0..<MAX_CLIENTS]. i < MAX_CLIENTS" by simp
  from close_all_effect [OF assms this] obtain u where u: "close_all [0..<MAX_CLIENTS] s = Inr u" "srv_wf u"
    "server_fd u = server_fd s" "epoll_fd u = epoll_fd s" "opened u = opened s - (sockets s - sockets u)"
    "\<And>i. i < MAX_CLIENTS \<Longrightarrow> clients u ! i = None" by auto
  have none: "\<forall>e \<in> set (clients u). e = None"
    using u(6) srv_wfD(1) [OF u(2)] by (simp add: all_set_conv_all_nth)
  then have "mem u p = None" for p using srv_wfD(3) [OF u(2), of p] by (auto simp: domIff)
  then have m: "mem u = Map.empty" by (simp add: fun_eq_iff)
  then have "sockets u = {}" by (simp add: sockets_def)
  with u none m show ?thesis
    by (auto simp: server_cleanup_def close_fd_def)
qed

theorem server_cleanup_releases_all_witness:
  "\<exists>s t. dispatch (Connections [ex_accept]) ex_start = Inr s \<and> server_cleanup s = Inr t \<and> mem t = Map.empty"
proof -
  obtain s where s: "accept_one ex_accept ex_start = Inr s" "srv_wf s" using ex_client by metis
  from server_cleanup_releases_all [OF s(2)] s(1) show ?thesis by auto
qed

end
