(* ===== verification/Timers.thy ===== *)
theory Timers
  imports Slots Transition
begin

text \<open>
  The callback timers of \<^verbatim>\<open>lesson_12/code_examples/01_timer_callback/01_timer_callback.c\<close>: a table of
  \<open>MAX_TIMERS\<close> slots over POSIX timers. Each timer sends a signal whose value is the index of its slot;
  the handler starts a detached thread that runs the callback of the slot. The kernel's timers are
  part of the state (\<open>armed\<close>), the answers of \<^verbatim>\<open>sigaction\<close>, \<^verbatim>\<open>timer_create\<close>, \<^verbatim>\<open>timer_settime\<close> and
  \<^verbatim>\<open>malloc\<close> are arguments. The sections guarded by the mutexes are atomic steps.
\<close>

section \<open>Data\<close>

definition MAX_TIMERS :: nat where "MAX_TIMERS = 10"

record timespec =
  tv_sec :: int
  tv_nsec :: int

datatype callback_fn = Timer1_callback | Timer2_callback | Timer3_callback

record callback_timer =
  timerid :: int
  callback :: "callback_fn option"
  user_data :: addr
  sival_int :: int
  it_value :: timespec
  it_interval :: timespec
  active :: bool
  thread_running :: bool

text \<open>A kernel timer: the value its signal carries, and its setting.\<close>

record ktimer =
  k_sival :: int
  k_value :: timespec
  k_interval :: timespec

text \<open>A callback thread: about to run the callback of a slot, or about to mark itself done.\<close>

datatype timer_thread = Starting nat | Finishing nat

record tsys =
  timers :: "callback_timer list"
  armed :: "int \<rightharpoonup> ktimer"
  initialized :: bool
  threads :: "timer_thread list"
  called :: "(callback_fn \<times> addr) list"
  ids :: "addr \<Rightarrow> int"
  count1 :: int

section \<open>The timer table\<close>

definition timer_lookup :: "callback_timer list \<Rightarrow> nat \<Rightarrow> (callback_fn option \<times> addr) option" where
  "timer_lookup ts i = (if i < length ts \<and> active (ts ! i) then Some (callback (ts ! i), user_data (ts ! i)) else None)"

definition timer_alloc :: "callback_fn option \<times> addr \<Rightarrow> callback_timer list \<Rightarrow> (nat \<times> callback_timer list) option" where
  "timer_alloc x ts =
     (case first_index (\<lambda>t. \<not> active t) ts of
        None \<Rightarrow> None
      | Some i \<Rightarrow> Some (i, ts[i := (ts ! i)\<lparr>active := True, callback := fst x, user_data := snd x\<rparr>]))"

definition timer_release :: "nat \<Rightarrow> callback_timer list \<Rightarrow> callback_timer list" where
  "timer_release i ts = ts[i := (ts ! i)\<lparr>active := False\<rparr>]"

lemma timer_alloc_Some:
  assumes "timer_alloc x ts = Some (i, us)"
  shows "i < length ts" "\<not> active (ts ! i)" "\<And>j. j < i \<Longrightarrow> active (ts ! j)"
    "us = ts[i := (ts ! i)\<lparr>active := True, callback := fst x, user_data := snd x\<rparr>]"
  using assms by (auto simp: timer_alloc_def dest: first_index_SomeD split: option.splits)

lemma timer_alloc_None: "timer_alloc x ts = None \<longleftrightarrow> (\<forall>i < length ts. timer_lookup ts i \<noteq> None)"
proof -
  have "timer_alloc x ts = None \<longleftrightarrow> first_index (\<lambda>t. \<not> active t) ts = None"
    by (simp add: timer_alloc_def split: option.split)
  then show ?thesis by (auto simp: first_index_None all_set_conv_all_nth timer_lookup_def)
qed

interpretation tt: slot_table timer_lookup timer_alloc timer_release "\<lambda>ts. length ts = MAX_TIMERS" MAX_TIMERS
proof
  fix t t' :: "callback_timer list" and x :: "callback_fn option \<times> addr" and i
  assume inv: "length t = MAX_TIMERS"
  show "timer_alloc x t = None \<longleftrightarrow> (\<forall>i < MAX_TIMERS. timer_lookup t i \<noteq> None)"
    using inv by (simp add: timer_alloc_None)
  show "i < MAX_TIMERS" if "timer_lookup t i = Some x"
    using inv that by (simp add: timer_lookup_def split: if_splits)
  show "timer_lookup (timer_release i t) = (timer_lookup t)(i := None)" "length (timer_release i t) = MAX_TIMERS"
    if "i < MAX_TIMERS"
    using inv that by (auto simp: timer_lookup_def timer_release_def fun_eq_iff nth_list_update)
  assume a: "timer_alloc x t = Some (i, t')"
  note A = timer_alloc_Some [OF a]
  show "i < MAX_TIMERS \<and> timer_lookup t i = None \<and> (\<forall>j < i. timer_lookup t j \<noteq> None)"
    using A(1-3) inv by (simp add: timer_lookup_def)
  show "timer_lookup t' = (timer_lookup t)(i \<mapsto> x)"
    using A(1) unfolding A(4) by (auto simp: timer_lookup_def fun_eq_iff nth_list_update)
  show "length t' = MAX_TIMERS" using A(4) inv by simp
qed

section \<open>Operations\<close>

definition timer_system_init :: "tsys \<Rightarrow> tsys" where
  "timer_system_init s = s\<lparr>timers := map (\<lambda>t. t\<lparr>active := False, thread_running := False\<rparr>) (timers s)\<rparr>"

fun cleanup_loop :: "nat list \<Rightarrow> tsys \<Rightarrow> tsys" where
  "cleanup_loop [] s = s"
| "cleanup_loop (i # is) s =
     cleanup_loop is
       (if active (timers s ! i) then
          s\<lparr>armed := (armed s)(timerid (timers s ! i) := None), timers := timer_release i (timers s)\<rparr>
        else s)"

definition timer_system_cleanup :: "tsys \<Rightarrow> tsys" where
  "timer_system_cleanup s = cleanup_loop [0..<MAX_TIMERS] s"

text \<open>\<^verbatim>\<open>unsigned long\<close> milliseconds to a \<^verbatim>\<open>struct timespec\<close>.\<close>

definition ms_to_timespec :: "u64 \<Rightarrow> timespec" where
  "ms_to_timespec ms = \<lparr>tv_sec = uint (ms div 1000), tv_nsec = uint ((ms mod 1000) * 1000000)\<rparr>"

record create_answer =
  sigaction_ok :: bool
  timer_create_ret :: "int option"
  settime_ok :: bool

definition timer_create_with_callback ::
  "create_answer \<Rightarrow> callback_fn \<Rightarrow> addr \<Rightarrow> u64 \<Rightarrow> u64 \<Rightarrow> tsys \<Rightarrow> int \<times> tsys" where
  "timer_create_with_callback a cb data initial_ms interval_ms s =
     (if \<not> initialized s \<and> \<not> sigaction_ok a then (-1, s)
      else
        (let s1 = (if initialized s then s else (timer_system_init s)\<lparr>initialized := True\<rparr>)
         in case timer_alloc (Some cb, data) (timers s1) of
              None \<Rightarrow> (-1, s1)
            | Some (i, ts) \<Rightarrow>
                (let t = (ts ! i)\<lparr>sival_int := int i\<rparr>
                 in case timer_create_ret a of
                      None \<Rightarrow> (-1, s1\<lparr>timers := ts[i := t\<lparr>active := False\<rparr>]\<rparr>)
                    | Some tid \<Rightarrow>
                        (let t2 = t\<lparr>timerid := tid, it_value := ms_to_timespec initial_ms,
                                    it_interval := ms_to_timespec interval_ms\<rparr>
                         in if \<not> settime_ok a then (-1, s1\<lparr>timers := ts[i := t2\<lparr>active := False\<rparr>]\<rparr>)
                            else (int i, s1\<lparr>timers := ts[i := t2],
                                    armed := (armed s1)(tid \<mapsto> \<lparr>k_sival = sival_int t2, k_value = it_value t2,
                                                               k_interval = it_interval t2\<rparr>)\<rparr>)))))"

definition zero_ts :: timespec where "zero_ts = \<lparr>tv_sec = 0, tv_nsec = 0\<rparr>"

definition timer_delete_with_callback :: "int \<Rightarrow> tsys \<Rightarrow> int \<times> tsys" where
  "timer_delete_with_callback timer_id s =
     (if timer_id < 0 \<or> timer_id \<ge> int MAX_TIMERS then (-1, s)
      else
        (let i = nat timer_id; t = timers s ! i
         in if \<not> active t then (-1, s)
            else (0, s\<lparr>timers := (timers s)[i := t\<lparr>it_value := zero_ts, it_interval := zero_ts, active := False\<rparr>],
                       armed := (armed s)(timerid t := None)\<rparr>)))"

text \<open>
  The scan of the signal handler: the last value of \<^verbatim>\<open>timer_idx\<close> and the table. It stops at the slot
  whose thread flag it sets.
\<close>

fun handler_scan :: "int \<Rightarrow> nat list \<Rightarrow> int \<Rightarrow> callback_timer list \<Rightarrow> int \<times> callback_timer list" where
  "handler_scan sival [] timer_idx ts = (timer_idx, ts)"
| "handler_scan sival (i # is) timer_idx ts =
     (if active (ts ! i) \<and> sival = int i then
        (if \<not> thread_running (ts ! i) then (int i, ts[i := (ts ! i)\<lparr>thread_running := True\<rparr>])
         else handler_scan sival is (int i) ts)
      else handler_scan sival is timer_idx ts)"

definition timer_handler :: "bool \<Rightarrow> int \<Rightarrow> tsys \<Rightarrow> tsys" where
  "timer_handler malloc_ok sival s =
     (let (timer_idx, ts) = handler_scan sival [0..<MAX_TIMERS] (-1) (timers s);
          s1 = s\<lparr>timers := ts\<rparr>
      in if timer_idx \<ge> 0 \<and> malloc_ok then s1\<lparr>threads := threads s1 @ [Starting (nat timer_idx)]\<rparr> else s1)"

text \<open>\<^verbatim>\<open>timer1_callback\<close> stops its timer from the fifth call on; the others only print.\<close>

definition timer1_callback :: "addr \<Rightarrow> tsys \<Rightarrow> tsys" where
  "timer1_callback data s =
     (let s1 = s\<lparr>count1 := count1 s + 1\<rparr>; timer_id = ids s1 data
      in if count1 s1 \<ge> 5 then snd (timer_delete_with_callback timer_id s1) else s1)"

fun run_callback :: "callback_fn \<Rightarrow> addr \<Rightarrow> tsys \<Rightarrow> tsys" where
  "run_callback Timer1_callback data s = timer1_callback data s"
| "run_callback Timer2_callback data s = s"
| "run_callback Timer3_callback data s = s"

text \<open>The two atomic parts of \<^verbatim>\<open>timer_thread\<close>.\<close>

definition thread_call :: "nat \<Rightarrow> tsys \<Rightarrow> tsys" where
  "thread_call i s =
     (let timer = timers s ! i
      in case callback timer of
           None \<Rightarrow> s
         | Some cb \<Rightarrow> run_callback cb (user_data timer) (s\<lparr>called := called s @ [(cb, user_data timer)]\<rparr>))"

definition thread_end :: "nat \<Rightarrow> tsys \<Rightarrow> tsys" where
  "thread_end i s = s\<lparr>timers := (timers s)[i := (timers s ! i)\<lparr>thread_running := False\<rparr>]\<rparr>"

section \<open>The system\<close>

inductive timer_step :: "tsys \<Rightarrow> tsys \<Rightarrow> bool" where
  create: "(\<And>tid. timer_create_ret a = Some tid \<Longrightarrow> armed s tid = None) \<Longrightarrow>
     timer_step s (snd (timer_create_with_callback a cb data initial_ms interval_ms s))"
| delete: "timer_step s (snd (timer_delete_with_callback timer_id s))"
| expire: "armed s tid = Some k \<Longrightarrow> k_value k \<noteq> zero_ts \<Longrightarrow> timer_step s (timer_handler malloc_ok (k_sival k) s)"
| call: "k < length (threads s) \<Longrightarrow> threads s ! k = Starting i \<Longrightarrow>
     timer_step s (thread_call i (s\<lparr>threads := (threads s)[k := Finishing i]\<rparr>))"
| finish: "k < length (threads s) \<Longrightarrow> threads s ! k = Finishing i \<Longrightarrow>
     timer_step s (thread_end i (s\<lparr>threads := take k (threads s) @ drop (Suc k) (threads s)\<rparr>))"
| cleanup: "timer_step s (timer_system_cleanup s)"
| store_id: "timer_step s (s\<lparr>ids := (ids s)(p := v)\<rparr>)"

text \<open>The static state before the first call.\<close>

definition timer_init :: "tsys \<Rightarrow> bool" where
  "timer_init s \<longleftrightarrow> length (timers s) = MAX_TIMERS \<and> (\<forall>t \<in> set (timers s). \<not> active t) \<and>
     armed s = Map.empty \<and> \<not> initialized s \<and> threads s = [] \<and> called s = [] \<and> count1 s = 0"

section \<open>Active slots are the armed timers\<close>

definition slot_armed :: "tsys \<Rightarrow> nat \<Rightarrow> int \<Rightarrow> ktimer \<Rightarrow> bool" where
  "slot_armed s i tid k \<longleftrightarrow> i < MAX_TIMERS \<and> active (timers s ! i) \<and> timerid (timers s ! i) = tid \<and> k_sival k = int i"

fun thread_slot :: "timer_thread \<Rightarrow> nat" where
  "thread_slot (Starting i) = i"
| "thread_slot (Finishing i) = i"

definition timer_inv :: "tsys \<Rightarrow> bool" where
  "timer_inv s \<longleftrightarrow> length (timers s) = MAX_TIMERS \<and>
     (\<forall>i < MAX_TIMERS. active (timers s ! i) \<longrightarrow> (\<exists>k. armed s (timerid (timers s ! i)) = Some k \<and> k_sival k = int i)) \<and>
     (\<forall>tid k. armed s tid = Some k \<longrightarrow> (\<exists>i. slot_armed s i tid k)) \<and>
     (\<not> initialized s \<longrightarrow> (\<forall>i < MAX_TIMERS. \<not> active (timers s ! i))) \<and>
     (\<forall>t \<in> set (threads s). thread_slot t < MAX_TIMERS)"

lemma timer_invD:
  assumes "timer_inv s"
  shows "length (timers s) = MAX_TIMERS"
    "\<And>i. i < MAX_TIMERS \<Longrightarrow> active (timers s ! i) \<Longrightarrow> \<exists>k. armed s (timerid (timers s ! i)) = Some k \<and> k_sival k = int i"
    "\<And>tid k. armed s tid = Some k \<Longrightarrow> \<exists>i. slot_armed s i tid k"
    "\<And>i. \<not> initialized s \<Longrightarrow> i < MAX_TIMERS \<Longrightarrow> \<not> active (timers s ! i)"
    "\<And>t. t \<in> set (threads s) \<Longrightarrow> thread_slot t < MAX_TIMERS"
  using assms by (auto simp: timer_inv_def)

text \<open>Updates that leave the active slots and the armed timers alone.\<close>

lemma timer_inv_same:
  assumes "timer_inv s" "length (timers u) = MAX_TIMERS" "armed u = armed s"
    "\<And>i. i < MAX_TIMERS \<Longrightarrow> active (timers u ! i) = active (timers s ! i)"
    "\<And>i. i < MAX_TIMERS \<Longrightarrow> active (timers u ! i) \<Longrightarrow> timerid (timers u ! i) = timerid (timers s ! i)"
    "initialized s \<Longrightarrow> initialized u" "\<And>t. t \<in> set (threads u) \<Longrightarrow> thread_slot t < MAX_TIMERS"
  shows "timer_inv u"
proof -
  note D = timer_invD [OF assms(1)]
  have "slot_armed s i tid k = slot_armed u i tid k" for i tid k
    using assms(4,5) by (auto simp: slot_armed_def)
  moreover have "\<exists>k. armed u (timerid (timers u ! i)) = Some k \<and> k_sival k = int i"
    if "i < MAX_TIMERS" "active (timers u ! i)" for i
    using D(2) [of i] assms(3,4,5) that by simp
  moreover have "\<not> active (timers u ! i)" if "\<not> initialized u" "i < MAX_TIMERS" for i
    using D(4) [of i] assms(4,6) that by blast
  ultimately show ?thesis
    unfolding timer_inv_def using assms(2,3,7) D(3) by simp
qed

text \<open>Slot \<open>i\<close> becomes active with a new kernel timer.\<close>

lemma timer_inv_arm:
  assumes inv: "timer_inv s" and i: "i < MAX_TIMERS" "\<not> active (timers s ! i)" and tid: "armed s tid = None"
    and t: "active t" "timerid t = tid" and k: "k_sival k = int i"
    and u: "timers u = (timers s)[i := t]" "armed u = (armed s)(tid \<mapsto> k)" "initialized u" "threads u = threads s"
  shows "timer_inv u"
proof -
  note D = timer_invD [OF inv]
  have nth: "timers u ! j = (if j = i then t else timers s ! j)" if "j < MAX_TIMERS" for j
    using D(1) i(1) that by (simp add: u(1) nth_list_update)
  have other: "timerid (timers s ! j) \<noteq> tid" if "j < MAX_TIMERS" "active (timers s ! j)" for j
    using D(2) [OF that] tid by auto
  have "\<exists>k. armed u (timerid (timers u ! j)) = Some k \<and> k_sival k = int j" if "j < MAX_TIMERS" "active (timers u ! j)" for j
    using that nth [of j] t k u(2) D(2) [of j] other [of j] by (auto split: if_splits)
  moreover have "\<exists>j. slot_armed u j x l" if "armed u x = Some l" for x l
  proof (cases "x = tid")
    case True
    with that u(2) i(1) t k nth [of i] show ?thesis by (auto simp: slot_armed_def)
  next
    case False
    with that u(2) obtain j where j: "slot_armed s j x l" using D(3) by auto
    with i(2) have "slot_armed u j x l" using nth [of j] by (auto simp: slot_armed_def)
    then show ?thesis by blast
  qed
  moreover have "length (timers u) = MAX_TIMERS" using D(1) u(1) by simp
  ultimately show ?thesis
    unfolding timer_inv_def using u(3,4) D(5) by auto
qed

text \<open>Slot \<open>i\<close> becomes inactive and its kernel timer is deleted.\<close>

lemma timer_inv_disarm:
  assumes inv: "timer_inv s" and i: "i < MAX_TIMERS" "active (timers s ! i)" and t: "\<not> active t"
    and u: "timers u = (timers s)[i := t]" "armed u = (armed s)(timerid (timers s ! i) := None)"
      "initialized u = initialized s" "threads u = threads s"
  shows "timer_inv u"
proof -
  note D = timer_invD [OF inv]
  obtain ki where ki: "armed s (timerid (timers s ! i)) = Some ki" "k_sival ki = int i" using D(2) [OF i] by blast
  have nth: "timers u ! j = (if j = i then t else timers s ! j)" if "j < MAX_TIMERS" for j
    using D(1) i(1) that by (simp add: u(1) nth_list_update)
  have other: "timerid (timers s ! j) \<noteq> timerid (timers s ! i)" if "j < MAX_TIMERS" "active (timers s ! j)" "j \<noteq> i" for j
    using D(2) [OF that(1,2)] ki that(3) by auto
  have "\<exists>k. armed u (timerid (timers u ! j)) = Some k \<and> k_sival k = int j" if "j < MAX_TIMERS" "active (timers u ! j)" for j
    using that nth [of j] t u(2) D(2) [of j] other [of j] by (auto split: if_splits)
  moreover have "\<exists>j. slot_armed u j x l" if l: "armed u x = Some l" for x l
  proof -
    have x: "x \<noteq> timerid (timers s ! i)" "armed s x = Some l" using l u(2) by (auto split: if_splits)
    then obtain j where j: "slot_armed s j x l" using D(3) by auto
    with x(1) have "slot_armed u j x l" using nth [of j] by (auto simp: slot_armed_def)
    then show ?thesis by blast
  qed
  moreover have "\<not> active (timers u ! j)" if "\<not> initialized u" "j < MAX_TIMERS" for j
    using D(4) [of j] nth [of j] t that u(3) by auto
  moreover have "length (timers u) = MAX_TIMERS" using D(1) u(1) by simp
  ultimately show ?thesis
    unfolding timer_inv_def using u(4) D(5) by auto
qed

lemma init_once_inv:
  assumes "timer_inv s"
  shows "timer_inv (if initialized s then s else (timer_system_init s)\<lparr>initialized := True\<rparr>)"
proof (cases "initialized s")
  case False
  have "timer_inv ((timer_system_init s)\<lparr>initialized := True\<rparr>)"
    using timer_invD [OF assms] False
    by (intro timer_inv_same [OF assms]) (auto simp: timer_system_init_def)
  with False show ?thesis by simp
qed (use assms in simp)

lemma init_once_armed [simp]:
  "armed (if initialized s then s else (timer_system_init s)\<lparr>initialized := True\<rparr>) = armed s"
  "threads (if initialized s then s else (timer_system_init s)\<lparr>initialized := True\<rparr>) = threads s"
  "initialized (if initialized s then s else (timer_system_init s)\<lparr>initialized := True\<rparr>)"
  by (simp_all add: timer_system_init_def)

definition init_once :: "tsys \<Rightarrow> tsys" where
  "init_once s = (if initialized s then s else (timer_system_init s)\<lparr>initialized := True\<rparr>)"

text \<open>The outcomes of \<open>timer_create_with_callback\<close>.\<close>

lemma timer_create_cases:
  obtains (no_signal) "timer_create_with_callback a cb data m n s = (-1, s)"
  | (full) "timer_create_with_callback a cb data m n s = (-1, init_once s)"
      "\<forall>i < length (timers s). active (timers (init_once s) ! i)"
  | (failed) i t where "timer_create_with_callback a cb data m n s = (-1, (init_once s)\<lparr>timers := (timers (init_once s))[i := t]\<rparr>)"
      "i < length (timers s)" "\<not> active t" "\<not> active (timers (init_once s) ! i)"
  | (created) i tid t where "timer_create_ret a = Some tid"
      "timer_create_with_callback a cb data m n s = (int i, (init_once s)\<lparr>timers := (timers (init_once s))[i := t],
         armed := (armed s)(tid \<mapsto> \<lparr>k_sival = int i, k_value = ms_to_timespec m, k_interval = ms_to_timespec n\<rparr>)\<rparr>)"
      "i < length (timers s)" "\<not> active (timers (init_once s) ! i)" "\<And>j. j < i \<Longrightarrow> active (timers (init_once s) ! j)"
      "active t" "timerid t = tid" "callback t = Some cb" "user_data t = data"
      "thread_running t = thread_running (timers (init_once s) ! i)"
proof (cases "\<not> initialized s \<and> \<not> sigaction_ok a")
  case True
  then show thesis by (intro no_signal) (simp add: timer_create_with_callback_def)
next
  case False
  let ?s = "init_once s"
  have len: "length (timers ?s) = length (timers s)" and ar: "armed ?s = armed s"
    by (simp_all add: init_once_def timer_system_init_def)
  note def = timer_create_with_callback_def [of a cb data m n s, folded init_once_def, unfolded if_not_P [OF False] Let_def]
  show thesis
  proof (cases "timer_alloc (Some cb, data) (timers ?s)")
    case None
    then have "\<forall>i < length (timers s). active (timers ?s ! i)"
      using timer_alloc_None [of "(Some cb, data)" "timers ?s"] len by (auto simp: timer_lookup_def split: if_splits)
    with None show thesis by (intro full) (auto simp: def)
  next
    case (Some st)
    obtain i ts where st: "timer_alloc (Some cb, data) (timers ?s) = Some (i, ts)" using Some by (cases st) auto
    note A = timer_alloc_Some [OF st]
    show thesis
    proof (cases "timer_create_ret a")
      case None
      then show thesis
        using A(1,2) len
        by (intro failed [of i "(ts ! i)\<lparr>sival_int := int i, active := False\<rparr>"]) (auto simp: def st A(4))
    next
      case (Some tid)
      let ?t = "(ts ! i)\<lparr>sival_int := int i, timerid := tid, it_value := ms_to_timespec m, it_interval := ms_to_timespec n\<rparr>"
      show thesis
      proof (cases "settime_ok a")
        case True
        show thesis
          by (rule created [of tid i ?t]) (use Some True A len ar in \<open>simp_all add: def st\<close>)
      next
        case False
        then show thesis
          using A(1,2) len Some
          by (intro failed [of i "?t\<lparr>active := False\<rparr>"]) (auto simp: def st A(4))
      qed
    qed
  qed
qed

lemma timer_create_inv:
  assumes inv: "timer_inv s" and fresh: "\<And>tid. timer_create_ret a = Some tid \<Longrightarrow> armed s tid = None"
  shows "timer_inv (snd (timer_create_with_callback a cb data m n s))"
proof -
  have inv1: "timer_inv (init_once s)" using init_once_inv [OF inv] by (simp add: init_once_def)
  note D = timer_invD [OF inv] timer_invD [OF inv1]
  have I: "armed (init_once s) = armed s" "threads (init_once s) = threads s" "initialized (init_once s)"
    by (simp_all add: init_once_def timer_system_init_def)
  show ?thesis
  proof (cases rule: timer_create_cases [of a cb data m n s])
    case (failed i t)
    then show ?thesis
      using D I by (intro timer_inv_same [OF inv1]) (auto simp: nth_list_update split: if_splits)
  next
    case (created i tid t)
    then show ?thesis
      using D I fresh by (intro timer_inv_arm [OF inv1, where i = i and t = t]) auto
  qed (use inv inv1 in simp_all)
qed

lemma timer_delete_inv: "timer_inv s \<Longrightarrow> timer_inv (snd (timer_delete_with_callback timer_id s))"
  by (auto simp: timer_delete_with_callback_def Let_def intro!: timer_inv_disarm [of s "nat timer_id"])

text \<open>The scan of the handler finds the slot whose index the signal carries.\<close>

lemma handler_scan_eq:
  "distinct is \<Longrightarrow> handler_scan (int i) is idx ts =
     (if i \<in> set is \<and> active (ts ! i) then
        (int i, if thread_running (ts ! i) then ts else ts[i := (ts ! i)\<lparr>thread_running := True\<rparr>])
      else (idx, ts))"
  by (induction "is" arbitrary: idx) auto

lemma timer_handler_active:
  assumes "i < MAX_TIMERS" "active (timers s ! i)"
  shows "timer_handler malloc_ok (int i) s =
    (let s1 = s\<lparr>timers := if thread_running (timers s ! i) then timers s
                          else (timers s)[i := (timers s ! i)\<lparr>thread_running := True\<rparr>]\<rparr>
     in if malloc_ok then s1\<lparr>threads := threads s @ [Starting i]\<rparr> else s1)"
  using assms by (simp add: timer_handler_def handler_scan_eq Let_def)

lemma timer_handler_inv:
  assumes "timer_inv s" "armed s tid = Some k"
  shows "timer_inv (timer_handler malloc_ok (k_sival k) s)"
proof -
  note D = timer_invD [OF assms(1)]
  obtain i where i: "slot_armed s i tid k" using D(3) assms(2) by blast
  then have "timer_handler malloc_ok (k_sival k) s =
    (let s1 = s\<lparr>timers := if thread_running (timers s ! i) then timers s
                          else (timers s)[i := (timers s ! i)\<lparr>thread_running := True\<rparr>]\<rparr>
     in if malloc_ok then s1\<lparr>threads := threads s @ [Starting i]\<rparr> else s1)"
    using timer_handler_active by (simp add: slot_armed_def)
  then show ?thesis
    using D(1,5) i by (intro timer_inv_same [OF assms(1)]) (auto simp: slot_armed_def Let_def nth_list_update split: if_splits)
qed

lemma timer_inv_frame:
  assumes "timer_inv s" "timers u = timers s" "armed u = armed s" "initialized u = initialized s"
    "\<And>t. t \<in> set (threads u) \<Longrightarrow> thread_slot t < MAX_TIMERS"
  shows "timer_inv u"
  using timer_invD [OF assms(1)] assms by (intro timer_inv_same [OF assms(1)]) auto

lemma timer1_callback_inv:
  assumes "timer_inv s"
  shows "timer_inv (timer1_callback data s)"
proof -
  have "timer_inv (s\<lparr>count1 := count1 s + 1\<rparr>)"
    using assms by (rule timer_inv_frame) (use timer_invD(5) [OF assms] in auto)
  then show ?thesis by (simp add: timer1_callback_def Let_def timer_delete_inv)
qed

lemma run_callback_inv: "timer_inv s \<Longrightarrow> timer_inv (run_callback cb data s)"
  by (cases cb) (auto intro: timer1_callback_inv)

lemma thread_call_inv:
  assumes "timer_inv s"
  shows "timer_inv (thread_call i s)"
proof -
  have "timer_inv (s\<lparr>called := xs\<rparr>)" for xs
    using assms by (rule timer_inv_frame) (use timer_invD(5) [OF assms] in auto)
  then show ?thesis using assms by (simp add: thread_call_def Let_def run_callback_inv split: option.split)
qed

lemma thread_end_inv:
  assumes "timer_inv s" "i < MAX_TIMERS"
  shows "timer_inv (thread_end i s)"
  using timer_invD(1,5) [OF assms(1)] assms(2)
  by (intro timer_inv_same [OF assms(1)]) (auto simp: thread_end_def nth_list_update)

lemma cleanup_loop_effect:
  "timer_inv s \<Longrightarrow> \<forall>i \<in> set is. i < MAX_TIMERS \<Longrightarrow>
     timer_inv (cleanup_loop is s) \<and>
     (\<forall>j < MAX_TIMERS. active (timers (cleanup_loop is s) ! j) \<longrightarrow> active (timers s ! j) \<and> j \<notin> set is)"
proof (induction "is" arbitrary: s)
  case (Cons i "is")
  let ?s = "s\<lparr>armed := (armed s)(timerid (timers s ! i) := None), timers := timer_release i (timers s)\<rparr>"
  show ?case
  proof (cases "active (timers s ! i)")
    case True
    have "timer_inv ?s"
      by (rule timer_inv_disarm [OF Cons.prems(1) _ True]) (use Cons.prems(2) in \<open>auto simp: timer_release_def\<close>)
    with Cons.IH [of ?s] Cons.prems True timer_invD(1) [OF Cons.prems(1)] show ?thesis
      by (auto simp: timer_release_def nth_list_update split: if_splits)
  next
    case False
    with Cons.IH [OF Cons.prems(1)] Cons.prems(2) show ?thesis by auto
  qed
qed simp

lemma timer_step_inv: "timer_step s u \<Longrightarrow> timer_inv s \<Longrightarrow> timer_inv u"
proof (induction rule: timer_step.induct)
  case (call k s i)
  have "timer_inv (s\<lparr>threads := (threads s)[k := Finishing i]\<rparr>)"
    using call.prems
  proof (rule timer_inv_frame)
    show "thread_slot t < MAX_TIMERS" if "t \<in> set (threads (s\<lparr>threads := (threads s)[k := Finishing i]\<rparr>))" for t
      using that timer_invD(5) [OF call.prems] call.hyps set_update_subset_insert [of "threads s" k "Finishing i"]
      by simp (metis insertE nth_mem subsetD thread_slot.simps)
  qed auto
  then show ?case by (rule thread_call_inv)
next
  case (finish k s i)
  have "timer_inv (s\<lparr>threads := take k (threads s) @ drop (Suc k) (threads s)\<rparr>)"
    using finish.prems
    by (rule timer_inv_frame) (auto dest: in_set_takeD in_set_dropD timer_invD(5) [OF finish.prems])
  moreover have "i < MAX_TIMERS" using timer_invD(5) [OF finish.prems, of "Finishing i"] finish.hyps by (metis nth_mem thread_slot.simps(2))
  ultimately show ?case by (rule thread_end_inv)
next
  case (cleanup s)
  then show ?case using cleanup_loop_effect [of s "[0..<MAX_TIMERS]"] by (simp add: timer_system_cleanup_def)
next
  case (store_id s p v)
  then show ?case by (rule timer_inv_frame) (use timer_invD(5) [OF store_id] in auto)
qed (auto intro: timer_create_inv timer_delete_inv timer_handler_inv)

interpretation timer: invariant_system timer_init timer_step timer_inv
proof
  show "timer_inv s" if "timer_init s" for s
    using that by (auto simp: timer_init_def timer_inv_def)
qed (auto intro: timer_step_inv)

section \<open>Properties\<close>

lemma init_once_lookup: "timer_inv s \<Longrightarrow> timer_lookup (timers (init_once s)) = timer_lookup (timers s)"
  using timer_invD(1,4) [of s] by (auto simp: init_once_def timer_system_init_def timer_lookup_def fun_eq_iff)

lemma timer_create_registers:
  assumes inv: "timer_inv s" and call: "timer_create_with_callback a cb data initial_ms interval_ms s = (r, u)"
  shows "r = -1 \<and> armed u = armed s \<and> timer_lookup (timers u) = timer_lookup (timers s)
    \<or> (\<exists>i tid. r = int i \<and> i < MAX_TIMERS \<and> timer_lookup (timers s) i = None \<and>
         (\<forall>j < i. timer_lookup (timers s) j \<noteq> None) \<and>
         timer_lookup (timers u) = (timer_lookup (timers s))(i \<mapsto> (Some cb, data)) \<and>
         armed u = (armed s)(tid \<mapsto> \<lparr>k_sival = int i, k_value = ms_to_timespec initial_ms,
           k_interval = ms_to_timespec interval_ms\<rparr>))"
proof -
  have inv1: "timer_inv (init_once s)" using init_once_inv [OF inv] by (simp add: init_once_def)
  have ar: "armed (init_once s) = armed s" by (simp add: init_once_def timer_system_init_def)
  note len = timer_invD(1) [OF inv] timer_invD(1) [OF inv1] and L = init_once_lookup [OF inv]
  show ?thesis
  proof (cases rule: timer_create_cases [of a cb data initial_ms interval_ms s])
    case (failed i t)
    have "timer_lookup ((timers (init_once s))[i := t]) = timer_lookup (timers (init_once s))"
      using failed(2-4) len by (auto simp: timer_lookup_def fun_eq_iff nth_list_update)
    with failed call L ar show ?thesis by auto
  next
    case (created i tid t)
    have "timer_lookup ((timers (init_once s))[i := t]) = (timer_lookup (timers (init_once s)))(i \<mapsto> (Some cb, data))"
      using created(3-9) len by (auto simp: timer_lookup_def fun_eq_iff nth_list_update)
    moreover have "timer_lookup (timers (init_once s)) i = None" "\<forall>j < i. timer_lookup (timers (init_once s)) j \<noteq> None"
      using created(3-5) len by (auto simp: timer_lookup_def)
    ultimately show ?thesis using created(2,3) call L len by auto
  qed (use call L ar in auto)
qed

lemma create_outcome:
  assumes "timer_init s0" "timer_step\<^sup>*\<^sup>* s0 s"
    and "timer_create_with_callback a cb data initial_ms interval_ms s = (r, u)"
  shows "(r = -1 \<and> armed u = armed s \<and> timer_lookup (timers u) = timer_lookup (timers s)
    \<or> (\<exists>i tid. r = int i \<and> i < MAX_TIMERS \<and> timer_lookup (timers s) i = None \<and>
         (\<forall>j < i. timer_lookup (timers s) j \<noteq> None) \<and>
         timer_lookup (timers u) = (timer_lookup (timers s))(i \<mapsto> (Some cb, data)) \<and>
         armed u = (armed s)(tid \<mapsto> \<lparr>k_sival = int i, k_value = ms_to_timespec initial_ms,
           k_interval = ms_to_timespec interval_ms\<rparr>)))
    \<and> (r = -1 \<and> sigaction_ok a \<and> timer_create_ret a \<noteq> None \<and> settime_ok a \<longrightarrow>
         card (dom (timer_lookup (timers s))) = MAX_TIMERS)"
proof -
  have inv: "timer_inv s" using timer.reachable_inv assms(1,2) by blast
  have inv1: "timer_inv (init_once s)" using init_once_inv [OF inv] by (simp add: init_once_def)
  note len = timer_invD(1) [OF inv1] and L = init_once_lookup [OF inv]
  have "card (dom (timer_lookup (timers s))) = MAX_TIMERS"
    if "r = -1" "sigaction_ok a" "timer_create_ret a \<noteq> None" "settime_ok a"
  proof -
    have "timer_alloc (Some cb, data) (timers (init_once s)) = None"
      using that assms(3) by (auto simp: timer_create_with_callback_def init_once_def Let_def
          split: option.splits prod.splits if_splits)
    then show ?thesis using tt.alloc_fails_iff_full [OF len] L by simp
  qed
  then show ?thesis using timer_create_registers [OF inv assms(3)] by blast
qed

definition ex_timers :: tsys where
  "ex_timers = \<lparr>timers = replicate MAX_TIMERS \<lparr>timerid = 0, callback = None, user_data = 0, sival_int = 0,
     it_value = zero_ts, it_interval = zero_ts, active = False, thread_running = False\<rparr>,
     armed = Map.empty, initialized = False, threads = [], called = [], ids = (\<lambda>_. 0), count1 = 0\<rparr>"

definition ex_create :: create_answer where
  "ex_create = \<lparr>sigaction_ok = True, timer_create_ret = Some 77, settime_ok = True\<rparr>"

lemma ex_timers_init: "timer_init ex_timers"
  by (simp add: timer_init_def ex_timers_def)

lemma ex_timer_created:
  "fst (timer_create_with_callback ex_create Timer2_callback 5 2000 1500 ex_timers) = 0"
  by (simp add: timer_create_with_callback_def ex_create_def ex_timers_def timer_system_init_def timer_alloc_def
      MAX_TIMERS_def numeral_eq_Suc)

lemma create_delete_roundtrip:
  assumes "timer_init s0" "timer_step\<^sup>*\<^sup>* s0 s" "\<And>tid. timer_create_ret a = Some tid \<Longrightarrow> armed s tid = None"
    and "timer_create_with_callback a cb data initial_ms interval_ms s = (r, u)" "r \<noteq> -1"
  shows "\<exists>v. timer_delete_with_callback r u = (0, v) \<and> armed v = armed s \<and>
    timer_lookup (timers v) = timer_lookup (timers s)"
proof -
  have inv: "timer_inv s" using timer.reachable_inv assms(1,2) by blast
  have inv1: "timer_inv (init_once s)" using init_once_inv [OF inv] by (simp add: init_once_def)
  note len = timer_invD(1) [OF inv] timer_invD(1) [OF inv1] and L = init_once_lookup [OF inv]
  from assms(4,5) show ?thesis
  proof (cases rule: timer_create_cases [of a cb data initial_ms interval_ms s])
    case (created i tid t)
    then have r: "r = int i" "i < MAX_TIMERS" "armed s tid = None" using assms(3,4) len by auto
    have u: "timers u = (timers (init_once s))[i := t]" "armed u = (armed s)(tid \<mapsto> \<lparr>k_sival = int i,
        k_value = ms_to_timespec initial_ms, k_interval = ms_to_timespec interval_ms\<rparr>)"
      using created(2) assms(4) by auto
    have ti: "timers u ! i = t" "(armed u)(tid := None) = armed s"
      using u r len by (auto simp: fun_upd_idem)
    let ?t = "t\<lparr>it_value := zero_ts, it_interval := zero_ts, active := False\<rparr>"
    have "timer_lookup ((timers (init_once s))[i := t, i := ?t]) = timer_lookup (timers (init_once s))"
      using created(3,4) len by (auto simp: timer_lookup_def fun_eq_iff nth_list_update)
    then show ?thesis
      using r(1,2) created(6,7) ti u(1) L by (auto simp: timer_delete_with_callback_def Let_def)
  qed auto
qed



text \<open>
  The millisecond arguments are converted without loss: the \<^verbatim>\<open>timespec\<close> is normalised (nanoseconds
  below one second) and gives back the milliseconds, for every \<^verbatim>\<open>unsigned long\<close>.
\<close>

lemma ms_to_timespec_roundtrip:
  "0 \<le> tv_nsec (ms_to_timespec ms) \<and> tv_nsec (ms_to_timespec ms) < 1000000000 \<and> 0 \<le> tv_sec (ms_to_timespec ms) \<and>
   tv_sec (ms_to_timespec ms) * 1000 + tv_nsec (ms_to_timespec ms) div 1000000 = uint ms \<and>
   tv_nsec (ms_to_timespec ms) mod 1000000 = 0"
proof -
  have m: "uint (ms mod 1000) = uint ms mod 1000" by (simp add: uint_mod)
  have d: "uint (ms div 1000) = uint ms div 1000" by (simp add: uint_div)
  have n: "uint ((ms mod 1000) * 1000000) = (uint ms mod 1000) * 1000000"
    by (simp add: uint_word_ariths m)
  have "0 \<le> uint ms div 1000" by (simp add: pos_imp_zdiv_nonneg_iff)
  then show ?thesis by (simp add: ms_to_timespec_def d n)
qed



text \<open>
  The handler does not keep its promise not to start a second thread: for an active timer whose
  thread is still running it starts another one all the same, so callbacks of one timer overlap.
\<close>

lemma timer_handler_overlaps:
  assumes "i < MAX_TIMERS" "active (timers s ! i)" "thread_running (timers s ! i)"
  shows "timer_handler True (int i) s = s\<lparr>threads := threads s @ [Starting i]\<rparr>"
  using timer_handler_active [OF assms(1,2), of True] assms(3) by (simp add: Let_def)

text \<open>After the cleanup no slot is active and the kernel holds no timer of the program.\<close>

lemma cleanup_disarms:
  assumes inv: "timer_inv s"
  shows "armed (timer_system_cleanup s) = Map.empty \<and> timer_lookup (timers (timer_system_cleanup s)) = Map.empty"
proof -
  let ?u = "timer_system_cleanup s"
  have c: "timer_inv ?u" "\<And>j. j < MAX_TIMERS \<Longrightarrow> \<not> active (timers ?u ! j)"
    using cleanup_loop_effect [OF inv, of "[0..<MAX_TIMERS]"] by (auto simp: timer_system_cleanup_def)
  have "armed ?u tid = None" for tid
    using timer_invD(3) [OF c(1), of tid] c(2) by (cases "armed ?u tid") (auto simp: slot_armed_def)
  with c timer_invD(1) [OF c(1)] show ?thesis by (auto simp: timer_lookup_def fun_eq_iff)
qed

end
