(* ===== verification/CString.thy ===== *)
theory CString
  imports Prelude "HOL-Library.Char_ord"
begin

text \<open>
  The part of the C string library the programs use, on strings without their terminating NUL:
  \<^verbatim>\<open>isspace\<close>, \<^verbatim>\<open>isdigit\<close>, \<^verbatim>\<open>strtoul\<close> and \<^verbatim>\<open>atoi\<close> in base 10, the removal of the newline by
  \<^verbatim>\<open>strcspn\<close>, the truncation by \<^verbatim>\<open>snprintf\<close> and \<^verbatim>\<open>strncpy\<close>, and the decimal output of \<^verbatim>\<open>%d\<close> for
  natural numbers, with the round trip between output and input.
\<close>

definition is_space :: "char \<Rightarrow> bool" where
  "is_space c \<longleftrightarrow> c = CHR '' '' \<or> c = CHR 0x09 \<or> c = CHR 0x0A \<or> c = CHR 0x0B \<or> c = CHR 0x0C \<or> c = CHR 0x0D"

definition digit_val :: "char \<Rightarrow> nat" where
  "digit_val c = (of_char c :: nat) - 48"

definition is_digit :: "char \<Rightarrow> bool" where
  "is_digit c \<longleftrightarrow> 48 \<le> (of_char c :: nat) \<and> (of_char c :: nat) \<le> 57"

definition digits_val :: "string \<Rightarrow> nat" where
  "digits_val ds = foldl (\<lambda>a d. 10 * a + digit_val d) 0 ds"

text \<open>The sign and the rest, after the blanks.\<close>

definition sign_of :: "string \<Rightarrow> bool \<times> string" where
  "sign_of s = (case dropWhile is_space s of
     [] \<Rightarrow> (False, [])
   | c # t \<Rightarrow> if c = CHR ''-'' then (True, t) else if c = CHR ''+'' then (False, t) else (False, c # t))"

text \<open>\<^verbatim>\<open>strtoul(s, &end, 10)\<close>: the value (saturating, negated modulo \<open>2\<^sup>6\<^sup>4\<close>) and \<^verbatim>\<open>end\<close>.\<close>

definition strtoul :: "string \<Rightarrow> nat \<times> string" where
  "strtoul s =
     (let (neg, u) = sign_of s; ds = takeWhile is_digit u; v = digits_val ds
      in if ds = [] then (0, s)
         else (if v \<ge> 2 ^ 64 then 2 ^ 64 - 1 else if neg then (2 ^ 64 - v) mod 2 ^ 64 else v, dropWhile is_digit u))"

text \<open>\<^verbatim>\<open>atoi\<close>; a value outside \<^verbatim>\<open>int\<close> is undefined in C, here it is the wrapped \<^verbatim>\<open>strtol\<close>.\<close>

definition atoi :: "string \<Rightarrow> int" where
  "atoi s =
     (let (neg, u) = sign_of s; v = int (digits_val (takeWhile is_digit u))
      in sint (word_of_int (if neg then max (- (2 ^ 63)) (- v) else min (2 ^ 63 - 1) v) :: 32 word))"

definition chop_newline :: "string \<Rightarrow> string" where
  "chop_newline s = takeWhile (\<lambda>c. c \<noteq> CHR 0x0A) s"

text \<open>\<^verbatim>\<open>strncpy(dst, s, n - 1); dst[n - 1] = 0\<close> and \<^verbatim>\<open>snprintf(dst, n, ...)\<close>.\<close>

definition c_truncate :: "nat \<Rightarrow> string \<Rightarrow> string" where
  "c_truncate n s = take (n - 1) s"

text \<open>The string a character array holds.\<close>

abbreviation NUL :: char where "NUL \<equiv> CHR 0x00"

definition cstr :: "char list \<Rightarrow> string" where
  "cstr buf = takeWhile (\<lambda>c. c \<noteq> NUL) buf"

fun decimal :: "nat \<Rightarrow> string" where
  "decimal n = (if n < 10 then [char_of (48 + n)] else decimal (n div 10) @ [char_of (48 + n mod 10)])"

declare decimal.simps [simp del]

section \<open>Output and input\<close>

lemma cstr_prefix: "NUL \<notin> set d \<Longrightarrow> cstr (d @ rest) = d @ cstr rest"
  by (induction d) (auto simp: cstr_def)

lemma cstr_append: "NUL \<notin> set d \<Longrightarrow> cstr (d @ NUL # rest) = d"
  by (simp add: cstr_prefix) (simp add: cstr_def)

lemma digit_char [simp]: "n < 10 \<Longrightarrow> is_digit (char_of (48 + n))" "n < 10 \<Longrightarrow> digit_val (char_of (48 + n)) = n"
  by (simp_all add: is_digit_def digit_val_def of_char_of)

lemma decimal_digits: "\<forall>c \<in> set (decimal n). is_digit c"
  by (induction n rule: decimal.induct) (subst decimal.simps, simp)

lemma decimal_nonempty: "decimal n \<noteq> []"
  by (subst decimal.simps) simp

lemma digits_val_decimal: "digits_val (decimal n) = n"
proof (induction n rule: decimal.induct)
  case (1 n)
  then show ?case by (subst decimal.simps) (auto simp: digits_val_def)
qed

lemma digit_not_space: "is_digit c \<Longrightarrow> \<not> is_space c \<and> c \<noteq> CHR ''-'' \<and> c \<noteq> CHR ''+''"
  by (auto simp: is_digit_def is_space_def)

lemma sign_of_digits:
  assumes "is_digit c"
  shows "sign_of (c # s) = (False, c # s)"
  using digit_not_space [OF assms] by (simp add: sign_of_def)

lemma strtoul_decimal:
  assumes "n < 2 ^ 64" "rest = [] \<or> \<not> is_digit (hd rest)"
  shows "strtoul (decimal n @ rest) = (n, rest)"
proof -
  obtain c ds where c: "decimal n = c # ds" using decimal_nonempty by (cases "decimal n") auto
  have all: "\<forall>x \<in> set (decimal n). is_digit x" by (rule decimal_digits)
  then have "sign_of (decimal n @ rest) = (False, decimal n @ rest)" using c by (simp add: sign_of_digits)
  moreover have "takeWhile is_digit (decimal n @ rest) = decimal n" "dropWhile is_digit (decimal n @ rest) = rest"
    using all assms(2) by (cases rest; simp add: takeWhile_append2 dropWhile_append2)+
  ultimately show ?thesis
    using assms(1) decimal_nonempty [of n] by (simp add: strtoul_def digits_val_decimal Let_def)
qed

end
