(* ===== verification/EventFd.thy ===== *)
theory EventFd
  imports CString Transition
begin

text \<open>
  \<^verbatim>\<open>lesson_5/code_examples/04_eventfd/04_eventfd.c\<close>: thread T1 sends a message to the receivers whose
  bits are set in a mask and waits until the acknowledgement mask in shared memory equals it. The
  eventfds are counters that a read resets; every access of the threads to shared memory that can
  interleave is a step of its own. In particular \<^verbatim>\<open>ack_mask |= mask\<close> is a load followed by a
  store. The response is represented by the arguments of its format; the stored timestamps and \<^verbatim>\<open>msync\<close> are
  not modelled. \<open>delivered\<close> records what each receiver got since the mask was last set.
\<close>

unbundle bit_operations_syntax

section \<open>State\<close>

definition MSG_SIZE :: nat where "MSG_SIZE = 1024"

datatype receiver_pc =
    RWait
  | RCheck
  | RLoad
  | RStore u32
  | RSignal

datatype t1_pc =
    TInput
  | TSignal u32 nat
  | TWait u32
  | TCheck u32
  | TDone

record ef_sys =
  message :: string
  receivers_mask :: u32
  ack_mask :: u32
  response :: "(nat \<times> u32) option"
  efdT1 :: nat
  efdReceivers :: "nat list"
  rpc :: "receiver_pc list"
  t1 :: t1_pc
  input_lines :: "string list"
  delivered :: "nat \<rightharpoonup> string"
  reported :: "u32 list"

text \<open>The bit of receiver \<open>i\<close>, \<^verbatim>\<open>1 << i\<close>.\<close>

definition bit_mask :: "nat \<Rightarrow> u32" where
  "bit_mask i = push_bit i 1"

definition max_mask :: "nat \<Rightarrow> u32" where
  "max_mask n = push_bit n 1 - 1"

section \<open>Steps\<close>

definition signal_eventfd :: "nat \<Rightarrow> nat" where
  "signal_eventfd c = c + 1"

text \<open>\<^verbatim>\<open>read\<close> blocks while the counter is 0 and resets it.\<close>

definition wait_eventfd :: "nat \<Rightarrow> nat option" where
  "wait_eventfd c = (if c = 0 then None else Some 0)"

definition parse_line :: "string \<Rightarrow> u32 \<times> string" where
  "parse_line input = (let (v, msg) = strtoul input in (of_nat v, dropWhile (\<lambda>c. c = CHR '' '') msg))"

definition t1_line :: "string \<Rightarrow> ef_sys \<Rightarrow> ef_sys" where
  "t1_line line s =
     (let input = chop_newline line
      in if input = ''exit'' then s\<lparr>t1 := TDone\<rparr>
         else
           (let (bitmask, msg) = parse_line input;
                s1 = s\<lparr>message := c_truncate MSG_SIZE msg\<rparr>
            in if bitmask > max_mask (length (rpc s)) then s1
               else s1\<lparr>receivers_mask := bitmask, ack_mask := 0, delivered := Map.empty, t1 := TSignal bitmask 0\<rparr>))"

definition t1_next :: "ef_sys \<Rightarrow> ef_sys option" where
  "t1_next s =
     (case t1 s of
        TInput \<Rightarrow> (case input_lines s of
            [] \<Rightarrow> Some (s\<lparr>t1 := TDone\<rparr>)
          | line # lines \<Rightarrow> Some (t1_line line (s\<lparr>input_lines := lines\<rparr>)))
      | TSignal bitmask i \<Rightarrow>
          (if i < length (rpc s) then
             Some (s\<lparr>efdReceivers := (if bitmask AND bit_mask i \<noteq> 0
                         then (efdReceivers s)[i := signal_eventfd (efdReceivers s ! i)] else efdReceivers s),
                     t1 := TSignal bitmask (i + 1)\<rparr>)
           else Some (s\<lparr>t1 := TWait bitmask\<rparr>))
      | TWait bitmask \<Rightarrow>
          (case wait_eventfd (efdT1 s) of
             None \<Rightarrow> None
           | Some c \<Rightarrow> Some (s\<lparr>efdT1 := c, t1 := TCheck bitmask\<rparr>))
      | TCheck bitmask \<Rightarrow>
          (if ack_mask s = bitmask then Some (s\<lparr>t1 := TInput, reported := reported s @ [bitmask]\<rparr>)
           else Some (s\<lparr>t1 := TWait bitmask\<rparr>))
      | TDone \<Rightarrow> None)"

text \<open>One step of the receiver with index \<open>i\<close>, thread \<open>i + 2\<close>.\<close>

definition receiver_next :: "nat \<Rightarrow> ef_sys \<Rightarrow> ef_sys option" where
  "receiver_next i s =
     (case rpc s ! i of
        RWait \<Rightarrow> (case wait_eventfd (efdReceivers s ! i) of
            None \<Rightarrow> None
          | Some c \<Rightarrow> Some (s\<lparr>efdReceivers := (efdReceivers s)[i := c], rpc := (rpc s)[i := RCheck]\<rparr>))
      | RCheck \<Rightarrow>
          (if receivers_mask s AND bit_mask i = 0 then Some (s\<lparr>rpc := (rpc s)[i := RWait]\<rparr>)
           else Some (s\<lparr>delivered := (delivered s)(i \<mapsto> message s), rpc := (rpc s)[i := RLoad]\<rparr>))
      | RLoad \<Rightarrow> Some (s\<lparr>response := Some (i + 2, bit_mask i), rpc := (rpc s)[i := RStore (ack_mask s)]\<rparr>)
      | RStore v \<Rightarrow> Some (s\<lparr>ack_mask := v OR bit_mask i, rpc := (rpc s)[i := RSignal]\<rparr>)
      | RSignal \<Rightarrow> Some (s\<lparr>efdT1 := signal_eventfd (efdT1 s), rpc := (rpc s)[i := RWait]\<rparr>))"

definition ef_step :: "ef_sys \<Rightarrow> ef_sys \<Rightarrow> bool" where
  "ef_step s s' \<longleftrightarrow> t1_next s = Some s' \<or> (\<exists>i < length (rpc s). receiver_next i s = Some s')"

text \<open>The state after the receivers were started, for \<open>n\<close> receivers.\<close>

definition ef_start :: "nat \<Rightarrow> string list \<Rightarrow> ef_sys" where
  "ef_start n lines = \<lparr>message = [], receivers_mask = 0, ack_mask = 0, response = None, efdT1 = 0,
     efdReceivers = replicate n 0, rpc = replicate n RWait, t1 = TInput, input_lines = lines,
     delivered = Map.empty, reported = []\<rparr>"

text \<open>\<^verbatim>\<open>main\<close>: the number of receivers, or the exit code of a refused argument.\<close>

definition ef_main :: "string option \<Rightarrow> int + nat" where
  "ef_main arg = (case arg of None \<Rightarrow> Inr 2 | Some a \<Rightarrow> if atoi a < 1 then Inl 1 else Inr (nat (atoi a)))"

text \<open>A run under a schedule: T1 moves, or a receiver does.\<close>

fun ef_exec :: "nat option list \<Rightarrow> ef_sys \<Rightarrow> ef_sys option" where
  "ef_exec [] s = Some s"
| "ef_exec (None # es) s = (case t1_next s of None \<Rightarrow> None | Some u \<Rightarrow> ef_exec es u)"
| "ef_exec (Some i # es) s = (if i < length (rpc s) then
     (case receiver_next i s of None \<Rightarrow> None | Some u \<Rightarrow> ef_exec es u) else None)"

lemma ef_exec_steps: "ef_exec es s = Some u \<Longrightarrow> ef_step\<^sup>*\<^sup>* s u"
proof (induction es s rule: ef_exec.induct)
  case (2 es s)
  then obtain v where "t1_next s = Some v" "ef_step\<^sup>*\<^sup>* v u" by (auto split: option.splits)
  then show ?case by (meson ef_step_def converse_rtranclp_into_rtranclp)
next
  case (3 i es s)
  then obtain v where "i < length (rpc s)" "receiver_next i s = Some v" "ef_step\<^sup>*\<^sup>* v u"
    by (auto split: option.splits if_splits)
  then show ?case by (meson ef_step_def converse_rtranclp_into_rtranclp)
qed simp

section \<open>Rounds\<close>

fun round_mask :: "t1_pc \<Rightarrow> u32 option" where
  "round_mask (TSignal b i) = Some b"
| "round_mask (TWait b) = Some b"
| "round_mask (TCheck b) = Some b"
| "round_mask TInput = None"
| "round_mask TDone = None"

text \<open>Receiver \<open>i\<close> has been signalled and has not stored its acknowledgement.\<close>

definition busy :: "ef_sys \<Rightarrow> nat \<Rightarrow> bool" where
  "busy s i \<longleftrightarrow> efdReceivers s ! i > 0 \<or> (case rpc s ! i of RCheck \<Rightarrow> True | RLoad \<Rightarrow> True | RStore v \<Rightarrow> True | _ \<Rightarrow> False)"

definition acked :: "ef_sys \<Rightarrow> u32 \<Rightarrow> bool" where
  "acked s v \<longleftrightarrow> (\<forall>i < length (rpc s). bit v i \<longrightarrow> delivered s i \<noteq> None \<and> \<not> busy s i)"

definition ef_inv :: "ef_sys \<Rightarrow> bool" where
  "ef_inv s \<longleftrightarrow> length (rpc s) \<le> 31 \<and> length (efdReceivers s) = length (rpc s) \<and>
     (\<forall>i < length (rpc s). busy s i \<longrightarrow> (\<exists>b. round_mask (t1 s) = Some b \<and> bit b i)) \<and>
     (\<forall>b k. t1 s = TSignal b k \<longrightarrow> (\<forall>i < length (rpc s). k \<le> i \<longrightarrow> \<not> busy s i \<and> delivered s i = None)) \<and>
     acked s (ack_mask s) \<and>
     (\<forall>j < length (rpc s). \<forall>v. rpc s ! j = RStore v \<longrightarrow> acked s v) \<and>
     (\<forall>i < length (rpc s). \<forall>v. rpc s ! i = RLoad \<or> rpc s ! i = RStore v \<longrightarrow> delivered s i \<noteq> None) \<and>
     (\<forall>i < length (rpc s). efdReceivers s ! i > 0 \<longrightarrow> rpc s ! i = RWait \<or> rpc s ! i = RSignal) \<and>
     (\<forall>b. round_mask (t1 s) = Some b \<longrightarrow> receivers_mask s = b \<and>
        (\<forall>i < length (rpc s). \<forall>m. delivered s i = Some m \<longrightarrow> bit b i \<and> m = message s))"

lemma ef_invD:
  assumes "ef_inv s"
  shows "length (rpc s) \<le> 31" "length (efdReceivers s) = length (rpc s)"
    "\<And>i. i < length (rpc s) \<Longrightarrow> busy s i \<Longrightarrow> \<exists>b. round_mask (t1 s) = Some b \<and> bit b i"
    "\<And>b k i. t1 s = TSignal b k \<Longrightarrow> i < length (rpc s) \<Longrightarrow> k \<le> i \<Longrightarrow> \<not> busy s i \<and> delivered s i = None"
    "acked s (ack_mask s)" "\<And>j v. j < length (rpc s) \<Longrightarrow> rpc s ! j = RStore v \<Longrightarrow> acked s v"
    "\<And>i v. i < length (rpc s) \<Longrightarrow> rpc s ! i = RLoad \<or> rpc s ! i = RStore v \<Longrightarrow> delivered s i \<noteq> None"
    "\<And>i. i < length (rpc s) \<Longrightarrow> efdReceivers s ! i > 0 \<Longrightarrow> rpc s ! i = RWait \<or> rpc s ! i = RSignal"
    "\<And>b. round_mask (t1 s) = Some b \<Longrightarrow> receivers_mask s = b"
    "\<And>b i m. round_mask (t1 s) = Some b \<Longrightarrow> i < length (rpc s) \<Longrightarrow> delivered s i = Some m \<Longrightarrow> bit b i \<and> m = message s"
  using assms by (auto simp: ef_inv_def)

lemma ef_invI:
  assumes "length (rpc s) \<le> 31" "length (efdReceivers s) = length (rpc s)"
    "\<And>i. i < length (rpc s) \<Longrightarrow> busy s i \<Longrightarrow> \<exists>b. round_mask (t1 s) = Some b \<and> bit b i"
    "\<And>b k i. t1 s = TSignal b k \<Longrightarrow> i < length (rpc s) \<Longrightarrow> k \<le> i \<Longrightarrow> \<not> busy s i \<and> delivered s i = None"
    "acked s (ack_mask s)" "\<And>j v. j < length (rpc s) \<Longrightarrow> rpc s ! j = RStore v \<Longrightarrow> acked s v"
    "\<And>i v. i < length (rpc s) \<Longrightarrow> rpc s ! i = RLoad \<or> rpc s ! i = RStore v \<Longrightarrow> delivered s i \<noteq> None"
    "\<And>i. i < length (rpc s) \<Longrightarrow> efdReceivers s ! i > 0 \<Longrightarrow> rpc s ! i = RWait \<or> rpc s ! i = RSignal"
    "\<And>b. round_mask (t1 s) = Some b \<Longrightarrow> receivers_mask s = b"
    "\<And>b i m. round_mask (t1 s) = Some b \<Longrightarrow> i < length (rpc s) \<Longrightarrow> delivered s i = Some m \<Longrightarrow> bit b i \<and> m = message s"
  shows "ef_inv s"
  unfolding ef_inv_def using assms by blast

lemma bit_mask_test: "i < 32 \<Longrightarrow> v AND bit_mask i = 0 \<longleftrightarrow> \<not> bit v i" for v :: u32
  by (simp add: bit_mask_def push_bit_of_1 and_exp_eq_0_iff_not_bit)

lemma bit_or_mask: "i < 32 \<Longrightarrow> bit (v OR bit_mask j) i \<longleftrightarrow> bit v i \<or> i = j" for v :: u32
  by (auto simp: bit_mask_def push_bit_of_1 bit_simps)

text \<open>
  Receiver steps: the set of busy receivers does not grow, the delivered messages do not shrink, and
  T1 and the masks it owns are untouched.
\<close>

lemma receiver_frame:
  assumes inv: "ef_inv s" and i: "i < length (rpc s)"
    and u: "t1 u = t1 s" "receivers_mask u = receivers_mask s" "message u = message s"
      "rpc u = (rpc s)[i := pc]" "length (efdReceivers u) = length (rpc s)"
      "\<And>j. j < length (rpc s) \<Longrightarrow> j \<noteq> i \<Longrightarrow> efdReceivers u ! j = efdReceivers s ! j \<and> delivered u j = delivered s j"
    and was: "busy u i \<Longrightarrow> busy s i" "delivered s i \<noteq> None \<Longrightarrow> delivered u i \<noteq> None"
      "delivered u i \<noteq> delivered s i \<Longrightarrow> delivered u i = Some (message s) \<and> busy s i"
    and own: "\<And>v. pc = RLoad \<or> pc = RStore v \<Longrightarrow> delivered u i \<noteq> None" "efdReceivers u ! i > 0 \<Longrightarrow> pc = RWait \<or> pc = RSignal"
      "\<And>v. pc = RStore v \<Longrightarrow> acked s v"
    and ack: "ack_mask u = ack_mask s \<or> acked u (ack_mask u)"
  shows "ef_inv u"
proof -
  note D = ef_invD [OF inv]
  have len: "length (rpc u) = length (rpc s)" using u(4) by simp
  have pcs: "rpc u ! j = (if j = i then pc else rpc s ! j)" if "j < length (rpc s)" for j
    using that i u(4) by (simp add: nth_list_update)
  have bus: "busy u j \<Longrightarrow> busy s j" if "j < length (rpc s)" for j
    using that was(1) u(6) [OF that] pcs [OF that] by (cases "j = i") (auto simp: busy_def)
  have del: "delivered s j \<noteq> None \<Longrightarrow> delivered u j \<noteq> None" if "j < length (rpc s)" for j
    using that was(2) u(6) [OF that] by (cases "j = i") auto
  have ak: "acked s x \<Longrightarrow> acked u x" for x
    unfolding acked_def len using bus del by blast
  show ?thesis
  proof (rule ef_invI; (unfold len u(1,2,3))?)
    show "acked u (ack_mask u)" using ack ak D(5) by metis
    show "acked u x" if "j < length (rpc s)" "rpc u ! j = RStore x" for j x
      using that pcs [OF that(1)] own(3) D(6) ak by (metis (full_types))
    show "delivered u j \<noteq> None" if "j < length (rpc s)" "rpc u ! j = RLoad \<or> rpc u ! j = RStore x" for j x
      using that pcs [OF that(1)] own(1) own(3) D(7) [of j x] del [OF that(1)] by (auto split: if_splits)
    show "rpc u ! j = RWait \<or> rpc u ! j = RSignal" if "j < length (rpc s)" "efdReceivers u ! j > 0" for j
      using that pcs [OF that(1)] own(2) D(8) [of j] u(6) [of j] by (auto split: if_splits)
    show "\<not> busy u j \<and> delivered u j = None" if "t1 s = TSignal b k" "j < length (rpc s)" "k \<le> j" for b k j
      using D(4) [OF that] bus [OF that(2)] was(3) u(6) [OF that(2)] by (cases "j = i"; cases "delivered u j") auto
    show "bit b j \<and> m = message s" if "round_mask (t1 s) = Some b" "j < length (rpc s)" "delivered u j = Some m" for b j m
    proof (cases "delivered u j = delivered s j")
      case True
      with D(10) [OF that(1,2)] that(3) show ?thesis by simp
    next
      case False
      then have "j = i" using u(6) [OF that(2)] by blast
      with False was(3) that D(3) [OF i] show ?thesis by auto
    qed
  qed (use D bus u(5) in auto)
qed

lemma receiver_next_inv:
  assumes inv: "ef_inv s" and i: "i < length (rpc s)" and st: "receiver_next i s = Some u"
  shows "ef_inv u"
proof -
  note D = ef_invD [OF inv]
  have i32: "i < 32" using i D(1) by simp
  show ?thesis
  proof (cases "rpc s ! i")
    case RWait
    with st have u: "u = s\<lparr>efdReceivers := (efdReceivers s)[i := 0], rpc := (rpc s)[i := RCheck]\<rparr>" "efdReceivers s ! i > 0"
      by (auto simp: receiver_next_def wait_eventfd_def split: if_splits option.splits)
    show ?thesis
      by (rule receiver_frame [OF inv i, of _ RCheck]) (use u i D(2) in \<open>auto simp: busy_def nth_list_update\<close>)
  next
    case RCheck
    then have b: "busy s i" by (simp add: busy_def)
    then have "bit (receivers_mask s) i" using D(3) [OF i b] D(9) by auto
    then have u: "u = s\<lparr>delivered := (delivered s)(i \<mapsto> message s), rpc := (rpc s)[i := RLoad]\<rparr>"
      using RCheck st bit_mask_test [OF i32] by (auto simp: receiver_next_def)
    show ?thesis
      by (rule receiver_frame [OF inv i, of _ RLoad]) (use u i b D(2) D(8) [OF i] RCheck in auto)
  next
    case RLoad
    with st have u: "u = s\<lparr>response := Some (i + 2, bit_mask i), rpc := (rpc s)[i := RStore (ack_mask s)]\<rparr>"
      by (simp add: receiver_next_def)
    show ?thesis
      by (rule receiver_frame [OF inv i, of _ "RStore (ack_mask s)"])
        (use u i D(2,5) D(7) [OF i] D(8) [OF i] RLoad in \<open>auto simp: busy_def\<close>)
  next
    case (RStore v)
    with st have u: "u = s\<lparr>ack_mask := v OR bit_mask i, rpc := (rpc s)[i := RSignal]\<rparr>"
      by (simp add: receiver_next_def)
    have nb: "\<not> busy u i" "\<And>j. j < length (rpc s) \<Longrightarrow> busy u j \<Longrightarrow> busy s j"
      using u i RStore D(8) [OF i] by (auto simp: busy_def nth_list_update split: if_splits)
    have "acked u (v OR bit_mask i)"
      using D(1) D(6) [OF i RStore] D(7) [OF i, of v] RStore nb by (auto simp: acked_def u bit_or_mask)
    then show ?thesis
      by (intro receiver_frame [OF inv i, of _ RSignal]) (use u i nb D(2) in auto)
  next
    case RSignal
    with st have u: "u = s\<lparr>efdT1 := signal_eventfd (efdT1 s), rpc := (rpc s)[i := RWait]\<rparr>"
      by (simp add: receiver_next_def)
    show ?thesis
      by (rule receiver_frame [OF inv i, of _ RWait]) (use u i D(2) in \<open>auto simp: busy_def\<close>)
  qed
qed

text \<open>T1 steps that leave the receivers and the masks alone.\<close>

lemma t1_frame:
  assumes inv: "ef_inv s"
    and u: "rpc u = rpc s" "efdReceivers u = efdReceivers s" "ack_mask u = ack_mask s" "delivered u = delivered s"
    and idle: "round_mask (t1 u) = None \<Longrightarrow> (\<forall>i < length (rpc s). \<not> busy s i)"
    and same: "\<And>b. round_mask (t1 u) = Some b \<Longrightarrow> round_mask (t1 s) = Some b \<and> receivers_mask u = receivers_mask s
      \<and> message u = message s" "\<And>b k. t1 u \<noteq> TSignal b k"
  shows "ef_inv u"
proof -
  note D = ef_invD [OF inv]
  have bus: "busy u = busy s" using u by (simp add: busy_def fun_eq_iff)
  have ak: "acked u = acked s" using u bus by (simp add: acked_def fun_eq_iff)
  show ?thesis
  proof (rule ef_invI; (unfold u bus ak)?)
    show "\<exists>b. round_mask (t1 u) = Some b \<and> bit b i" if "i < length (rpc s)" "busy s i" for i
      using D(3) [OF that] idle same(1) that by (cases "round_mask (t1 u)") auto
    show "receivers_mask u = b" if "round_mask (t1 u) = Some b" for b
      using same(1) [OF that] D(9) by simp
    show "bit b i \<and> m = message u" if "round_mask (t1 u) = Some b" "i < length (rpc s)" "delivered s i = Some m" for b i m
      using same(1) [OF that(1)] D(10) that(2,3) by metis
  qed (use D same(2) in auto)
qed

lemma t1_next_inv:
  assumes inv: "ef_inv s" and st: "t1_next s = Some u"
  shows "ef_inv u"
proof -
  note D = ef_invD [OF inv]
  show ?thesis
  proof (cases "t1 s")
    case TInput
    then have idle: "\<forall>i < length (rpc s). \<not> busy s i" using D(3) by auto
    show ?thesis
    proof (cases "t1 u = TInput \<or> t1 u = TDone")
      case True
      then show ?thesis
        using st TInput idle
        by (intro t1_frame [OF inv])
          (auto simp: t1_next_def t1_line_def Let_def split: list.splits prod.splits if_splits)
    next
      case False
      then obtain b msg lines where u: "u = s\<lparr>input_lines := lines, message := msg, receivers_mask := b, ack_mask := 0,
          delivered := Map.empty, t1 := TSignal b 0\<rparr>"
        using st TInput
        by (auto simp: t1_next_def t1_line_def Let_def split: list.splits prod.splits if_splits)
      have bus: "busy u = busy s" by (simp add: busy_def fun_eq_iff u)
      have pcs: "rpc s ! i \<noteq> RLoad" "rpc s ! i \<noteq> RStore v" if "i < length (rpc s)" for i v
        using idle that by (auto simp: busy_def)
      show ?thesis
        by (rule ef_invI; (unfold bus)?) (use D idle pcs in \<open>auto simp: u acked_def\<close>)
    qed
  next
    case (TSignal b k)
    show ?thesis
    proof (cases "k < length (rpc s) \<and> bit b k")
      case False
      then have k: "k < length (rpc s) \<Longrightarrow> b AND bit_mask k = 0" using bit_mask_test [of k b] D(1) by auto
      show ?thesis
      proof (cases "k < length (rpc s)")
        case True
        then have u: "u = s\<lparr>t1 := TSignal b (k + 1)\<rparr>" using st TSignal k by (auto simp: t1_next_def)
        have bus: "busy u = busy s" and ak: "acked u = acked s" by (simp_all add: busy_def acked_def fun_eq_iff u)
        show ?thesis
          by (rule ef_invI; (unfold bus ak)?) (use D TSignal in \<open>auto simp: u\<close>)
      next
        case False
        then have "u = s\<lparr>t1 := TWait b\<rparr>" using st TSignal by (auto simp: t1_next_def)
        with TSignal show ?thesis by (intro t1_frame [OF inv]) auto
      qed
    next
      case True
      then have "b AND bit_mask k \<noteq> 0" using bit_mask_test [of k b] D(1) by auto
      then have u: "u = s\<lparr>efdReceivers := (efdReceivers s)[k := Suc (efdReceivers s ! k)], t1 := TSignal b (k + 1)\<rparr>"
        using st TSignal True by (simp add: t1_next_def signal_eventfd_def)
      have k: "\<not> busy s k" "delivered s k = None" using D(4) [OF TSignal, of k] True by auto
      have bus: "busy u i \<longleftrightarrow> busy s i \<or> i = k" if "i < length (rpc s)" for i
        using that D(2) True by (auto simp: busy_def u nth_list_update)
      have ak: "acked s v \<Longrightarrow> acked u v" for v
        using k bus by (auto simp: acked_def u)
      have pck: "rpc s ! k = RWait \<or> rpc s ! k = RSignal" using k(1) by (cases "rpc s ! k") (auto simp: busy_def)
      show ?thesis
      proof (rule ef_invI)
        show "\<exists>c. round_mask (t1 u) = Some c \<and> bit c i" if "i < length (rpc u)" "busy u i" for i
          using that bus [of i] D(3) [of i] True TSignal by (auto simp: u)
        show "\<not> busy u i \<and> delivered u i = None" if "t1 u = TSignal c j" "i < length (rpc u)" "j \<le> i" for c j i
          using that bus [of i] D(4) [OF TSignal, of i] by (auto simp: u)
        show "rpc u ! i = RWait \<or> rpc u ! i = RSignal" if "i < length (rpc u)" "efdReceivers u ! i > 0" for i
          using that pck D(8) [of i] D(2) True by (auto simp: u nth_list_update split: if_splits)
      qed (use D ak TSignal in \<open>auto simp: u\<close>)
    qed
  next
    case (TWait b)
    with st show ?thesis
      by (intro t1_frame [OF inv]) (auto simp: t1_next_def wait_eventfd_def split: if_splits)
  next
    case (TCheck b)
    have "\<not> busy s i" if "i < length (rpc s)" "ack_mask s = b" for i
      using D(3) [OF that(1)] D(5) that TCheck by (auto simp: acked_def)
    with TCheck st show ?thesis
      by (intro t1_frame [OF inv]) (auto simp: t1_next_def split: if_splits)
  qed (use st in \<open>simp add: t1_next_def\<close>)
qed

definition ef_init :: "ef_sys \<Rightarrow> bool" where
  "ef_init s \<longleftrightarrow> (\<exists>n lines. n \<le> 31 \<and> s = ef_start n lines)"

lemma ef_init_start: "n \<le> 31 \<Longrightarrow> ef_init (ef_start n lines)"
  by (auto simp: ef_init_def)

interpretation ef: invariant_system ef_init ef_step ef_inv
proof
  show "ef_inv s" if "ef_init s" for s
    using that by (auto simp: ef_init_def ef_start_def ef_inv_def busy_def acked_def)
  show "ef_inv t" if "ef_inv s" "ef_step s t" for s t
    using that by (auto simp: ef_step_def intro: receiver_next_inv t1_next_inv)
qed

section \<open>Properties\<close>

text \<open>
  C14. When T1 reports that all threads of the mask have acknowledged, every targeted receiver has
  received the message that is in shared memory, and no other receiver has, for every number of
  receivers up to 31 and every interleaving.
\<close>

theorem eventfd_round_complete:
  assumes "ef_init s0" "ef_step\<^sup>*\<^sup>* s0 s" "t1 s = TCheck b" "t1_next s = Some u" "t1 u = TInput" "i < length (rpc s)"
  shows "delivered s i = (if bit b i then Some (message s) else None)"
proof -
  have inv: "ef_inv s" using ef.reachable_inv assms(1,2) by blast
  note D = ef_invD [OF inv]
  have ack: "ack_mask s = b" using assms(3-5) by (auto simp: t1_next_def split: if_splits)
  have m: "delivered s i = Some m \<Longrightarrow> bit b i \<and> m = message s" for m
    using D(10) [of b i m] assms(3,6) by simp
  show ?thesis
  proof (cases "bit b i")
    case True
    then have "delivered s i \<noteq> None" using D(5) ack assms(6) by (auto simp: acked_def)
    with m True show ?thesis by auto
  next
    case False
    with m show ?thesis by (cases "delivered s i") auto
  qed
qed

text \<open>Facts that evaluate runs of two receivers.\<close>

lemma two_receivers: "replicate 2 x = [x, x]" "max_mask (Suc (Suc 0)) = 3" "bit_mask 0 = 1" "bit_mask (Suc 0) = 2"
  by (simp_all add: numeral_2_eq_2) (simp_all add: max_mask_def bit_mask_def)

lemma parse_examples: "parse_line ''2 hi'' = (2, ''hi'')" "parse_line ''3 hi'' = (3, ''hi'')"
  by (simp_all add: parse_line_def strtoul_def sign_of_def is_space_def is_digit_def digits_val_def digit_val_def)

lemmas ef_eval = ef_start_def t1_next_def receiver_next_def t1_line_def chop_newline_def parse_examples
  c_truncate_def MSG_SIZE_def wait_eventfd_def signal_eventfd_def two_receivers

definition ex_round :: "nat option list" where
  "ex_round = [None, None, None, None, Some 1, Some 1, Some 1, Some 1, Some 1, None]"

lemma ex_round_runs:
  "ef_exec ex_round (ef_start 2 [''2 hi'']) \<noteq> None"
  "t1 (the (ef_exec ex_round (ef_start 2 [''2 hi'']))) = TCheck 2"
  "message (the (ef_exec ex_round (ef_start 2 [''2 hi'']))) = ''hi''"
  "length (rpc (the (ef_exec ex_round (ef_start 2 [''2 hi''])))) = 2"
  "ack_mask (the (ef_exec ex_round (ef_start 2 [''2 hi'']))) = 2"
  by (simp_all add: ex_round_def ef_eval)

theorem eventfd_round_complete_witness:
  "\<exists>s. ef_step\<^sup>*\<^sup>* (ef_start 2 [''2 hi'']) s \<and> t1 s = TCheck 2 \<and> delivered s 1 = Some ''hi'' \<and> delivered s 0 = None"
proof -
  let ?s = "the (ef_exec ex_round (ef_start 2 [''2 hi'']))"
  have "ef_exec ex_round (ef_start 2 [''2 hi'']) = Some ?s" using ex_round_runs(1) by simp
  then have r: "ef_step\<^sup>*\<^sup>* (ef_start 2 [''2 hi'']) ?s" by (rule ef_exec_steps)
  have i: "ef_init (ef_start 2 [''2 hi''])" by (rule ef_init_start) simp
  have n: "t1_next ?s = Some (?s\<lparr>t1 := TInput, reported := reported ?s @ [2]\<rparr>)"
    using ex_round_runs(2,5) by (simp add: t1_next_def)
  have t: "t1 (?s\<lparr>t1 := TInput, reported := reported ?s @ [2]\<rparr>) = TInput" by simp
  have d: "delivered ?s k = (if bit (2::u32) k then Some ''hi'' else None)" if "k < 2" for k
    using eventfd_round_complete [OF i r ex_round_runs(2) n t, of k] that ex_round_runs(3,4) by simp
  have "delivered ?s 1 = Some ''hi''" "delivered ?s 0 = None" using d [of 1] d [of 0] by simp_all
  with r ex_round_runs(2) show ?thesis by blast
qed

lemma idle_stuck:
  assumes "t1 s = TWait b" "efdT1 s = 0" "rpc s = [RWait, RWait]" "efdReceivers s = [0, 0]"
  shows "\<not> ef_step s u"
proof -
  have "receiver_next i s = None" if "i < 2" for i
    using that assms by (cases i) (auto simp: receiver_next_def wait_eventfd_def)
  with assms show ?thesis by (auto simp: ef_step_def t1_next_def wait_eventfd_def)
qed

text \<open>
  Acknowledgements can be lost: \<^verbatim>\<open>ack_mask |= mask\<close> is not atomic, so two receivers that load the same
  value overwrite each other's bit. There is a run with two receivers in which both received
  the message and acknowledged, and T1 waits forever: no thread can take a step.
\<close>

lemma eventfd_lost_ack:
  "\<exists>s. ef_step\<^sup>*\<^sup>* (ef_start 2 [''3 hi'']) s \<and> t1 s = TWait 3 \<and> rpc s = [RWait, RWait] \<and>
     delivered s 0 = Some ''hi'' \<and> delivered s 1 = Some ''hi'' \<and> ack_mask s = 2 \<and> (\<forall>u. \<not> ef_step s u)"
proof -
  let ?es = "[None, None, None, None, Some 0, Some 1, Some 0, Some 1, Some 0, Some 1, Some 0, Some 1, Some 0, Some 1, None, None]"
  let ?s = "the (ef_exec ?es (ef_start 2 [''3 hi'']))"
  have "ef_exec ?es (ef_start 2 [''3 hi'']) = Some ?s" by (simp add: ef_eval)
  then have r: "ef_step\<^sup>*\<^sup>* (ef_start 2 [''3 hi'']) ?s" by (rule ef_exec_steps)
  have s: "t1 ?s = TWait 3" "rpc ?s = [RWait, RWait]" "delivered ?s 0 = Some ''hi''" "delivered ?s 1 = Some ''hi''"
    "ack_mask ?s = 2" "efdT1 ?s = 0" "efdReceivers ?s = [0, 0]"
    by (simp_all add: ef_eval)
  have "\<not> ef_step ?s u" for u
    using idle_stuck s by blast
  with r s show ?thesis by blast
qed

text \<open>
  A line whose mask is 0, for instance one that does not start with a number, blocks T1 for good:
  it signals no receiver and waits for an acknowledgement nobody sends, so it never reports and never
  reads another line.
\<close>

lemma eventfd_zero_mask_blocks:
  assumes "fst (parse_line (chop_newline line)) = 0" "chop_newline line \<noteq> ''exit''"
    and "ef_step\<^sup>*\<^sup>* (ef_start n (line # lines)) s"
  shows "reported s = [] \<and> t1 s \<noteq> TDone \<and> (s = ef_start n (line # lines) \<or> input_lines s = lines \<and> t1 s \<noteq> TInput)"
proof -
  let ?Z = "\<lambda>s. ((\<exists>k. t1 s = TSignal 0 k) \<or> t1 s = TWait 0) \<and> efdT1 s = 0 \<and> efdReceivers s = replicate n 0 \<and>
    rpc s = replicate n RWait \<and> reported s = [] \<and> input_lines s = lines"
  have "s = ef_start n (line # lines) \<or> ?Z s"
    using assms(3)
  proof (induction rule: rtranclp_induct)
    case (step s u)
    have r: "receiver_next i s = None" if "i < n" "s = ef_start n (line # lines) \<or> ?Z s" for i
      using that by (auto simp: receiver_next_def ef_start_def wait_eventfd_def)
    have t: "?Z u" if "t1_next s = Some u" "s = ef_start n (line # lines) \<or> ?Z s"
      using that assms(1,2)
      by (auto simp: t1_next_def ef_start_def t1_line_def wait_eventfd_def Let_def split: prod.splits if_splits)
    have "length (rpc s) = n" using step.IH by (auto simp: ef_start_def)
    with step r t show ?case by (auto simp: ef_step_def)
  qed simp
  then show ?thesis by (auto simp: ef_start_def)
qed



text \<open>
  A line made of a decimal mask, a blank and a message is read as that mask and that message.
\<close>

lemma parse_line_roundtrip:
  assumes "n < 2 ^ 32" "msg = [] \<or> hd msg \<noteq> CHR '' ''"
  shows "parse_line (decimal n @ '' '' @ msg) = (of_nat n, msg) \<and> unat (of_nat n :: u32) = n"
proof -
  have "strtoul (decimal n @ '' '' @ msg) = (n, '' '' @ msg)"
    using assms(1) by (intro strtoul_decimal) (auto simp: is_digit_def)
  moreover have "dropWhile (\<lambda>c. c = CHR '' '') msg = msg" using assms(2) by (cases msg) auto
  ultimately show ?thesis
    using assms(1) by (simp add: parse_line_def unat_of_nat take_bit_nat_eq_self)
qed

section \<open>Start and clean-up\<close>

text \<open>\<^verbatim>\<open>get_timestamp_ms\<close> on seconds and microseconds; \<^verbatim>\<open>snprintf\<close> cuts the text to the buffer.\<close>

definition get_timestamp_ms :: "nat \<Rightarrow> nat \<Rightarrow> nat \<Rightarrow> string" where
  "get_timestamp_ms tv_sec tv_usec buflen = c_truncate buflen (decimal (tv_sec * 1000 + tv_usec div 1000) @ '' ms'')"

lemma length_decimal: "n < 10 ^ Suc k \<Longrightarrow> length (decimal n) \<le> Suc k"
proof (induction k arbitrary: n)
  case 0
  then show ?case by (subst decimal.simps) simp
next
  case (Suc k)
  have "n div 10 < 10 ^ Suc k" using Suc.prems by (simp add: less_mult_imp_div_less)
  from Suc.IH [OF this] show ?case by (subst decimal.simps) simp
qed

lemma timestamp_fits:
  assumes "tv_sec < 10 ^ 15" "tv_usec < 1000000"
  shows "get_timestamp_ms tv_sec tv_usec 64 = decimal (tv_sec * 1000 + tv_usec div 1000) @ '' ms''"
proof -
  have "tv_usec div 1000 < 1000" using assms(2) by simp
  then have "tv_sec * 1000 + tv_usec div 1000 < 10 ^ Suc 18" using assms(1) by simp
  from length_decimal [OF this] show ?thesis by (simp add: get_timestamp_ms_def c_truncate_def)
qed

text \<open>What the process holds, and the descriptors of T1 and the receivers once they are open.\<close>

datatype ef_block = Efd_array | Rx_threads | Rx_args

record ef_res =
  shm :: bool
  efds :: "nat set"
  blocks :: "ef_block set"

text \<open>The eventfds of the receivers from number \<open>k\<close> on; \<open>None\<close> when a call fails.\<close>

fun open_receivers :: "(nat \<Rightarrow> nat option) \<Rightarrow> nat \<Rightarrow> nat \<Rightarrow> ef_res \<Rightarrow> nat list option \<times> ef_res" where
  "open_receivers efd k 0 r = (Some [], r)"
| "open_receivers efd k (Suc n) r =
     (case efd k of
        None \<Rightarrow> (None, r)
      | Some d \<Rightarrow> (case open_receivers efd (k + 1) n (r\<lparr>efds := insert d (efds r)\<rparr>) of
            (None, q) \<Rightarrow> (None, q)
          | (Some ds, q) \<Rightarrow> (Some (d # ds), q)))"

text \<open>The first part of \<^verbatim>\<open>main_impl\<close>: the exit code, or the descriptors of T1 and the receivers.\<close>

definition ef_setup :: "nat \<Rightarrow> bool \<Rightarrow> (nat \<Rightarrow> nat option) \<Rightarrow> (ef_block \<Rightarrow> bool) \<Rightarrow> ef_res \<Rightarrow> (int + (nat \<times> nat list)) \<times> ef_res" where
  "ef_setup n mmap_ok efd calloc_ok r =
     (if \<not> mmap_ok then (Inl 1, r)
      else (let r1 = r\<lparr>shm := True\<rparr> in
        case efd 0 of
          None \<Rightarrow> (Inl 1, r1)
        | Some d \<Rightarrow> (let r2 = r1\<lparr>efds := insert d (efds r1)\<rparr> in
            if \<not> calloc_ok Efd_array then (Inl 1, r2)
            else
              (case open_receivers efd 1 n (r2\<lparr>blocks := insert Efd_array (blocks r2)\<rparr>) of
                 (None, r3) \<Rightarrow> (Inl 1, r3)
               | (Some ds, r3) \<Rightarrow>
                   (let r4 = r3\<lparr>blocks := blocks r3 \<union> {b \<in> {Rx_threads, Rx_args}. calloc_ok b}\<rparr>
                    in if \<not> calloc_ok Rx_threads \<or> \<not> calloc_ok Rx_args then (Inl 1, r4) else (Inr (d, ds), r4))))))"

definition ef_cleanup :: "nat \<times> nat list \<Rightarrow> ef_res \<Rightarrow> ef_res" where
  "ef_cleanup fds r = r\<lparr>shm := False, efds := efds r - {fst fds} - set (snd fds), blocks := blocks r - {Efd_array}\<rparr>"

lemma open_receivers_fds:
  "open_receivers efd k n r = (Some ds, q) \<Longrightarrow> q = r\<lparr>efds := efds r \<union> set ds\<rparr> \<and> length ds = n \<and> (\<forall>i < n. efd (k + i) = Some (ds ! i))"
proof (induction n arbitrary: k r ds)
  case (Suc n)
  from Suc.prems obtain d ds' where d: "efd k = Some d" "ds = d # ds'"
    "open_receivers efd (k + 1) n (r\<lparr>efds := insert d (efds r)\<rparr>) = (Some ds', q)"
    by (auto split: option.splits prod.splits)
  from Suc.IH [OF d(3)] d(1,2) show ?case by (auto simp: less_Suc_eq_0_disj)
qed simp

text \<open>
  When the start succeeds, the clean-up closes the descriptors and releases the shared memory and the array; the two arrays for the
  threads are never freed. A failure of the start returns 1 and releases nothing of what was acquired before it.
\<close>

lemma ef_setup_cleanup:
  assumes "ef_setup n mmap_ok efd calloc_ok r = (Inr (d, ds), q)" "\<not> shm r" "blocks r = {}" "\<forall>k x. efd k = Some x \<longrightarrow> x \<notin> efds r"
  shows "length ds = n \<and> shm q \<and> efds q = efds r \<union> insert d (set ds) \<and> ef_cleanup (d, ds) q = r\<lparr>blocks := {Rx_threads, Rx_args}\<rparr>"
proof -
  define r2 where "r2 = r\<lparr>shm := True, efds := insert d (efds r), blocks := {Efd_array}\<rparr>"
  have ok: "efd 0 = Some d" "calloc_ok Rx_threads" "calloc_ok Rx_args"
    using assms(1) by (auto simp: ef_setup_def Let_def split: if_splits option.splits prod.splits)
  then have both: "{b \<in> {Rx_threads, Rx_args}. calloc_ok b} = {Rx_threads, Rx_args}" by auto
  obtain r3 where r3: "open_receivers efd 1 n r2 = (Some ds, r3)" "q = r3\<lparr>blocks := blocks r3 \<union> {Rx_threads, Rx_args}\<rparr>"
    using assms(1,3) ok(1) unfolding ef_setup_def both Let_def r2_def by (auto split: if_splits option.splits prod.splits)
  note O = open_receivers_fds [OF r3(1)]
  have q: "q = r\<lparr>shm := True, efds := insert d (efds r) \<union> set ds, blocks := {Efd_array, Rx_threads, Rx_args}\<rparr>"
    using O by (simp add: r3(2) r2_def insert_commute)
  have "x \<notin> efds r" if "x \<in> set ds" for x using that O assms(4) by (metis in_set_conv_nth)
  moreover have "d \<notin> efds r" using ok(1) assms(4) by blast
  ultimately have "(insert d (efds r) \<union> set ds) - {d} - set ds = efds r" by blast
  then have "ef_cleanup (d, ds) q = r\<lparr>blocks := {Rx_threads, Rx_args}\<rparr>"
    using assms(2) by (auto simp: ef_cleanup_def q intro!: ef_res.equality)
  then show ?thesis using O q by auto
qed

text \<open>
  The clean-up starts while a receiver may still have to signal its acknowledgement to T1, on a descriptor that is then closed.
\<close>

lemma eventfd_cleanup_early:
  "\<exists>s. ef_step\<^sup>*\<^sup>* (ef_start 2 [''3 hi'', ''exit'']) s \<and> t1 s = TDone \<and> rpc s = [RWait, RSignal]"
proof -
  let ?es = "replicate 4 None @ replicate 5 (Some 0) @ replicate 4 (Some 1) @ replicate 3 None"
  obtain u where u: "ef_exec ?es (ef_start 2 [''3 hi'', ''exit'']) = Some u" "t1 u = TDone" "rpc u = [RWait, RSignal]"
    by (simp add: ef_eval two_receivers numeral_eq_Suc)
  from ef_exec_steps [OF u(1)] u show ?thesis by blast
qed

end
