(* ===== verification/Gpio.thy ===== *)
theory Gpio
  imports Prelude
begin

text \<open>
  Memory-mapped GPIO of the AM335x, \<^verbatim>\<open>lesson_10/code_examples/01_pin_config/01_pin_config.c\<close>. The registers are
  32 bit words behind the accesses \<open>rd\<close> and \<open>wr\<close>, which are parameters: what the hardware does on a
  write is stated by \<open>gpio_laws\<close> (the set and clear registers change the output register bit by bit,
  the other registers are storage). A sleep records the level of the pin and its length, so the
  patterns have a waveform. Interrupted sleeps and messages other than the register values are not modelled.
\<close>

unbundle bit_operations_syntax

section \<open>Registers\<close>

datatype region = GPIO_MAP nat | PINMUX_MAP

definition GPIO_OE :: u32 where "GPIO_OE = 0x134"
definition GPIO_DATAIN :: u32 where "GPIO_DATAIN = 0x138"
definition GPIO_DATAOUT :: u32 where "GPIO_DATAOUT = 0x13C"
definition GPIO_CLEARDATAOUT :: u32 where "GPIO_CLEARDATAOUT = 0x190"
definition GPIO_SETDATAOUT :: u32 where "GPIO_SETDATAOUT = 0x194"
definition P9_12_GPIO_BANK :: nat where "P9_12_GPIO_BANK = 1"
definition P9_12_GPIO_PIN :: nat where "P9_12_GPIO_PIN = 28"
definition P9_12_PINMUX_OFFSET :: u32 where "P9_12_PINMUX_OFFSET = 0x878"
definition MAP_MASK :: u32 where "MAP_MASK = 4095"

lemmas register_defs = GPIO_OE_def GPIO_DATAIN_def GPIO_DATAOUT_def GPIO_CLEARDATAOUT_def GPIO_SETDATAOUT_def

lemma registers_distinct [simp]:
  "GPIO_OE \<noteq> GPIO_DATAOUT" "GPIO_DATAOUT \<noteq> GPIO_OE" "GPIO_OE \<noteq> GPIO_DATAIN" "GPIO_DATAIN \<noteq> GPIO_OE"
  "GPIO_OE \<noteq> GPIO_SETDATAOUT" "GPIO_OE \<noteq> GPIO_CLEARDATAOUT" "GPIO_DATAOUT \<noteq> GPIO_DATAIN"
  "GPIO_CLEARDATAOUT \<noteq> GPIO_SETDATAOUT" "GPIO_SETDATAOUT \<noteq> GPIO_CLEARDATAOUT"
  by (simp_all add: register_defs)

record 'h mmio =
  rd :: "region \<Rightarrow> u32 \<Rightarrow> 'h \<Rightarrow> u32"
  wr :: "region \<Rightarrow> u32 \<Rightarrow> u32 \<Rightarrow> 'h \<Rightarrow> 'h"

record 'h gst =
  hw :: 'h
  waveform :: "(bool \<times> int) list"

section \<open>Operations\<close>

definition pin_bit :: "nat \<Rightarrow> u32" where
  "pin_bit pin = push_bit pin 1"

definition configure_pin :: "'h mmio \<Rightarrow> u32 \<Rightarrow> u32 \<Rightarrow> 'h gst \<Rightarrow> 'h gst" where
  "configure_pin m offset mode s =
     (let addr = offset AND MAP_MASK;
          v0 = rd m PINMUX_MAP addr (hw s);
          v1 = v0 AND NOT 7;
          v2 = v1 OR mode;
          v3 = v2 OR push_bit 5 1;
          v4 = v3 OR push_bit 4 1
      in s\<lparr>hw := wr m PINMUX_MAP addr v4 (hw s)\<rparr>)"

definition configure_gpio_direction :: "'h mmio \<Rightarrow> nat \<Rightarrow> nat \<Rightarrow> bool \<Rightarrow> 'h gst \<Rightarrow> 'h gst" where
  "configure_gpio_direction m bank pin is_input s =
     (let reg_value = rd m (GPIO_MAP bank) GPIO_OE (hw s);
          v = (if is_input then reg_value OR pin_bit pin else reg_value AND NOT (pin_bit pin))
      in s\<lparr>hw := wr m (GPIO_MAP bank) GPIO_OE v (hw s)\<rparr>)"

definition set_gpio_value :: "'h mmio \<Rightarrow> nat \<Rightarrow> nat \<Rightarrow> bool \<Rightarrow> 'h gst \<Rightarrow> 'h gst" where
  "set_gpio_value m bank pin v s =
     (if v then s\<lparr>hw := wr m (GPIO_MAP bank) GPIO_SETDATAOUT (pin_bit pin) (hw s)\<rparr>
      else s\<lparr>hw := wr m (GPIO_MAP bank) GPIO_CLEARDATAOUT (pin_bit pin) (hw s)\<rparr>)"

definition get_gpio_value :: "'h mmio \<Rightarrow> nat \<Rightarrow> nat \<Rightarrow> 'h gst \<Rightarrow> bool" where
  "get_gpio_value m bank pin s \<longleftrightarrow> rd m (GPIO_MAP bank) GPIO_DATAIN (hw s) AND pin_bit pin \<noteq> 0"

definition get_gpio_output :: "'h mmio \<Rightarrow> nat \<Rightarrow> nat \<Rightarrow> 'h gst \<Rightarrow> bool" where
  "get_gpio_output m bank pin s \<longleftrightarrow> rd m (GPIO_MAP bank) GPIO_DATAOUT (hw s) AND pin_bit pin \<noteq> 0"

definition toggle_gpio :: "'h mmio \<Rightarrow> nat \<Rightarrow> nat \<Rightarrow> 'h gst \<Rightarrow> 'h gst" where
  "toggle_gpio m bank pin s = set_gpio_value m bank pin (\<not> get_gpio_output m bank pin s) s"

text \<open>Sleeping \<open>us\<close> microseconds while the pin has its level.\<close>

definition usleep :: "'h mmio \<Rightarrow> nat \<Rightarrow> nat \<Rightarrow> int \<Rightarrow> 'h gst \<Rightarrow> 'h gst" where
  "usleep m bank pin us s = s\<lparr>waveform := waveform s @ [(get_gpio_output m bank pin s, us)]\<rparr>"

text \<open>\<^verbatim>\<open>nanosleep\<close> refuses a negative or unnormalised time and then does not sleep.\<close>

definition nanosleep :: "'h mmio \<Rightarrow> nat \<Rightarrow> nat \<Rightarrow> int \<Rightarrow> int \<Rightarrow> 'h gst \<Rightarrow> 'h gst" where
  "nanosleep m bank pin tv_sec tv_nsec s =
     (if tv_sec < 0 \<or> tv_nsec < 0 \<or> tv_nsec > 999999999 then s
      else usleep m bank pin (tv_sec * 1000000 + tv_nsec div 1000) s)"

primrec blink_loop :: "nat \<Rightarrow> 'h mmio \<Rightarrow> nat \<Rightarrow> nat \<Rightarrow> int \<times> int \<Rightarrow> int \<times> int \<Rightarrow> 'h gst \<Rightarrow> 'h gst" where
  "blink_loop 0 m bank pin on_time off_time s = s"
| "blink_loop (Suc n) m bank pin on_time off_time s =
     (let s1 = set_gpio_value m bank pin True s;
          s2 = nanosleep m bank pin (fst on_time) (snd on_time) s1;
          s3 = set_gpio_value m bank pin False s2;
          s4 = nanosleep m bank pin (fst off_time) (snd off_time) s3
      in blink_loop n m bank pin on_time off_time s4)"

definition blink_pattern :: "'h mmio \<Rightarrow> nat \<Rightarrow> nat \<Rightarrow> int \<Rightarrow> int \<Rightarrow> int \<Rightarrow> 'h gst \<Rightarrow> 'h gst" where
  "blink_pattern m bank pin cycles on_ms off_ms s =
     blink_loop (nat cycles) m bank pin (on_ms sdiv 1000, (on_ms smod 1000) * 1000000)
       (off_ms sdiv 1000, (off_ms smod 1000) * 1000000) s"

text \<open>One letter of the SOS pattern: three pulses.\<close>

primrec pulses :: "nat \<Rightarrow> 'h mmio \<Rightarrow> nat \<Rightarrow> nat \<Rightarrow> int \<Rightarrow> 'h gst \<Rightarrow> 'h gst" where
  "pulses 0 m bank pin us s = s"
| "pulses (Suc n) m bank pin us s =
     pulses n m bank pin us
       (usleep m bank pin 200000 (set_gpio_value m bank pin False
          (usleep m bank pin us (set_gpio_value m bank pin True s))))"

definition sos_pattern :: "'h mmio \<Rightarrow> nat \<Rightarrow> nat \<Rightarrow> 'h gst \<Rightarrow> 'h gst" where
  "sos_pattern m bank pin s =
     (let s1 = pulses 3 m bank pin 200000 s;
          s2 = usleep m bank pin 600000 s1;
          s3 = pulses 3 m bank pin 600000 s2;
          s4 = usleep m bank pin 600000 s3;
          s5 = pulses 3 m bank pin 200000 s4
      in usleep m bank pin 1000000 s5)"

text \<open>The hardware part of \<^verbatim>\<open>main\<close>.\<close>

definition gpio_main :: "'h mmio \<Rightarrow> 'h gst \<Rightarrow> 'h gst" where
  "gpio_main m s =
     (let b = P9_12_GPIO_BANK; p = P9_12_GPIO_PIN;
          s1 = configure_pin m P9_12_PINMUX_OFFSET 7 s;
          s2 = configure_gpio_direction m b p False s1;
          s3 = blink_pattern m b p 5 500 500 s2;
          s4 = blink_pattern m b p 10 100 100 s3;
          s5 = blink_pattern m b p 3 800 200 s4;
          s6 = sos_pattern m b p s5
      in set_gpio_value m b p False s6)"

text \<open>
  \<^verbatim>\<open>map_memory\<close> and \<^verbatim>\<open>unmap_memory\<close>, on the open descriptors and mapped regions of the process.
  \<open>mmap_ok\<close> says which calls succeed.
\<close>

record mem_proc =
  open_fds :: "fd set"
  mapped :: "region set"

definition all_regions :: "region set" where
  "all_regions = {GPIO_MAP 0, GPIO_MAP 1, GPIO_MAP 2, GPIO_MAP 3, PINMUX_MAP}"

definition map_memory :: "fd \<Rightarrow> (region \<Rightarrow> bool) \<Rightarrow> mem_proc \<Rightarrow> int \<times> mem_proc" where
  "map_memory fd mmap_ok p =
     (if fd < 0 then (-1, p)
      else
        (let p1 = p\<lparr>open_fds := insert fd (open_fds p), mapped := mapped p \<union> {r \<in> all_regions. mmap_ok r}\<rparr>
         in if \<not> mmap_ok (GPIO_MAP 0) \<or> \<not> mmap_ok (GPIO_MAP 1) \<or> \<not> mmap_ok (GPIO_MAP 2) \<or>
               \<not> mmap_ok (GPIO_MAP 3) \<or> \<not> mmap_ok PINMUX_MAP
            then (-1, p1\<lparr>open_fds := open_fds p1 - {fd}\<rparr>) else (0, p1)))"

definition unmap_memory :: "fd \<Rightarrow> mem_proc \<Rightarrow> mem_proc" where
  "unmap_memory fd p = p\<lparr>mapped := mapped p - all_regions, open_fds := open_fds p - {fd}\<rparr>"

section \<open>The hardware\<close>

text \<open>The registers a write may change; the data-in register follows the pins.\<close>

fun affected :: "region \<Rightarrow> u32 \<Rightarrow> (region \<times> u32) set" where
  "affected (GPIO_MAP b) off =
     (if off = GPIO_SETDATAOUT \<or> off = GPIO_CLEARDATAOUT
      then {(GPIO_MAP b, GPIO_DATAOUT), (GPIO_MAP b, GPIO_DATAIN),
            (GPIO_MAP b, GPIO_SETDATAOUT), (GPIO_MAP b, GPIO_CLEARDATAOUT)}
      else {(GPIO_MAP b, off), (GPIO_MAP b, GPIO_DATAIN)})"
| "affected PINMUX_MAP off = {(PINMUX_MAP, off)}"

definition gpio_laws :: "'h mmio \<Rightarrow> bool" where
  "gpio_laws m \<longleftrightarrow>
     (\<forall>b v h. rd m (GPIO_MAP b) GPIO_DATAOUT (wr m (GPIO_MAP b) GPIO_SETDATAOUT v h)
        = rd m (GPIO_MAP b) GPIO_DATAOUT h OR v) \<and>
     (\<forall>b v h. rd m (GPIO_MAP b) GPIO_DATAOUT (wr m (GPIO_MAP b) GPIO_CLEARDATAOUT v h)
        = rd m (GPIO_MAP b) GPIO_DATAOUT h AND NOT v) \<and>
     (\<forall>b v h. rd m (GPIO_MAP b) GPIO_OE (wr m (GPIO_MAP b) GPIO_OE v h) = v) \<and>
     (\<forall>off v h. rd m PINMUX_MAP off (wr m PINMUX_MAP off v h) = v) \<and>
     (\<forall>r off r' off' v h. (r', off') \<notin> affected r off \<longrightarrow> rd m r' off' (wr m r off v h) = rd m r' off' h)"

lemma gpio_lawsD:
  assumes "gpio_laws m"
  shows "rd m (GPIO_MAP b) GPIO_DATAOUT (wr m (GPIO_MAP b) GPIO_SETDATAOUT v h) = rd m (GPIO_MAP b) GPIO_DATAOUT h OR v"
    "rd m (GPIO_MAP b) GPIO_DATAOUT (wr m (GPIO_MAP b) GPIO_CLEARDATAOUT v h) = rd m (GPIO_MAP b) GPIO_DATAOUT h AND NOT v"
    "rd m (GPIO_MAP b) GPIO_OE (wr m (GPIO_MAP b) GPIO_OE v h) = v"
    "rd m PINMUX_MAP off (wr m PINMUX_MAP off v h) = v"
    "(r', off') \<notin> affected r off \<Longrightarrow> rd m r' off' (wr m r off v h) = rd m r' off' h"
  using assms by (auto simp: gpio_laws_def)

section \<open>Effects of the operations\<close>

abbreviation dataout :: "'h mmio \<Rightarrow> nat \<Rightarrow> 'h gst \<Rightarrow> u32" where
  "dataout m b s \<equiv> rd m (GPIO_MAP b) GPIO_DATAOUT (hw s)"

lemma output_bit: "pin < 32 \<Longrightarrow> get_gpio_output m b pin s \<longleftrightarrow> bit (dataout m b s) pin"
  by (simp add: get_gpio_output_def pin_bit_def push_bit_of_1 and_exp_eq_0_iff_not_bit)

lemma bit_pin: "q < 32 \<Longrightarrow> bit (pin_bit pin) q \<longleftrightarrow> q = pin"
  by (auto simp: pin_bit_def push_bit_of_1 bit_simps)

text \<open>The registers outside the output registers of the bank, and the other pins of the bank, are kept.\<close>

definition keeps :: "'h mmio \<Rightarrow> nat \<Rightarrow> nat \<Rightarrow> 'h gst \<Rightarrow> 'h gst \<Rightarrow> bool" where
  "keeps m b pin s t \<longleftrightarrow>
     (\<forall>r off. (r, off) \<notin> affected (GPIO_MAP b) GPIO_SETDATAOUT \<longrightarrow> rd m r off (hw t) = rd m r off (hw s)) \<and>
     (\<forall>q < 32. q \<noteq> pin \<longrightarrow> bit (dataout m b t) q = bit (dataout m b s) q)"

lemma keeps_refl [simp]: "keeps m b pin s s"
  by (simp add: keeps_def)

lemma keeps_trans [trans]: "keeps m b pin s t \<Longrightarrow> keeps m b pin t u \<Longrightarrow> keeps m b pin s u"
  by (simp add: keeps_def)

lemma set_gpio_value_effect:
  assumes "gpio_laws m" "pin < 32"
  shows "get_gpio_output m b pin (set_gpio_value m b pin v s) = v" "keeps m b pin s (set_gpio_value m b pin v s)"
    "waveform (set_gpio_value m b pin v s) = waveform s"
proof -
  note L = gpio_lawsD [OF assms(1)]
  have d: "dataout m b (set_gpio_value m b pin v s) = (if v then dataout m b s OR pin_bit pin else dataout m b s AND NOT (pin_bit pin))"
    by (simp add: set_gpio_value_def L(1,2))
  show "get_gpio_output m b pin (set_gpio_value m b pin v s) = v"
    using assms(2) by (simp add: output_bit d bit_simps bit_pin)
  have "rd m r off (hw (set_gpio_value m b pin v s)) = rd m r off (hw s)"
    if "(r, off) \<notin> affected (GPIO_MAP b) GPIO_SETDATAOUT" for r off
    using that L(5) [of r off "GPIO_MAP b" GPIO_SETDATAOUT] L(5) [of r off "GPIO_MAP b" GPIO_CLEARDATAOUT]
    by (simp add: set_gpio_value_def)
  moreover have "bit (dataout m b (set_gpio_value m b pin v s)) q = bit (dataout m b s) q" if "q < 32" "q \<noteq> pin" for q
    using that by (simp add: d bit_simps bit_pin)
  ultimately show "keeps m b pin s (set_gpio_value m b pin v s)" by (simp add: keeps_def)
qed (simp add: set_gpio_value_def)

lemma usleep_effect:
  "hw (usleep m b pin us s) = hw s" "waveform (usleep m b pin us s) = waveform s @ [(get_gpio_output m b pin s, us)]"
  "get_gpio_output m b pin (usleep m b pin us s) = get_gpio_output m b pin s" "keeps m b pin s (usleep m b pin us s)"
  by (simp_all add: usleep_def get_gpio_output_def keeps_def)

definition pattern :: "nat \<Rightarrow> int \<Rightarrow> int \<Rightarrow> (bool \<times> int) list" where
  "pattern n on off = concat (replicate n [(True, on), (False, off)])"

text \<open>One pulse: high for \<open>on\<close>, low for \<open>off\<close>.\<close>

lemma pulse_effect:
  fixes on off :: int and b :: nat and s :: "'h gst"
  assumes "gpio_laws m" "pin < 32"
  defines "t \<equiv> usleep m b pin off (set_gpio_value m b pin False (usleep m b pin on (set_gpio_value m b pin True s)))"
  shows "waveform t = waveform s @ [(True, on), (False, off)]" "\<not> get_gpio_output m b pin t" "keeps m b pin s t"
proof -
  note S = set_gpio_value_effect [OF assms(1,2)]
  show "waveform t = waveform s @ [(True, on), (False, off)]" "\<not> get_gpio_output m b pin t"
    by (simp_all add: t_def usleep_effect S)
  show "keeps m b pin s t"
    unfolding t_def using S(2) usleep_effect(4) keeps_trans by metis
qed

lemma pulses_effect:
  assumes "gpio_laws m" "pin < 32"
  shows "waveform (pulses n m b pin us s) = waveform s @ pattern n us 200000 \<and> keeps m b pin s (pulses n m b pin us s)
    \<and> (0 < n \<or> \<not> get_gpio_output m b pin s \<longrightarrow> \<not> get_gpio_output m b pin (pulses n m b pin us s))"
proof (induction n arbitrary: s)
  case 0
  then show ?case by (simp add: pattern_def)
next
  case (Suc n)
  let ?t = "usleep m b pin 200000 (set_gpio_value m b pin False (usleep m b pin us (set_gpio_value m b pin True s)))"
  note P = pulse_effect [OF assms, where b = b and off = 200000 and on = us and s = s]
  show ?case
    using Suc.IH [of ?t] P keeps_trans [OF P(3)] by (simp add: pattern_def)
qed

lemma nanosleep_ms:
  assumes "0 \<le> ms"
  shows "nanosleep m b pin (ms sdiv 1000) ((ms smod 1000) * 1000000) s = usleep m b pin (ms * 1000) s"
proof -
  have "ms div 1000 * 1000 + ms mod 1000 = ms" by simp
  then have eq: "1000 * (ms mod 1000) + ms div 1000 * 1000000 = ms * 1000" by linarith
  then show ?thesis
    using assms by (simp add: nanosleep_def pos_imp_zdiv_nonneg_iff not_less add.commute)
qed

lemma blink_loop_effect:
  fixes on off :: int and b :: nat
  assumes "gpio_laws m" "pin < 32" "0 \<le> on" "0 \<le> off"
  defines "f \<equiv> \<lambda>n. blink_loop n m b pin (on sdiv 1000, (on smod 1000) * 1000000) (off sdiv 1000, (off smod 1000) * 1000000)"
  shows "waveform (f n s) = waveform s @ pattern n (on * 1000) (off * 1000) \<and> keeps m b pin s (f n s)
    \<and> (0 < n \<or> \<not> get_gpio_output m b pin s \<longrightarrow> \<not> get_gpio_output m b pin (f n s))"
proof (induction n arbitrary: s)
  case 0
  then show ?case by (simp add: pattern_def f_def)
next
  case (Suc n)
  let ?t = "usleep m b pin (off * 1000) (set_gpio_value m b pin False (usleep m b pin (on * 1000) (set_gpio_value m b pin True s)))"
  note P = pulse_effect [OF assms(1,2), where b = b and off = "off * 1000" and on = "on * 1000" and s = s]
  have "f (Suc n) s = f n ?t"
    unfolding f_def by (simp only: blink_loop.simps Let_def fst_conv snd_conv nanosleep_ms [OF assms(3)] nanosleep_ms [OF assms(4)])
  then show ?case
    using Suc.IH [of ?t] P keeps_trans [OF P(3)] by (simp add: pattern_def)
qed

lemma blink_pattern_effect:
  assumes "gpio_laws m" "pin < 32" "0 \<le> on_ms" "0 \<le> off_ms"
  shows "waveform (blink_pattern m b pin cycles on_ms off_ms s) = waveform s @ pattern (nat cycles) (on_ms * 1000) (off_ms * 1000)"
    "keeps m b pin s (blink_pattern m b pin cycles on_ms off_ms s)"
    "0 < cycles \<Longrightarrow> \<not> get_gpio_output m b pin (blink_pattern m b pin cycles on_ms off_ms s)"
  using blink_loop_effect [OF assms, of "nat cycles" b s] by (auto simp: blink_pattern_def)

section \<open>Properties\<close>

text \<open>
  \<^verbatim>\<open>blink_pattern\<close> produces exactly \<open>cycles\<close> pulses, high for \<open>on_ms\<close> and low for \<open>off_ms\<close> milliseconds, for
  every non-negative time; it leaves the pin low if it ran, and changes no other pin and no register
  outside the output registers of its bank.
\<close>

lemma blink_pattern_waveform:
  assumes "gpio_laws m" "pin < 32" "0 \<le> on_ms" "0 \<le> off_ms"
  shows "waveform (blink_pattern m b pin cycles on_ms off_ms s)
      = waveform s @ concat (replicate (nat cycles) [(True, on_ms * 1000), (False, off_ms * 1000)])
    \<and> keeps m b pin s (blink_pattern m b pin cycles on_ms off_ms s)
    \<and> (0 < cycles \<longrightarrow> \<not> get_gpio_output m b pin (blink_pattern m b pin cycles on_ms off_ms s))"
  using blink_pattern_effect [OF assms, where b = b and cycles = cycles and s = s] by (simp add: pattern_def)

text \<open>A memory that behaves as the AM335x registers do.\<close>

definition ex_mmio :: "(region \<Rightarrow> u32 \<Rightarrow> u32) mmio" where
  "ex_mmio = \<lparr>rd = (\<lambda>r off h. h r off),
     wr = (\<lambda>r off v h. if r \<noteq> PINMUX_MAP \<and> off = GPIO_SETDATAOUT then h(r := (h r)(GPIO_DATAOUT := h r GPIO_DATAOUT OR v))
        else if r \<noteq> PINMUX_MAP \<and> off = GPIO_CLEARDATAOUT then h(r := (h r)(GPIO_DATAOUT := h r GPIO_DATAOUT AND NOT v))
        else h(r := (h r)(off := v)))\<rparr>"

lemma ex_mmio_laws: "gpio_laws ex_mmio"
proof -
  have frame: "rd ex_mmio r' off' (wr ex_mmio r off v h) = rd ex_mmio r' off' h" if "(r', off') \<notin> affected r off" for r r' off off' v h
    using that by (cases r; cases r') (auto simp: ex_mmio_def split: if_splits)
  show ?thesis
    unfolding gpio_laws_def using frame by (auto simp: ex_mmio_def register_defs)
qed

definition ex_gst :: "(region \<Rightarrow> u32 \<Rightarrow> u32) gst" where
  "ex_gst = \<lparr>hw = (\<lambda>_ _. 0), waveform = []\<rparr>"

lemma configure_effect:
  fixes s :: "'h gst"
  assumes "gpio_laws m"
  defines "s2 \<equiv> configure_gpio_direction m 1 28 False (configure_pin m P9_12_PINMUX_OFFSET 7 s)"
  shows "rd m PINMUX_MAP 0x878 (hw s2) = (rd m PINMUX_MAP 0x878 (hw s) AND NOT 7) OR 0x37"
    "rd m (GPIO_MAP 1) GPIO_OE (hw s2) = rd m (GPIO_MAP 1) GPIO_OE (hw s) AND NOT (pin_bit 28)"
    "dataout m 1 s2 = dataout m 1 s" "waveform s2 = waveform s"
proof -
  note L = gpio_lawsD [OF assms(1)]
  have off: "P9_12_PINMUX_OFFSET AND MAP_MASK = 0x878" by (simp add: P9_12_PINMUX_OFFSET_def MAP_MASK_def)
  have c: "(7::u32) OR 32 OR 16 = 0x37" by simp
  show "rd m PINMUX_MAP 0x878 (hw s2) = (rd m PINMUX_MAP 0x878 (hw s) AND NOT 7) OR 0x37"
    by (simp add: s2_def configure_gpio_direction_def configure_pin_def Let_def off L or.assoc)
  show "rd m (GPIO_MAP 1) GPIO_OE (hw s2) = rd m (GPIO_MAP 1) GPIO_OE (hw s) AND NOT (pin_bit 28)"
    "dataout m 1 s2 = dataout m 1 s" "waveform s2 = waveform s"
    by (simp_all add: s2_def configure_gpio_direction_def configure_pin_def Let_def off L)
qed

lemma sos_effect:
  assumes "gpio_laws m" "pin < 32"
  shows "waveform (sos_pattern m b pin s) = waveform s @ pattern 3 200000 200000 @ [(False, 600000)]
      @ pattern 3 600000 200000 @ [(False, 600000)] @ pattern 3 200000 200000 @ [(False, 1000000)]"
    "keeps m b pin s (sos_pattern m b pin s)"
proof -
  note P = pulses_effect [OF assms, of 3 b]
  show "waveform (sos_pattern m b pin s) = waveform s @ pattern 3 200000 200000 @ [(False, 600000)]
      @ pattern 3 600000 200000 @ [(False, 600000)] @ pattern 3 200000 200000 @ [(False, 1000000)]"
    by (simp add: sos_pattern_def Let_def usleep_effect P)
  show "keeps m b pin s (sos_pattern m b pin s)"
    unfolding sos_pattern_def Let_def by (meson P usleep_effect(4) keeps_trans)
qed



text \<open>
  \<^verbatim>\<open>toggle_gpio\<close> inverts its pin and no other, and toggling twice restores the output register.
\<close>

lemma toggle_gpio_involution:
  assumes "gpio_laws m" "pin < 32"
  shows "get_gpio_output m b pin (toggle_gpio m b pin s) = (\<not> get_gpio_output m b pin s)
    \<and> keeps m b pin s (toggle_gpio m b pin s)
    \<and> rd m (GPIO_MAP b) GPIO_DATAOUT (hw (toggle_gpio m b pin (toggle_gpio m b pin s)))
        = rd m (GPIO_MAP b) GPIO_DATAOUT (hw s)"
proof -
  note S = set_gpio_value_effect [OF assms, where b = b]
  let ?t = "toggle_gpio m b pin s" and ?u = "toggle_gpio m b pin (toggle_gpio m b pin s)"
  have 1: "get_gpio_output m b pin (toggle_gpio m b pin v) = (\<not> get_gpio_output m b pin v)"
    "keeps m b pin v (toggle_gpio m b pin v)" for v
    by (simp_all add: toggle_gpio_def S)
  have "keeps m b pin s ?u" using 1(2) keeps_trans by blast
  then have "bit (dataout m b ?u) q = bit (dataout m b s) q" if "q < 32" for q
    using 1(1) [of s] 1(1) [of ?t] assms(2) that by (cases "q = pin") (auto simp: keeps_def output_bit)
  then have "dataout m b ?u = dataout m b s" by (intro bit_word_eqI) simp
  with 1 show ?thesis by simp
qed

text \<open>
  Mapping and unmapping: when \<^verbatim>\<open>map_memory\<close> succeeds, \<^verbatim>\<open>unmap_memory\<close> gives back the descriptors and
  mappings of before; when one \<^verbatim>\<open>mmap\<close> fails the descriptor is closed, but the regions that
  were mapped stay mapped.
\<close>

lemma map_memory_resources:
  assumes "fd \<notin> open_fds p" "mapped p \<inter> all_regions = {}" "map_memory fd mmap_ok p = (r, q)"
  shows "if r = 0 then mapped q = mapped p \<union> all_regions \<and> unmap_memory fd q = p
    else r = -1 \<and> open_fds q = open_fds p \<and> mapped q = mapped p \<union> (if fd < 0 then {} else {x \<in> all_regions. mmap_ok x})"
  using assms
  by (auto simp: map_memory_def unmap_memory_def all_regions_def Let_def split: if_splits intro!: mem_proc.equality)

section \<open>The whole program\<close>

text \<open>The three printed register values.\<close>

definition print_gpio_registers :: "'h mmio \<Rightarrow> nat \<Rightarrow> 'h gst \<Rightarrow> u32 \<times> u32 \<times> u32" where
  "print_gpio_registers m bank s =
     (rd m (GPIO_MAP bank) GPIO_OE (hw s), rd m (GPIO_MAP bank) GPIO_DATAIN (hw s), rd m (GPIO_MAP bank) GPIO_DATAOUT (hw s))"

text \<open>The exit code, the register values printed before and after the direction is set, the process and the hardware.\<close>

definition gpio_program ::
  "'h mmio \<Rightarrow> nat \<Rightarrow> fd \<Rightarrow> (region \<Rightarrow> bool) \<Rightarrow> mem_proc \<Rightarrow> 'h gst \<Rightarrow> int \<times> (u32 \<times> u32 \<times> u32) list \<times> mem_proc \<times> 'h gst" where
  "gpio_program m euid fd mmap_ok p s =
     (if euid \<noteq> 0 then (1, [], p, s)
      else
        (let (r, q) = map_memory fd mmap_ok p
         in if r < 0 then (1, [], q, s)
            else
              (let s1 = configure_pin m P9_12_PINMUX_OFFSET 7 s;
                   s2 = configure_gpio_direction m P9_12_GPIO_BANK P9_12_GPIO_PIN False s1
               in (0, [print_gpio_registers m P9_12_GPIO_BANK s1, print_gpio_registers m P9_12_GPIO_BANK s2],
                   unmap_memory fd q, gpio_main m s))))"

text \<open>
  Run as root with every mapping granted, the program gives back its descriptor and mappings and the printed direction registers
  differ in the bit of the pin only; otherwise it exits with 1 and does not touch the hardware.
\<close>

lemma gpio_program_run:
  assumes "gpio_laws m" "fd \<notin> open_fds p" "mapped p \<inter> all_regions = {}"
  shows "if euid = 0 \<and> fst (map_memory fd mmap_ok p) = 0
    then \<exists>a b. gpio_program m euid fd mmap_ok p s = (0, [a, b], p, gpio_main m s) \<and> fst b = fst a AND NOT (pin_bit 28)
    else fst (gpio_program m euid fd mmap_ok p s) = 1 \<and> snd (snd (snd (gpio_program m euid fd mmap_ok p s))) = s"
proof -
  obtain r q where q: "map_memory fd mmap_ok p = (r, q)" by (cases "map_memory fd mmap_ok p")
  note M = map_memory_resources [OF assms(2,3) q]
  have d: "rd m (GPIO_MAP 1) GPIO_OE (hw (configure_gpio_direction m 1 28 False t)) = rd m (GPIO_MAP 1) GPIO_OE (hw t) AND NOT (pin_bit 28)" for t
    using assms(1) by (simp add: configure_gpio_direction_def gpio_laws_def Let_def)
  show ?thesis
  proof (cases "euid = 0 \<and> r = 0")
    case True
    then show ?thesis using M d by (simp add: gpio_program_def q print_gpio_registers_def P9_12_GPIO_BANK_def P9_12_GPIO_PIN_def Let_def)
  next
    case False
    then show ?thesis using M by (auto simp: gpio_program_def q Let_def split: if_splits)
  qed
qed

end
