(* ===== verification/MemAlign.thy ===== *)
theory MemAlign
  imports Prelude
begin

text \<open>
  \<^verbatim>\<open>lesson_11/code_examples/02_mem_align/02_mem_align.c\<close>: allocation of deliberately misaligned memory and the
  three benchmark loops. Addresses and sizes are natural numbers; a block is its start and length, and
  an access outside it is an error. The floating-point operations are a parameter, applied in
  the order the loops apply them; the clock is a parameter too.
\<close>

section \<open>Allocation\<close>

datatype align_error = Header_outside | Index_outside | Null_pointer

text \<open>The pointers stored in memory, by address.\<close>

type_synonym ptr_mem = "nat \<rightharpoonup> nat"

definition is_aligned :: "nat \<Rightarrow> nat \<Rightarrow> bool" where
  "is_aligned ptr alignment \<longleftrightarrow> ptr mod alignment = 0"

text \<open>\<^verbatim>\<open>posix_memalign\<close> fails or returns an address.\<close>

definition aligned_malloc :: "nat option \<Rightarrow> nat option" where
  "aligned_malloc memalign = memalign"

definition unaligned_offset :: "nat \<Rightarrow> nat \<Rightarrow> nat" where
  "unaligned_offset buffer alignment =
     (let offset = alignment - buffer mod alignment
      in if offset = alignment then 1 else offset + 1)"

text \<open>
  The result is \<open>Inl\<close> where the header word at \<^verbatim>\<open>buffer + offset - 8\<close> starts before the block, \<open>Inr None\<close> for
  \<^verbatim>\<open>NULL\<close>.
\<close>

definition unaligned_malloc :: "(nat \<Rightarrow> nat option) \<Rightarrow> nat \<Rightarrow> nat \<Rightarrow> ptr_mem \<Rightarrow> align_error + (nat option \<times> ptr_mem)" where
  "unaligned_malloc malloc sz alignment mem =
     (case malloc (sz + alignment) of
        None \<Rightarrow> Inr (None, mem)
      | Some buffer \<Rightarrow>
          (let offset = unaligned_offset buffer alignment
           in if offset < 8 then Inl Header_outside
              else Inr (Some (buffer + offset), mem(buffer + offset - 8 \<mapsto> buffer))))"

text \<open>The argument of the call of \<^verbatim>\<open>free\<close>, \<open>None\<close> if there is no call.\<close>

definition unaligned_free :: "nat option \<Rightarrow> ptr_mem \<Rightarrow> nat option" where
  "unaligned_free ptr mem = (case ptr of None \<Rightarrow> None | Some p \<Rightarrow> mem (p - 8))"

section \<open>Benchmark loops\<close>

record 'd dops =
  times_101 :: "'d \<Rightarrow> 'd"
  times_2 :: "'d \<Rightarrow> 'd"
  plus_d :: "'d \<Rightarrow> 'd \<Rightarrow> 'd"
  zero_d :: 'd
  ratio_d :: "nat \<Rightarrow> nat \<Rightarrow> 'd"

definition checksum :: "'d dops \<Rightarrow> 'd list \<Rightarrow> 'd" where
  "checksum f xs = foldl (plus_d f) (zero_d f) xs"

fun rmw_loop :: "'d dops \<Rightarrow> nat \<Rightarrow> nat \<Rightarrow> 'd list \<Rightarrow> align_error + 'd list" where
  "rmw_loop f 0 i xs = Inr xs"
| "rmw_loop f (Suc n) i xs =
     (if i < length xs then rmw_loop f n (Suc i) (xs[i := times_101 f (xs ! i)]) else Inl Index_outside)"

definition test_rmw :: "'d dops \<Rightarrow> 'd list \<Rightarrow> nat \<Rightarrow> align_error + ('d list \<times> 'd)" where
  "test_rmw f data n =
     and_then (rmw_loop f n 0 data)
       (\<lambda>xs. if n \<le> length xs then Inr (xs, checksum f (take n xs)) else Inl Index_outside)"

text \<open>\<^verbatim>\<open>for (i = 0; i < limit; i += 4)\<close>, where \<open>limit\<close> is \<^verbatim>\<open>count - 4\<close> computed in \<^verbatim>\<open>size_t\<close>.\<close>

function simd_loop :: "'d dops \<Rightarrow> nat \<Rightarrow> nat \<Rightarrow> 'd list \<Rightarrow> align_error + 'd list" where
  "simd_loop f limit i xs =
     (if i < limit then
        (if i + 3 < length xs then
           simd_loop f limit (i + 4)
             (xs[i := times_2 f (xs ! i), i + 1 := times_2 f (xs ! (i + 1)),
                 i + 2 := times_2 f (xs ! (i + 2)), i + 3 := times_2 f (xs ! (i + 3))])
         else Inl Index_outside)
      else Inr xs)"
  by pat_completeness auto
termination
  by (relation "measure (\<lambda>(f, limit, i, xs). limit - i)") auto

declare simd_loop.simps [simp del]

definition simd_limit :: "nat \<Rightarrow> nat" where
  "simd_limit n = nat ((int n - 4) mod 2 ^ 64)"

definition test_simd_friendly :: "'d dops \<Rightarrow> 'd list \<Rightarrow> nat \<Rightarrow> align_error + ('d list \<times> 'd)" where
  "test_simd_friendly f data n =
     and_then (simd_loop f (simd_limit n) 0 data)
       (\<lambda>xs. if n \<le> length xs then Inr (xs, checksum f (take n xs)) else Inl Index_outside)"

text \<open>\<open>rnd k\<close> is the \<open>k\<close>-th value of \<^verbatim>\<open>rand\<close>.\<close>

definition random_indices :: "(nat \<Rightarrow> nat) \<Rightarrow> nat \<Rightarrow> nat list" where
  "random_indices rnd n = map (\<lambda>k. rnd k mod n) [0..<n]"

fun gather :: "'d list \<Rightarrow> nat list \<Rightarrow> align_error + 'd list" where
  "gather xs [] = Inr []"
| "gather xs (i # is) = (if i < length xs then map_sum id (\<lambda>ys. xs ! i # ys) (gather xs is) else Inl Index_outside)"

definition test_random_access ::
  "'d dops \<Rightarrow> bool \<Rightarrow> (nat \<Rightarrow> nat) \<Rightarrow> 'd list \<Rightarrow> nat \<Rightarrow> align_error + ('d list \<times> 'd)" where
  "test_random_access f malloc_ok rnd data n =
     (if 0 < n \<and> \<not> malloc_ok then Inl Null_pointer
      else and_then (gather data (random_indices rnd n)) (\<lambda>ys. Inr (data, checksum f ys)))"

definition run_test :: "'d dops \<Rightarrow> bool \<Rightarrow> (nat \<Rightarrow> nat) \<Rightarrow> int \<Rightarrow> 'd list \<Rightarrow> nat \<Rightarrow> align_error + ('d list \<times> 'd)" where
  "run_test f malloc_ok rnd test_num data n =
     (if test_num = 0 then test_rmw f data n
      else if test_num = 1 then test_simd_friendly f data n
      else if test_num = 2 then test_random_access f malloc_ok rnd data n
      else Inr (data, zero_d f))"

definition initialize_data :: "'d dops \<Rightarrow> nat \<Rightarrow> 'd list" where
  "initialize_data f n = map (\<lambda>i. ratio_d f i n) [0..<n]"

text \<open>
  One iteration of \<^verbatim>\<open>main\<close>'s inner loop: both arrays are filled, the test runs on the aligned one and
  then on the other; the two checksums.
\<close>

definition bench_iteration ::
  "'d dops \<Rightarrow> bool \<Rightarrow> (nat \<Rightarrow> nat) \<Rightarrow> (nat \<Rightarrow> nat) \<Rightarrow> int \<Rightarrow> nat \<Rightarrow> align_error + ('d \<times> 'd)" where
  "bench_iteration f malloc_ok rnd1 rnd2 test n =
     and_then (run_test f malloc_ok rnd1 test (initialize_data f n) n)
       (\<lambda>(a, aligned_checksum). and_then (run_test f malloc_ok rnd2 test (initialize_data f n) n)
          (\<lambda>(u, unaligned_checksum). Inr (aligned_checksum, unaligned_checksum)))"

section \<open>Allocation is correct\<close>

lemma unaligned_offset_bounds:
  assumes "1 < alignment"
  shows "1 \<le> unaligned_offset buffer alignment" "unaligned_offset buffer alignment \<le> alignment"
    "(buffer + unaligned_offset buffer alignment) mod alignment = 1"
proof -
  let ?r = "buffer mod alignment"
  have r: "?r < alignment" using assms by simp
  show "1 \<le> unaligned_offset buffer alignment" "unaligned_offset buffer alignment \<le> alignment"
    using r assms by (auto simp: unaligned_offset_def Let_def)
  show "(buffer + unaligned_offset buffer alignment) mod alignment = 1"
  proof (cases "?r = 0")
    case True
    then show ?thesis using assms by (simp add: unaligned_offset_def mod_Suc)
  next
    case False
    have "buffer = alignment * (buffer div alignment) + ?r" by simp
    moreover have "unaligned_offset buffer alignment = alignment - ?r + 1"
      using False r by (simp add: unaligned_offset_def Let_def)
    ultimately have "buffer + unaligned_offset buffer alignment = alignment * (buffer div alignment) + ?r + (alignment - ?r + 1)"
      by simp
    also have "\<dots> = alignment * (buffer div alignment + 1) + 1"
      using r by (simp only: distrib_left)
    finally have "buffer + unaligned_offset buffer alignment = alignment * (buffer div alignment + 1) + 1" .
    then show ?thesis using assms by (metis mod_mult_self4 mod_less)
  qed
qed

text \<open>
  When \<^verbatim>\<open>malloc\<close> happens to return an aligned block, the stored pointer does not fit: the header is
  written seven bytes before the block.
\<close>

lemma unaligned_malloc_header_outside:
  assumes "malloc (sz + alignment) = Some buffer" "1 < alignment" "is_aligned buffer alignment"
  shows "unaligned_offset buffer alignment = 1 \<and>
    unaligned_malloc malloc sz alignment mem = Inl Header_outside"
  using assms by (simp add: unaligned_malloc_def unaligned_offset_def is_aligned_def Let_def)



section \<open>The loops\<close>

lemma rmw_loop_effect:
  "i + n \<le> length xs \<Longrightarrow>
     rmw_loop f n i xs = Inr (take i xs @ map (times_101 f) (take n (drop i xs)) @ drop (i + n) xs)"
proof (induction n arbitrary: i xs)
  case 0
  then show ?case by simp
next
  case (Suc n)
  let ?ys = "xs[i := times_101 f (xs ! i)]"
  have "take (Suc i) ?ys = take i xs @ [times_101 f (xs ! i)]" "drop (Suc i) ?ys = drop (Suc i) xs"
    using Suc.prems by (simp_all add: take_Suc_conv_app_nth)
  moreover have "take (Suc n) (drop i xs) = xs ! i # take n (drop (Suc i) xs)"
    using Suc.prems by (simp add: Cons_nth_drop_Suc [symmetric])
  moreover have "drop (Suc i + n) ?ys = drop (i + Suc n) xs" by simp
  ultimately show ?case using Suc.IH [of "Suc i" ?ys] Suc.prems by simp
qed

text \<open>The SIMD loop doubles the blocks of four from \<open>i\<close> on while the index is below the limit.\<close>

lemma simd_loop_effect:
  assumes "length xs = i + 4 * k + r" "limit \<le> i + 4 * k" "k = 0 \<or> i + 4 * (k - 1) < limit"
  shows "simd_loop f limit i xs = Inr (take i xs @ map (times_2 f) (take (4 * k) (drop i xs)) @ drop (i + 4 * k) xs)"
  using assms
proof (induction k arbitrary: i xs)
  case 0
  then show ?case by (subst simd_loop.simps) simp
next
  case (Suc k)
  let ?d = "times_2 f"
  let ?ys = "xs[i := ?d (xs ! i), i + 1 := ?d (xs ! (i + 1)), i + 2 := ?d (xs ! (i + 2)), i + 3 := ?d (xs ! (i + 3))]"
  have i: "i < limit" "i + 3 < length xs" using Suc.prems by auto
  have step: "simd_loop f limit i xs = simd_loop f limit (i + 4) ?ys" using i by (subst simd_loop.simps) simp
  have "simd_loop f limit (i + 4) ?ys =
      Inr (take (i + 4) ?ys @ map ?d (take (4 * k) (drop (i + 4) ?ys)) @ drop (i + 4 + 4 * k) ?ys)"
    using Suc.prems by (intro Suc.IH) auto
  moreover have "take (i + 4) ?ys = take i xs @ map ?d (take 4 (drop i xs))"
  proof (rule nth_equalityI)
    show "length (take (i + 4) ?ys) = length (take i xs @ map ?d (take 4 (drop i xs)))" using i by simp
    show "take (i + 4) ?ys ! j = (take i xs @ map ?d (take 4 (drop i xs))) ! j" if "j < length (take (i + 4) ?ys)" for j
    proof -
      have "j < i \<or> j = i \<or> j = i + 1 \<or> j = i + 2 \<or> j = i + 3" using that i by auto
      then show ?thesis using i that by (auto simp: nth_append nth_list_update)
    qed
  qed
  moreover have "drop (i + 4) ?ys = drop (i + 4) xs" "drop (i + 4 + 4 * k) ?ys = drop (i + 4 * Suc k) xs"
    by (simp_all add: add.assoc)
  moreover have "take (4 * Suc k) (drop i xs) = take 4 (drop i xs) @ take (4 * k) (drop (i + 4) xs)"
    using take_add [of 4 "4 * k" "drop i xs"] by (simp add: add.commute)
  ultimately show ?case by (simp add: step)
qed

text \<open>
  The SIMD loop on \<open>n \<ge> 4\<close> elements stays inside the array and doubles the first
  \<open>4 * ((n - 1) div 4)\<close> elements only, so the last one to four are never processed; with fewer than four
  elements \<^verbatim>\<open>count - 4\<close> wraps around and the loop runs outside the array.
\<close>

lemma simd_loop_range:
  "if 4 \<le> length data \<and> length data < 2 ^ 64 then
     simd_loop f (simd_limit (length data)) 0 data =
       Inr (map (times_2 f) (take (4 * ((length data - 1) div 4)) data) @ drop (4 * ((length data - 1) div 4)) data) \<and>
     4 * ((length data - 1) div 4) < length data
   else length data < 4 \<longrightarrow> test_simd_friendly f data (length data) = Inl Index_outside"
proof (cases "4 \<le> length data \<and> length data < 2 ^ 64")
  case True
  let ?n = "length data" let ?k = "(length data - 1) div 4"
  have "(int ?n - 4) mod 2 ^ 64 = int ?n - 4" using True by simp
  then have lim: "simd_limit ?n = ?n - 4" by (simp add: simd_limit_def nat_diff_distrib)
  have k: "4 * ?k < ?n" "?n \<le> 4 * ?k + 4" using True by linarith+
  have "?k = 0 \<or> 4 * (?k - 1) < ?n - 4" using k by linarith
  with True k show ?thesis
    using simd_loop_effect [of data 0 ?k "?n - 4 * ?k" "?n - 4" f] by (auto simp: lim)
next
  case False
  have "test_simd_friendly f data (length data) = Inl Index_outside" if "length data < 4"
  proof -
    have "0 < simd_limit (length data)"
      using that by (auto simp: simd_limit_def mod_pos_neg_trivial zmod_minus1 less_Suc_eq numeral_eq_Suc)
    then show ?thesis using that by (simp add: test_simd_friendly_def simd_loop.simps)
  qed
  with False show ?thesis by auto
qed

definition ex_dops :: "int dops" where
  "ex_dops = \<lparr>times_101 = \<lambda>x. x, times_2 = \<lambda>x. 2 * x, plus_d = (+), zero_d = 0, ratio_d = \<lambda>i n. int i\<rparr>"

lemma gather_in_range: "\<forall>i \<in> set is. i < length xs \<Longrightarrow> gather xs is = Inr (map ((!) xs) is)"
  by (induction "is") auto

lemma random_indices_range: "i \<in> set (random_indices rnd n) \<Longrightarrow> i < n"
  by (auto simp: random_indices_def)

lemma run_test_in_range:
  assumes "length data = n" "4 \<le> n" "n < 2 ^ 64"
  obtains xs c where "run_test f True rnd test_num data n = Inr (xs, c)"
proof -
  consider "test_num = 0" | "test_num = 1" | "test_num = 2" | "test_num \<notin> {0, 1, 2}" by blast
  then show thesis
  proof cases
    case 1
    then show thesis using that rmw_loop_effect [of 0 n data f] assms(1) by (simp add: run_test_def test_rmw_def)
  next
    case 2
    have "(int n - 4) mod 2 ^ 64 = int n - 4" using assms(2,3) by simp
    then have lim: "simd_limit n = n - 4" by (simp add: simd_limit_def nat_diff_distrib)
    let ?k = "(n - 1) div 4"
    have k: "4 * ?k < n" "n \<le> 4 * ?k + 4" using assms(2) by linarith+
    have "?k = 0 \<or> 4 * (?k - 1) < n - 4" using k by linarith
    then obtain xs where "simd_loop f (simd_limit n) 0 data = Inr xs" "length xs = n"
      using simd_loop_effect [of data 0 ?k "n - 4 * ?k" "n - 4" f] k assms(1) lim by auto
    with 2 that show thesis by (simp add: run_test_def test_simd_friendly_def)
  next
    case 3
    have "gather data (random_indices rnd n) = Inr (map ((!) data) (random_indices rnd n))"
      using gather_in_range random_indices_range assms(1) by blast
    with 3 that show thesis by (simp add: run_test_def test_random_access_def)
  next
    case 4
    then show thesis using that by (simp add: run_test_def)
  qed
qed

text \<open>
  Every test of the benchmark stays inside its array, and for the two deterministic tests the checksums
  of the aligned and the unaligned array are equal. (The random-access test draws new indices for
  each array.)
\<close>

lemma bench_checksums:
  assumes "4 \<le> n" "n < 2 ^ 64"
  shows "\<exists>a u. bench_iteration f True rnd1 rnd2 test n = Inr (a, u) \<and> (test = 0 \<or> test = 1 \<longrightarrow> a = u)"
proof -
  have len: "length (initialize_data f n) = n" by (simp add: initialize_data_def)
  obtain x a where a: "run_test f True rnd1 test (initialize_data f n) n = Inr (x, a)"
    using run_test_in_range [OF len assms] .
  obtain y u where u: "run_test f True rnd2 test (initialize_data f n) n = Inr (y, u)"
    using run_test_in_range [OF len assms] .
  have "a = u" if "test = 0 \<or> test = 1" using a u that by (auto simp: run_test_def)
  with a u show ?thesis by (simp add: bench_iteration_def)
qed

section \<open>main\<close>

definition ARRAY_SIZE :: nat where "ARRAY_SIZE = 50 * 1024 * 1024"
definition NUM_ITERATIONS :: nat where "NUM_ITERATIONS = 5"
definition NUM_TESTS :: nat where "NUM_TESTS = 3"

text \<open>\<^verbatim>\<open>uint64_t\<close> microseconds of a \<^verbatim>\<open>struct timeval\<close>.\<close>

definition get_time_microseconds :: "nat \<times> nat \<Rightarrow> 64 word" where
  "get_time_microseconds tv = of_nat (fst tv) * 1000000 + of_nat (snd tv)"

text \<open>The floating-point operations of the report.\<close>

record 'd rops =
  millis :: "64 word \<Rightarrow> 'd"
  add_r :: "'d \<Rightarrow> 'd \<Rightarrow> 'd"
  zero_r :: 'd
  average :: "'d \<Rightarrow> nat \<Rightarrow> 'd"
  overhead :: "'d \<Rightarrow> 'd \<Rightarrow> 'd"
  abs_diff :: "'d \<Rightarrow> 'd \<Rightarrow> 'd"

definition test_names :: "string list" where
  "test_names = [''Simple RMW'', ''SIMD-friendly'', ''Random Access'']"

text \<open>A printed line: the name, the two average times, the overhead and the difference of the checksums.\<close>

type_synonym 'd bench_line = "string \<times> 'd \<times> 'd \<times> 'd \<times> 'd"

definition print_results :: "'d rops \<Rightarrow> string \<Rightarrow> 'd \<Rightarrow> 'd \<Rightarrow> 'd \<Rightarrow> 'd \<Rightarrow> 'd bench_line" where
  "print_results r name ta tu ca cu = (name, ta, tu, overhead r tu ta, abs_diff r ca cu)"

text \<open>What varies from iteration to iteration: the random numbers of the two runs and the four readings of the clock.\<close>

record bench_env =
  rand_a :: "nat \<Rightarrow> nat"
  rand_u :: "nat \<Rightarrow> nat"
  clock_a :: "(nat \<times> nat) \<times> (nat \<times> nat)"
  clock_u :: "(nat \<times> nat) \<times> (nat \<times> nat)"

definition elapsed :: "(nat \<times> nat) \<times> (nat \<times> nat) \<Rightarrow> 64 word" where
  "elapsed c = get_time_microseconds (snd c) - get_time_microseconds (fst c)"

text \<open>The loop over the iterations with the two total times and the last checksums.\<close>

fun bench_loop :: "'d dops \<Rightarrow> 'd rops \<Rightarrow> bool \<Rightarrow> int \<Rightarrow> nat \<Rightarrow> bench_env list \<Rightarrow> 'd \<times> 'd \<times> 'd \<times> 'd \<Rightarrow> align_error + ('d \<times> 'd \<times> 'd \<times> 'd)" where
  "bench_loop f r ok test n [] acc = Inr acc"
| "bench_loop f r ok test n (e # es) (ta, tu, ca, cu) =
     and_then (bench_iteration f ok (rand_a e) (rand_u e) test n)
       (\<lambda>(a, u). bench_loop f r ok test n es (add_r r ta (millis r (elapsed (clock_a e))), add_r r tu (millis r (elapsed (clock_u e))), a, u))"

definition bench_test :: "'d dops \<Rightarrow> 'd rops \<Rightarrow> bool \<Rightarrow> (nat \<Rightarrow> nat \<Rightarrow> bench_env) \<Rightarrow> nat \<Rightarrow> nat \<Rightarrow> align_error + 'd bench_line" where
  "bench_test f r ok envs n test =
     and_then (bench_loop f r ok (int test) n (map (envs test) [0..<NUM_ITERATIONS]) (zero_r r, zero_r r, zero_r r, zero_r r))
       (\<lambda>(ta, tu, ca, cu). Inr (print_results r (test_names ! test) (average r ta NUM_ITERATIONS) (average r tu NUM_ITERATIONS) ca cu))"

fun bench_tests :: "'d dops \<Rightarrow> 'd rops \<Rightarrow> bool \<Rightarrow> (nat \<Rightarrow> nat \<Rightarrow> bench_env) \<Rightarrow> nat \<Rightarrow> nat list \<Rightarrow> align_error + 'd bench_line list" where
  "bench_tests f r ok envs n [] = Inr []"
| "bench_tests f r ok envs n (t # ts) =
     and_then (bench_test f r ok envs n t) (\<lambda>l. map_sum id (\<lambda>ls. l # ls) (bench_tests f r ok envs n ts))"

text \<open>The exit code, the printed lines and the blocks given to \<^verbatim>\<open>free\<close>.\<close>

definition align_main ::
  "'d dops \<Rightarrow> 'd rops \<Rightarrow> nat option \<Rightarrow> (nat \<Rightarrow> nat option) \<Rightarrow> bool \<Rightarrow> (nat \<Rightarrow> nat \<Rightarrow> bench_env) \<Rightarrow>
   align_error + (int \<times> 'd bench_line list \<times> nat list)" where
  "align_main f r memalign malloc ok envs =
     (let aligned_data = aligned_malloc memalign
      in and_then (unaligned_malloc malloc (ARRAY_SIZE * 8) 64 Map.empty)
        (\<lambda>(unaligned_data, mem).
           case (aligned_data, unaligned_data) of
             (Some a, Some u) \<Rightarrow>
               and_then (bench_tests f r ok envs ARRAY_SIZE [0..<NUM_TESTS])
                 (\<lambda>ls. Inr (0, ls, a # (case unaligned_free (Some u) mem of None \<Rightarrow> [] | Some b \<Rightarrow> [b])))
           | _ \<Rightarrow> Inr (1, [], [])))"

lemma bench_loop_completes:
  assumes "4 \<le> n" "n < 2 ^ 64" "test = 0 \<or> test = 1 \<longrightarrow> fst (snd (snd acc)) = snd (snd (snd acc))"
  shows "\<exists>ta tu a u. bench_loop f r True test n es acc = Inr (ta, tu, a, u) \<and> (test = 0 \<or> test = 1 \<longrightarrow> a = u)"
  using assms(3)
proof (induction es arbitrary: acc)
  case Nil
  then show ?case by (cases acc) auto
next
  case (Cons e es)
  obtain ta tu ca cu where acc: "acc = (ta, tu, ca, cu)" by (cases acc)
  obtain a u where au: "bench_iteration f True (rand_a e) (rand_u e) test n = Inr (a, u)" "test = 0 \<or> test = 1 \<longrightarrow> a = u"
    using bench_checksums [OF assms(1,2), of f "rand_a e" "rand_u e" test] by blast
  show ?case using Cons.IH [of "(add_r r ta (millis r (elapsed (clock_a e))), add_r r tu (millis r (elapsed (clock_u e))), a, u)"] au
    by (simp add: acc)
qed

lemma bench_test_completes:
  assumes "4 \<le> n" "n < 2 ^ 64"
  shows "\<exists>ta tu a u. bench_test f r True envs n test = Inr (print_results r (test_names ! test) ta tu a u) \<and> (test \<le> 1 \<longrightarrow> a = u)"
proof -
  let ?z = "(zero_r r, zero_r r, zero_r r, zero_r r)"
  obtain ta tu a u where l: "bench_loop f r True (int test) n (map (envs test) [0..<NUM_ITERATIONS]) ?z = Inr (ta, tu, a, u)"
    "int test = 0 \<or> int test = 1 \<longrightarrow> a = u"
    using bench_loop_completes [OF assms, of "int test" ?z f r "map (envs test) [0..<NUM_ITERATIONS]"] by auto
  show ?thesis using l by (intro exI) (auto simp: bench_test_def)
qed

text \<open>
  The program runs all tests on both arrays without leaving them, reports equal checksums for the first two, and frees both blocks; when
  an allocation fails it returns 1 at once, without freeing the other block.
\<close>

lemma align_main_completes:
  assumes "malloc (ARRAY_SIZE * 8 + 64) = Some b" "0 < b mod 64" "b mod 64 \<le> 57"
  shows "\<exists>l0 l1 l2. align_main f r (Some a) malloc True envs = Inr (0, [l0, l1, l2], [a, b]) \<and>
     fst l0 = ''Simple RMW'' \<and> fst l1 = ''SIMD-friendly'' \<and> fst l2 = ''Random Access'' \<and>
     (\<exists>x y. snd (snd (snd (snd l0))) = abs_diff r x x \<and> snd (snd (snd (snd l1))) = abs_diff r y y)"
    and "align_main f r None malloc True envs = Inr (1, [], [])"
proof -
  let ?o = "unaligned_offset b 64"
  have "64 - b mod 64 \<noteq> 64" "\<not> 64 - b mod 64 < 7" using assms(2,3) by linarith+
  then have o: "\<not> ?o < 8" by (simp add: unaligned_offset_def Let_def)
  have u: "unaligned_malloc malloc (ARRAY_SIZE * 8) 64 Map.empty = Inr (Some (b + ?o), [b + ?o - 8 \<mapsto> b])"
    using assms(1) o by (simp add: unaligned_malloc_def Let_def)
  then show "align_main f r None malloc True envs = Inr (1, [], [])" by (simp add: align_main_def aligned_malloc_def)
  have n: "4 \<le> ARRAY_SIZE" "ARRAY_SIZE < 2 ^ 64" by (simp_all add: ARRAY_SIZE_def)
  note b = bench_test_completes [OF n, of f r envs]
  from b [of 0] obtain ta0 tu0 x where l0: "bench_test f r True envs ARRAY_SIZE 0 = Inr (print_results r (test_names ! 0) ta0 tu0 x x)" by auto
  from b [of 1] obtain ta1 tu1 y where l1: "bench_test f r True envs ARRAY_SIZE (Suc 0) = Inr (print_results r (test_names ! 1) ta1 tu1 y y)" by auto
  from b [of 2] obtain ta2 tu2 z w where l2: "bench_test f r True envs ARRAY_SIZE 2 = Inr (print_results r (test_names ! 2) ta2 tu2 z w)" by auto
  have t: "[0..<NUM_TESTS] = [0, Suc 0, 2]" by (simp add: NUM_TESTS_def upt_conv_Cons)
  have "align_main f r (Some a) malloc True envs = Inr (0, [print_results r (test_names ! 0) ta0 tu0 x x,
      print_results r (test_names ! 1) ta1 tu1 y y, print_results r (test_names ! 2) ta2 tu2 z w], [a, b])"
    by (simp add: align_main_def aligned_malloc_def u t l0 l1 l2 unaligned_free_def)
  then show "\<exists>l0 l1 l2. align_main f r (Some a) malloc True envs = Inr (0, [l0, l1, l2], [a, b]) \<and>
     fst l0 = ''Simple RMW'' \<and> fst l1 = ''SIMD-friendly'' \<and> fst l2 = ''Random Access'' \<and>
     (\<exists>x y. snd (snd (snd (snd l0))) = abs_diff r x x \<and> snd (snd (snd (snd l1))) = abs_diff r y y)"
    by (simp add: print_results_def test_names_def) blast
qed

end
