(* ===== verification/Fibonacci.thy ===== *)
theory Fibonacci
  imports Prelude
begin

text \<open>
  \<^verbatim>\<open>lesson_9/code_examples/03_co_routines/03_co_routines.c\<close>: Fibonacci numbers by a coroutine, by recursion and by
  iteration, on 64 bit \<^verbatim>\<open>unsigned long\<close>. A coroutine is its program point with its local variables; a
  switch to it runs to the next switch back. The clock and the arithmetic of \<^verbatim>\<open>double\<close> are parameters.
\<close>

definition NUM_FIBONACCI :: int where "NUM_FIBONACCI = 28"

text \<open>The points at which the generator is suspended.\<close>

datatype gen_pc = Gen_start | Gen_first | Gen_second | Gen_loop

record Coroutine =
  pc :: gen_pc
  gen_a :: u64
  gen_b :: u64
  co_value :: u64
  is_done :: bool

text \<open>Run the generator from its suspension point to the next one.\<close>

definition fibonacci_generator :: "Coroutine \<Rightarrow> Coroutine" where
  "fibonacci_generator co =
     (case pc co of
        Gen_start \<Rightarrow> co\<lparr>gen_a := 0, gen_b := 1, co_value := 0, pc := Gen_first\<rparr>
      | Gen_first \<Rightarrow> co\<lparr>co_value := gen_b co, pc := Gen_second\<rparr>
      | _ \<Rightarrow> (let nxt = gen_a co + gen_b co
              in co\<lparr>gen_a := gen_b co, gen_b := nxt, co_value := nxt, pc := Gen_loop\<rparr>))"

definition coroutine_init :: "Coroutine \<Rightarrow> Coroutine" where
  "coroutine_init co = co\<lparr>is_done := False, pc := Gen_start\<rparr>"

definition coroutine_next :: "Coroutine \<Rightarrow> u64 \<times> Coroutine" where
  "coroutine_next co =
     (if is_done co then (0, co) else (let co' = fibonacci_generator co in (co_value co', co')))"

function fibonacci_recursive :: "int \<Rightarrow> u64" where
  "fibonacci_recursive n =
     (if n \<le> 0 then 0 else if n = 1 then 1 else fibonacci_recursive (n - 1) + fibonacci_recursive (n - 2))"
  by pat_completeness auto
termination
  by (relation "measure nat") auto

declare fibonacci_recursive.simps [simp del]

function fib_loop :: "int \<Rightarrow> int \<Rightarrow> u64 \<Rightarrow> u64 \<Rightarrow> u64 \<Rightarrow> u64" where
  "fib_loop n i a b result = (if i \<le> n then fib_loop n (i + 1) b (a + b) (a + b) else result)"
  by pat_completeness auto
termination
  by (relation "measure (\<lambda>(n, i, a, b, r). nat (n + 1 - i))") auto

declare fib_loop.simps [simp del]

definition fibonacci_iterative :: "int \<Rightarrow> u64" where
  "fibonacci_iterative n = (if n \<le> 0 then 0 else if n = 1 then 1 else fib_loop n 2 0 1 0)"

text \<open>The loop \<^verbatim>\<open>for (i = 0; i <= n; i++) result = coroutine_next(&co)\<close>, with \<open>m\<close> iterations left.\<close>

fun drain :: "nat \<Rightarrow> u64 \<Rightarrow> Coroutine \<Rightarrow> u64 \<times> Coroutine" where
  "drain 0 result co = (result, co)"
| "drain (Suc m) result co = (let (r, co') = coroutine_next co in drain m r co')"

text \<open>The three results of one iteration of \<^verbatim>\<open>main\<close>, from the uninitialised coroutine on its stack.\<close>

definition fib_results :: "Coroutine \<Rightarrow> u64 \<times> u64 \<times> u64" where
  "fib_results co =
     (fst (drain (nat NUM_FIBONACCI + 1) 0 (coroutine_init co)),
      fibonacci_iterative NUM_FIBONACCI, fibonacci_recursive NUM_FIBONACCI)"

section \<open>The benchmark\<close>

definition NUM_ITERATIONS :: nat where "NUM_ITERATIONS = 10"

text \<open>The operations on \<^verbatim>\<open>double\<close> that \<^verbatim>\<open>main\<close> uses.\<close>

record 'd tops =
  of_nat_t :: "nat \<Rightarrow> 'd"
  add_t :: "'d \<Rightarrow> 'd \<Rightarrow> 'd"
  sub_t :: "'d \<Rightarrow> 'd \<Rightarrow> 'd"
  mul_t :: "'d \<Rightarrow> 'd \<Rightarrow> 'd"
  div_t :: "'d \<Rightarrow> 'd \<Rightarrow> 'd"
  gt_t :: "'d \<Rightarrow> 'd \<Rightarrow> bool"

definition get_time_usec :: "'d tops \<Rightarrow> nat \<times> nat \<Rightarrow> 'd" where
  "get_time_usec T tv = add_t T (mul_t T (of_nat_t T (fst tv)) (of_nat_t T 1000000)) (of_nat_t T (snd tv))"

text \<open>\<open>clock i k\<close> are the two readings around method \<open>k\<close> in iteration \<open>i\<close>.\<close>

definition average_time :: "'d tops \<Rightarrow> (nat \<Rightarrow> nat \<Rightarrow> (nat \<times> nat) \<times> (nat \<times> nat)) \<Rightarrow> nat \<Rightarrow> 'd" where
  "average_time T clock k =
     div_t T (foldl (\<lambda>t i. add_t T t (sub_t T (get_time_usec T (snd (clock i k))) (get_time_usec T (fst (clock i k))))) (of_nat_t T 0) [0..<NUM_ITERATIONS])
       (of_nat_t T NUM_ITERATIONS)"

definition compare_times :: "'d tops \<Rightarrow> 'd \<Rightarrow> 'd \<Rightarrow> 'd \<times> string" where
  "compare_times T a b = (if gt_t T a b then (div_t T a b, ''slower'') else (div_t T b a, ''faster''))"

text \<open>The results of the iterations, the averages of coroutine, iteration and recursion, and their comparison.\<close>

definition fib_main ::
  "'d tops \<Rightarrow> (nat \<Rightarrow> nat \<Rightarrow> (nat \<times> nat) \<times> (nat \<times> nat)) \<Rightarrow> (nat \<Rightarrow> Coroutine) \<Rightarrow>
   (nat \<times> u64 \<times> u64 \<times> u64) list \<times> ('d \<times> 'd \<times> 'd) \<times> ('d \<times> string) list" where
  "fib_main T clock cos =
     (let co_time = average_time T clock 0; it_time = average_time T clock 1; rec_time = average_time T clock 2
      in (map (\<lambda>i. (i + 1, fib_results (cos i))) [0..<NUM_ITERATIONS], (co_time, it_time, rec_time),
          compare_times T co_time it_time #
            (if NUM_FIBONACCI \<le> 40 then [compare_times T co_time rec_time, compare_times T it_time rec_time] else [])))"

section \<open>The Fibonacci numbers\<close>

fun fib :: "nat \<Rightarrow> nat" where
  "fib 0 = 0"
| "fib (Suc 0) = 1"
| "fib (Suc (Suc n)) = fib (Suc n) + fib n"

lemma recursive_fib: "fibonacci_recursive n = of_nat (fib (nat n))"
proof (induction n rule: fibonacci_recursive.induct)
  case (1 n)
  show ?case
  proof (cases "n \<le> 1")
    case True
    then show ?thesis by (cases "n = 1") (auto simp: fibonacci_recursive.simps [of n] fibonacci_recursive.simps [of 1])
  next
    case False
    then have "nat n = Suc (Suc (nat (n - 2)))" "nat (n - 1) = Suc (nat (n - 2))" by auto
    with 1 False show ?thesis by (simp add: fibonacci_recursive.simps [of n])
  qed
qed

lemma fib_loop_fib:
  "2 \<le> i \<Longrightarrow> i \<le> n + 1 \<Longrightarrow>
   fib_loop n i (of_nat (fib (nat (i - 2)))) (of_nat (fib (nat (i - 1)))) r
     = (if i \<le> n then of_nat (fib (nat n)) else r)"
proof (induction "nat (n + 1 - i)" arbitrary: i r)
  case 0
  then show ?case by (subst fib_loop.simps) simp
next
  case (Suc k)
  then have i: "i \<le> n" by simp
  have e: "nat (i + 1 - 2) = nat (i - 1)" "nat i = Suc (Suc (nat (i - 2)))" "nat (i - 1) = Suc (nat (i - 2))"
    using Suc.prems by auto
  have step: "fib_loop n i (of_nat (fib (nat (i - 2)))) (of_nat (fib (nat (i - 1)))) r =
      fib_loop n (i + 1) (of_nat (fib (nat (i + 1 - 2)))) (of_nat (fib (nat (i + 1 - 1)))) (of_nat (fib (nat (i + 1 - 1))))"
    using i by (subst fib_loop.simps) (simp add: e add.commute)
  show ?case
  proof (cases "i + 1 \<le> n")
    case True
    then show ?thesis
      using Suc.hyps(1) [of "i + 1" "of_nat (fib (nat (i + 1 - 1)))"] Suc.hyps(2) Suc.prems i step by simp
  next
    case False
    then have "i = n" using i by simp
    then show ?thesis using step by (simp add: fib_loop.simps [of n "n + 1"])
  qed
qed

lemma iterative_fib: "fibonacci_iterative n = of_nat (fib (nat n))"
proof (cases "n \<le> 1")
  case True
  then show ?thesis by (cases "n = 1") (auto simp: fibonacci_iterative_def)
next
  case False
  then show ?thesis using fib_loop_fib [of 2 n 0] by (simp add: fibonacci_iterative_def)
qed

text \<open>The coroutine after it has yielded \<open>fib 0 \<dots> fib k\<close>.\<close>

definition yielded :: "nat \<Rightarrow> Coroutine \<Rightarrow> bool" where
  "yielded k co \<longleftrightarrow> \<not> is_done co \<and>
     (if k = 0 then pc co = Gen_first \<and> gen_a co = 0 \<and> gen_b co = 1
      else gen_a co = of_nat (fib (k - 1)) \<and> gen_b co = of_nat (fib k) \<and> pc co = (if k = 1 then Gen_second else Gen_loop))"

lemma yielded_next:
  assumes "yielded k co"
  shows "fst (coroutine_next co) = of_nat (fib (Suc k)) \<and> yielded (Suc k) (snd (coroutine_next co))"
proof (cases k)
  case 0
  with assms show ?thesis
    by (simp add: yielded_def coroutine_next_def fibonacci_generator_def Let_def)
next
  case (Suc j)
  with assms show ?thesis
    by (auto simp: yielded_def coroutine_next_def fibonacci_generator_def Let_def add.commute split: if_splits)
qed

lemma drain_yielded: "yielded k co \<Longrightarrow> fst (drain m r co) = (if m = 0 then r else of_nat (fib (k + m)))"
proof (induction m arbitrary: k r co)
  case (Suc m)
  with yielded_next [OF Suc.prems] Suc.IH [of "Suc k"] show ?case
    by (auto simp: Let_def split: prod.split)
qed simp

lemma drain_init: "fst (drain (Suc m) r (coroutine_init co)) = of_nat (fib m)"
proof -
  let ?co = "snd (coroutine_next (coroutine_init co))"
  have n: "coroutine_next (coroutine_init co) = (0, ?co)" and y: "yielded 0 ?co"
    by (simp_all add: coroutine_next_def coroutine_init_def fibonacci_generator_def yielded_def Let_def)
  have "drain (Suc m) r (coroutine_init co) = drain m 0 ?co" using n by (metis drain.simps(2) case_prod_conv Let_def)
  then show ?thesis using drain_yielded [OF y, of m 0] by (cases m) simp_all
qed

lemma implementations_agree:
  "fibonacci_recursive (int n) = of_nat (fib n) \<and> fibonacci_iterative (int n) = of_nat (fib n) \<and>
   fst (drain (Suc n) r (coroutine_init co)) = of_nat (fib n) \<and>
   fib_results co = (of_nat (fib 28), of_nat (fib 28), of_nat (fib 28))"
proof -
  have "nat NUM_FIBONACCI + 1 = Suc 28" "nat NUM_FIBONACCI = 28" by (simp_all add: NUM_FIBONACCI_def)
  then have "fib_results co = (of_nat (fib 28), of_nat (fib 28), of_nat (fib 28))"
    by (simp only: fib_results_def drain_init recursive_fib iterative_fib)
  then show ?thesis using drain_init by (simp add: recursive_fib iterative_fib del: drain.simps)
qed

section \<open>Overflow\<close>

text \<open>Consecutive Fibonacci numbers as integers, for evaluation.\<close>

primrec fib_pair :: "nat \<Rightarrow> int \<times> int" where
  "fib_pair 0 = (0, 1)"
| "fib_pair (Suc n) = (case fib_pair n of (a, b) \<Rightarrow> (b, b + a))"

lemma fib_pair_fib: "fib_pair n = (int (fib n), int (fib (Suc n)))"
  by (induction n) auto

lemma fib_mono: "m \<le> n \<Longrightarrow> fib m \<le> fib n"
proof (rule lift_Suc_mono_le [of fib])
  show "fib k \<le> fib (Suc k)" for k by (cases k) auto
qed

lemma fib_values: "int (fib 28) = 317811" "int (fib 93) = 12200160415121876738" "int (fib 94) = 19740274219868223167"
proof -
  have "fib_pair 28 = (317811, 514229)" "fib_pair 93 = (12200160415121876738, 19740274219868223167)"
    by (simp_all add: eval_nat_numeral)
  then show "int (fib 28) = 317811" "int (fib 93) = 12200160415121876738" "int (fib 94) = 19740274219868223167"
    unfolding fib_pair_fib by simp_all
qed

lemma results_no_overflow:
  "(n \<le> 93 \<longrightarrow> unat (fibonacci_iterative (int n)) = fib n) \<and>
   int (unat (fibonacci_iterative 94)) = 1293530146158671551 \<and> fst (fib_results co) = 317811"
proof -
  have f: "int (fib n) < 2 ^ 64" if "n \<le> 93" for n
  proof -
    have "int (fib n) \<le> int (fib 93)" using fib_mono [OF that] by simp
    also have "\<dots> < 2 ^ 64" by (simp add: fib_values)
    finally show ?thesis .
  qed
  have 1: "unat (fibonacci_iterative (int n)) = fib n" if "n \<le> 93"
    using f [OF that] by (simp add: iterative_fib unat_of_nat take_bit_eq_mod)
  have "int (unat (fibonacci_iterative 94)) = int (fib 94) mod 2 ^ 64"
    using iterative_fib [of 94] by (simp add: unat_of_nat take_bit_eq_mod zmod_int)
  then have 2: "int (unat (fibonacci_iterative 94)) = 1293530146158671551" by (simp add: fib_values)
  have "fst (fib_results co) = of_int (int (fib 28))"
    using drain_init [of 28 0 co] by (simp add: fib_results_def NUM_FIBONACCI_def del: drain.simps)
  then have "fst (fib_results co) = 317811" by (simp add: fib_values)
  with 1 2 show ?thesis by blast
qed

lemma fib_results_value: "fib_results co = (317811, 317811, 317811)"
proof -
  obtain a b c where abc: "fib_results co = (a, b, c)" by (cases "fib_results co")
  then have "(a, b, c) = (of_nat (fib 28), of_nat (fib 28), of_nat (fib 28))"
    using implementations_agree [THEN conjunct2, THEN conjunct2, THEN conjunct2, of co] by (simp only:)
  then have "a = b" "b = c" by (simp_all only: prod.inject)
  moreover have "a = 317811" using results_no_overflow [of 0 co] abc by simp
  ultimately show ?thesis using abc by simp
qed

text \<open>
  C18. The three implementations agree for every argument: recursion and iteration compute the Fibonacci number modulo \<open>2\<^sup>6\<^sup>4\<close>, and the
  coroutine's value after \<open>n + 1\<close> switches is the \<open>n\<close>-th; up to \<open>n = 93\<close> the results are the Fibonacci numbers themselves; the
  next one wraps around. In each of the ten iterations of \<^verbatim>\<open>main\<close> the three results are 317811, whatever the coroutine on its stack held before.
\<close>

theorem fibonacci_implementations_agree:
  "fibonacci_recursive (int n) = of_nat (fib n) \<and> fibonacci_iterative (int n) = of_nat (fib n) \<and>
   fst (drain (Suc n) r (coroutine_init co)) = of_nat (fib n) \<and>
   (n \<le> 93 \<longrightarrow> unat (fibonacci_iterative (int n)) = fib n) \<and>
   int (unat (fibonacci_iterative 94)) = 1293530146158671551 \<and>
   fst (fib_main T clock cos) = map (\<lambda>i. (i, 317811, 317811, 317811)) [1..<11]"
proof -
  have "[1..<11] = map Suc [0..<10]" by (simp add: map_Suc_upt)
  then have "fst (fib_main T clock cos) = map (\<lambda>i. (i, 317811, 317811, 317811)) [1..<11]"
    by (simp add: fib_main_def NUM_ITERATIONS_def fib_results_value Let_def comp_def del: upt.simps upt_rec_numeral)
  then show ?thesis using implementations_agree [of n r co] results_no_overflow [of n co] by blast
qed

theorem fibonacci_implementations_agree_witness: "unat (fibonacci_iterative 28) = fib 28"
proof -
  have "unat (fibonacci_iterative (int 28)) = fib 28" 
    by (rule fibonacci_implementations_agree [THEN conjunct2, THEN conjunct2, THEN conjunct2, THEN conjunct1, THEN mp]) simp
  then show ?thesis by (simp only: of_nat_numeral)
qed

end
