(* ===== verification/Race.thy ===== *)
theory Race
  imports Transition
begin

text \<open>
  \<^verbatim>\<open>lesson_9/code_examples/06_race/06_race.c\<close>: threads that increment a shared counter, without and with a mutex. An
  increment is a load followed by a store, the only accesses that interleave. The model has any
  number of threads and iterations; \<^verbatim>\<open>main\<close> runs two threads of ten million iterations, for which no
  value leaves the range of \<^verbatim>\<open>long\<close>.
\<close>

definition iterations :: nat where "iterations = 10000000"

section \<open>Without synchronisation\<close>

text \<open>A thread about to load, or about to store what it loaded, with the iterations left.\<close>

datatype racy_pc = RLoad nat | RStore nat int

record racy =
  counter :: int
  racers :: "racy_pc list"

definition increment_counter :: "nat \<Rightarrow> racy \<Rightarrow> racy option" where
  "increment_counter t s =
     (case racers s ! t of
        RLoad 0 \<Rightarrow> None
      | RLoad (Suc k) \<Rightarrow> Some (s\<lparr>racers := (racers s)[t := RStore (Suc k) (counter s)]\<rparr>)
      | RStore k v \<Rightarrow> Some (s\<lparr>counter := v + 1, racers := (racers s)[t := RLoad (k - 1)]\<rparr>))"

definition racy_start :: "nat \<Rightarrow> nat \<Rightarrow> racy" where
  "racy_start threads n = \<lparr>counter = 0, racers = replicate threads (RLoad n)\<rparr>"

definition racy_step :: "racy \<Rightarrow> racy \<Rightarrow> bool" where
  "racy_step s s' \<longleftrightarrow> (\<exists>t < length (racers s). increment_counter t s = Some s')"

definition racy_final :: "racy \<Rightarrow> bool" where
  "racy_final s \<longleftrightarrow> (\<forall>p \<in> set (racers s). p = RLoad 0)"

section \<open>With a mutex\<close>

datatype safe_pc = SLock nat | SLoad nat | SStore nat int | SUnlock nat

record safe =
  safe_counter :: int
  mutex_owner :: "nat option"
  workers :: "safe_pc list"

definition increment_counter_safe :: "nat \<Rightarrow> safe \<Rightarrow> safe option" where
  "increment_counter_safe t s =
     (case workers s ! t of
        SLock 0 \<Rightarrow> None
      | SLock (Suc k) \<Rightarrow>
          (if mutex_owner s = None then
             Some (s\<lparr>mutex_owner := Some t, workers := (workers s)[t := SLoad (Suc k)]\<rparr>) else None)
      | SLoad k \<Rightarrow> Some (s\<lparr>workers := (workers s)[t := SStore k (safe_counter s)]\<rparr>)
      | SStore k v \<Rightarrow> Some (s\<lparr>safe_counter := v + 1, workers := (workers s)[t := SUnlock (k - 1)]\<rparr>)
      | SUnlock k \<Rightarrow> Some (s\<lparr>mutex_owner := None, workers := (workers s)[t := SLock k]\<rparr>))"

definition safe_start :: "nat \<Rightarrow> nat \<Rightarrow> safe" where
  "safe_start threads n = \<lparr>safe_counter = 0, mutex_owner = None, workers = replicate threads (SLock n)\<rparr>"

definition safe_step :: "safe \<Rightarrow> safe \<Rightarrow> bool" where
  "safe_step s s' \<longleftrightarrow> (\<exists>t < length (workers s). increment_counter_safe t s = Some s')"

definition safe_final :: "safe \<Rightarrow> bool" where
  "safe_final s \<longleftrightarrow> (\<forall>p \<in> set (workers s). p = SLock 0)"

section \<open>The safe counter is exact\<close>

fun s_left :: "safe_pc \<Rightarrow> nat" where
  "s_left (SLock k) = k"
| "s_left (SLoad k) = k"
| "s_left (SStore k v) = k"
| "s_left (SUnlock k) = k"

fun s_weight :: "safe_pc \<Rightarrow> nat" where
  "s_weight (SLock k) = 4 * k"
| "s_weight (SLoad k) = 4 * k - 1"
| "s_weight (SStore k v) = 4 * k - 2"
| "s_weight (SUnlock k) = 4 * k + 1"

fun inside :: "safe_pc \<Rightarrow> bool" where
  "inside (SLock k) = False"
| "inside (SLoad k) = True"
| "inside (SStore k v) = True"
| "inside (SUnlock k) = True"

text \<open>What a thread inside its critical section knows of the counter.\<close>

fun pc_ok :: "int \<Rightarrow> safe_pc \<Rightarrow> bool" where
  "pc_ok c (SLock k) = True"
| "pc_ok c (SLoad k) = (0 < k)"
| "pc_ok c (SStore k v) = (v = c \<and> 0 < k)"
| "pc_ok c (SUnlock k) = True"

lemma outside_ok [simp]: "\<not> inside p \<Longrightarrow> pc_ok c p"
  by (cases p) auto

definition safe_inv :: "nat \<Rightarrow> safe \<Rightarrow> bool" where
  "safe_inv amount s \<longleftrightarrow>
     safe_counter s + int (sum_list (map s_left (workers s))) = int amount \<and>
     (\<forall>t. mutex_owner s = Some t \<longleftrightarrow> t < length (workers s) \<and> inside (workers s ! t)) \<and>
     (\<forall>t < length (workers s). pc_ok (safe_counter s) (workers s ! t))"

definition safe_measure :: "safe \<Rightarrow> nat" where
  "safe_measure s = sum_list (map s_weight (workers s))"

lemma safe_step_measure:
  assumes "safe_inv amount s" "safe_step s u"
  shows "safe_measure u < safe_measure s"
proof -
  obtain t where t: "t < length (workers s)" "increment_counter_safe t s = Some u"
    using assms(2) by (auto simp: safe_step_def)
  have "pc_ok (safe_counter s) (workers s ! t)" using assms(1) t(1) by (simp add: safe_inv_def)
  with t(2) have "\<exists>p. workers u = (workers s)[t := p] \<and> s_weight p < s_weight (workers s ! t)"
    by (cases "workers s ! t") (force simp: increment_counter_safe_def split: nat.splits if_splits)+
  then obtain p where "workers u = (workers s)[t := p]" "s_weight p < s_weight (workers s ! t)" by blast
  with sum_list_map_update [OF t(1), of s_weight p] show ?thesis by (simp add: safe_measure_def)
qed

lemma safe_progress:
  assumes inv: "safe_inv amount s" and nf: "\<not> safe_final s"
  shows "\<exists>u. safe_step s u"
proof (cases "mutex_owner s")
  case None
  then have out: "\<not> inside (workers s ! t)" if "t < length (workers s)" for t
    using inv that by (auto simp: safe_inv_def)
  obtain t where t: "t < length (workers s)" "workers s ! t \<noteq> SLock 0"
    using nf by (auto simp: safe_final_def in_set_conv_nth)
  then obtain k where "workers s ! t = SLock (Suc k)"
    using out [OF t(1)] by (cases "workers s ! t") (auto simp: gr0_conv_Suc)
  with None have "\<exists>u. increment_counter_safe t s = Some u" by (simp add: increment_counter_safe_def)
  with t(1) show ?thesis by (auto simp: safe_step_def)
next
  case (Some t)
  then have "t < length (workers s)" "inside (workers s ! t)" using inv by (auto simp: safe_inv_def)
  moreover from this have "\<exists>u. increment_counter_safe t s = Some u"
    by (cases "workers s ! t") (auto simp: increment_counter_safe_def)
  ultimately show ?thesis by (auto simp: safe_step_def)
qed

lemma safe_step_inv:
  assumes inv: "safe_inv amount s" and st: "safe_step s u"
  shows "safe_inv amount u"
proof -
  obtain t where t: "t < length (workers s)" "increment_counter_safe t s = Some u"
    using st by (auto simp: safe_step_def)
  have own: "\<And>x. mutex_owner s = Some x \<longleftrightarrow> x < length (workers s) \<and> inside (workers s ! x)"
    and sum: "safe_counter s + int (sum_list (map s_left (workers s))) = int amount"
    and pcs: "\<And>x. x < length (workers s) \<Longrightarrow> pc_ok (safe_counter s) (workers s ! x)"
    using inv by (auto simp: safe_inv_def)
  have upd: "sum_list (map s_left ((workers s)[t := p])) + s_left (workers s ! t) = sum_list (map s_left (workers s)) + s_left p" for p
    using sum_list_map_update [OF t(1)] .
  have alone: "\<not> inside (workers s ! x)" if "inside (workers s ! t)" "x < length (workers s)" "x \<noteq> t" for x
    using own [of t] own [of x] t(1) that by auto
  show ?thesis
  proof (cases "workers s ! t")
    case (SLock k)
    then obtain j where k: "k = Suc j" "mutex_owner s = None"
      and u: "u = s\<lparr>mutex_owner := Some t, workers := (workers s)[t := SLoad (Suc j)]\<rparr>"
      using t(2) by (auto simp: increment_counter_safe_def split: nat.splits if_splits)
    have out: "\<not> inside (workers s ! x)" if "x < length (workers s)" for x using own [of x] that k(2) by auto
    show ?thesis
      unfolding safe_inv_def
      using SLock k t(1) sum upd [of "SLoad (Suc j)"] out pcs
      by (auto simp: u nth_list_update)
  next
    case (SLoad k)
    then have u: "u = s\<lparr>workers := (workers s)[t := SStore k (safe_counter s)]\<rparr>" and "0 < k"
      using t(2) pcs [OF t(1)] by (auto simp: increment_counter_safe_def)
    then show ?thesis
      unfolding safe_inv_def using SLoad t(1) sum upd [of "SStore k (safe_counter s)"] own pcs
      by (auto simp: nth_list_update)
  next
    case (SStore k v)
    then have u: "u = s\<lparr>safe_counter := v + 1, workers := (workers s)[t := SUnlock (k - 1)]\<rparr>"
      and k: "0 < k" "v = safe_counter s"
      using t(2) pcs [OF t(1)] by (auto simp: increment_counter_safe_def)
    have out: "\<not> inside (workers s ! x)" if "x < length (workers s)" "x \<noteq> t" for x
      using alone [of x] SStore that by auto
    show ?thesis
      unfolding safe_inv_def using SStore k t(1) sum upd [of "SUnlock (k - 1)"] own pcs out
      by (auto simp: u nth_list_update)
  next
    case (SUnlock k)
    then have u: "u = s\<lparr>mutex_owner := None, workers := (workers s)[t := SLock k]\<rparr>"
      using t(2) by (auto simp: increment_counter_safe_def)
    show ?thesis
      unfolding safe_inv_def using SUnlock t(1) sum upd [of "SLock k"] alone pcs
      by (auto simp: u nth_list_update)
  qed
qed

interpretation sc: terminating_system "\<lambda>s. \<exists>threads n. s = safe_start threads n \<and> amount = threads * n"
  safe_step "safe_inv amount" safe_final safe_measure for amount
proof
  show "safe_inv amount s" if "\<exists>threads n. s = safe_start threads n \<and> amount = threads * n" for s
    using that by (auto simp: safe_inv_def safe_start_def sum_list_replicate)
qed (auto intro: safe_step_inv safe_progress safe_step_measure)

text \<open>
  With the mutex every run of the threads is bounded, never stuck before all threads have finished, and
  ends with exactly one increment per iteration; for \<^verbatim>\<open>main\<close>, \<open>2 * iterations\<close>.
\<close>

lemma safe_counter_exact:
  assumes "(safe_step ^^ m) (safe_start threads n) s"
  shows "m \<le> safe_measure (safe_start threads n) \<and> (\<exists>u. safe_step\<^sup>*\<^sup>* s u \<and> safe_final u) \<and>
    ((\<forall>u. \<not> safe_step s u) \<longrightarrow> safe_final s) \<and> (safe_final s \<longrightarrow> safe_counter s = int threads * int n)"
proof -
  have init: "\<exists>th k. safe_start threads n = safe_start th k \<and> threads * n = th * k" by blast
  have inv: "safe_inv (threads * n) s"
    using sc.reachable_inv [OF init relpowp_imp_rtranclp [OF assms]] .
  have "safe_counter s = int threads * int n" if "safe_final s"
  proof -
    have "map s_left (workers s) = replicate (length (workers s)) 0"
      using that by (intro replicate_eqI) (auto simp: safe_final_def)
    then show ?thesis using inv by (simp add: safe_inv_def sum_list_replicate)
  qed
  then show ?thesis
    using sc.run_from_init [OF init assms] sc.stuck_final [OF inv] by blast
qed

section \<open>The racy counter loses increments\<close>

fun r_left :: "racy_pc \<Rightarrow> nat" where
  "r_left (RLoad k) = k"
| "r_left (RStore k v) = k"

fun r_ok :: "int \<Rightarrow> racy_pc \<Rightarrow> bool" where
  "r_ok d (RLoad k) = True"
| "r_ok d (RStore k v) = (0 < k \<and> v \<le> d)"

text \<open>No value read or stored exceeds the number of increments completed.\<close>

definition completed :: "nat \<Rightarrow> racy \<Rightarrow> int" where
  "completed amount s = int amount - int (sum_list (map r_left (racers s)))"

definition racy_inv :: "nat \<Rightarrow> racy \<Rightarrow> bool" where
  "racy_inv amount s \<longleftrightarrow> counter s \<le> completed amount s \<and>
     (\<forall>t < length (racers s). r_ok (completed amount s) (racers s ! t))"

lemma r_ok_mono: "r_ok d p \<Longrightarrow> d \<le> e \<Longrightarrow> r_ok e p"
  by (cases p) auto

lemma racy_step_inv:
  assumes inv: "racy_inv amount s" and st: "racy_step s u"
  shows "racy_inv amount u"
proof -
  obtain t where t: "t < length (racers s)" "increment_counter t s = Some u"
    using st by (auto simp: racy_step_def)
  have ok: "\<And>x. x < length (racers s) \<Longrightarrow> r_ok (completed amount s) (racers s ! x)"
    and c: "counter s \<le> completed amount s" using inv by (auto simp: racy_inv_def)
  have upd: "sum_list (map r_left ((racers s)[t := p])) + r_left (racers s ! t) = sum_list (map r_left (racers s)) + r_left p" for p
    using sum_list_map_update [OF t(1)] .
  show ?thesis
  proof (cases "racers s ! t")
    case (RLoad k)
    then obtain j where k: "k = Suc j" and u: "u = s\<lparr>racers := (racers s)[t := RStore (Suc j) (counter s)]\<rparr>"
      using t(2) by (auto simp: increment_counter_def split: nat.splits)
    have "completed amount u = completed amount s"
      using upd [of "RStore (Suc j) (counter s)"] RLoad k by (simp add: completed_def u)
    then show ?thesis using ok c t(1) by (auto simp: racy_inv_def u nth_list_update)
  next
    case (RStore k v)
    then have u: "u = s\<lparr>counter := v + 1, racers := (racers s)[t := RLoad (k - 1)]\<rparr>" and k: "0 < k" "v \<le> completed amount s"
      using t(2) ok [OF t(1)] by (auto simp: increment_counter_def)
    have d: "completed amount u = completed amount s + 1"
      using upd [of "RLoad (k - 1)"] RStore k by (simp add: completed_def u)
    then have "r_ok (completed amount u) (racers s ! x)" if "x < length (racers s)" for x
      using r_ok_mono [OF ok [OF that]] by simp
    then show ?thesis using d k t(1) by (auto simp: racy_inv_def u nth_list_update)
  qed
qed

interpretation rc: invariant_system "\<lambda>s. \<exists>threads n. s = racy_start threads n \<and> amount = threads * n" racy_step "racy_inv amount"
  for amount
proof
  show "racy_inv amount s" if "\<exists>threads n. s = racy_start threads n \<and> amount = threads * n" for s
    using that by (auto simp: racy_inv_def racy_start_def completed_def sum_list_replicate)
qed (auto intro: racy_step_inv)

text \<open>Two threads in lockstep: both load, then both store, so each pair of increments counts once.\<close>

lemma lockstep: "racy_step\<^sup>*\<^sup>* \<lparr>counter = c, racers = [RLoad n, RLoad n]\<rparr> \<lparr>counter = c + int n, racers = [RLoad 0, RLoad 0]\<rparr>"
proof (induction n arbitrary: c)
  case (Suc n)
  let ?s = "\<lambda>c p q. \<lparr>counter = c, racers = [p, q]\<rparr>"
  have step: "racy_step s u" if "increment_counter t s = Some u" "t < length (racers s)" for t s u
    using that by (auto simp: racy_step_def)
  have 1: "racy_step (?s c (RLoad (Suc n)) (RLoad (Suc n))) (?s c (RStore (Suc n) c) (RLoad (Suc n)))"
    by (rule step [of 0]) (auto simp: increment_counter_def)
  have 2: "racy_step (?s c (RStore (Suc n) c) (RLoad (Suc n))) (?s c (RStore (Suc n) c) (RStore (Suc n) c))"
    by (rule step [of 1]) (auto simp: increment_counter_def)
  have 3: "racy_step (?s c (RStore (Suc n) c) (RStore (Suc n) c)) (?s (c + 1) (RLoad n) (RStore (Suc n) c))"
    by (rule step [of 0]) (auto simp: increment_counter_def)
  have 4: "racy_step (?s (c + 1) (RLoad n) (RStore (Suc n) c)) (?s (c + 1) (RLoad n) (RLoad n))"
    by (rule step [of 1]) (auto simp: increment_counter_def)
  have "racy_step\<^sup>*\<^sup>* (?s (c + 1) (RLoad n) (RLoad n)) (?s (c + 1 + int n) (RLoad 0) (RLoad 0))" by (rule Suc.IH)
  then have "racy_step\<^sup>*\<^sup>* (?s c (RLoad (Suc n)) (RLoad (Suc n))) (?s (c + 1 + int n) (RLoad 0) (RLoad 0))"
    using 1 2 3 4 by (meson converse_rtranclp_into_rtranclp)
  then show ?case by (simp add: algebra_simps)
qed simp

text \<open>
  Without the mutex the final count never exceeds one per iteration, and it can be as low as the count of one
  thread: there is a run of the two threads of \<^verbatim>\<open>main\<close> that ends with \<open>n\<close> instead of \<open>2 * n\<close>.
\<close>

lemma racy_counter_bounds:
  "(\<forall>s. racy_step\<^sup>*\<^sup>* (racy_start threads n) s \<longrightarrow> counter s \<le> int threads * int n) \<and>
   (\<exists>s. racy_step\<^sup>*\<^sup>* (racy_start 2 n) s \<and> racy_final s \<and> counter s = int n)"
proof -
  have init: "\<exists>th k. racy_start threads n = racy_start th k \<and> threads * n = th * k" by blast
  have "counter s \<le> int threads * int n" if "racy_step\<^sup>*\<^sup>* (racy_start threads n) s" for s
  proof -
    have "counter s \<le> completed (threads * n) s" using rc.reachable_inv [OF init that] by (simp add: racy_inv_def)
    also have "\<dots> \<le> int (threads * n)" by (simp add: completed_def)
    finally show ?thesis by simp
  qed
  moreover have "racy_step\<^sup>*\<^sup>* (racy_start 2 n) \<lparr>counter = int n, racers = [RLoad 0, RLoad 0]\<rparr>"
    using lockstep [of 0 n] by (simp add: racy_start_def numeral_2_eq_2)
  ultimately show ?thesis by (force simp: racy_final_def)
qed

text \<open>
  C19. With the mutex every run of the threads is bounded, never stuck before all threads have finished, and
  ends with exactly one increment per iteration. Without it the count never exceeds one per iteration, and it can be
  as low as the count of one thread: there is a run of the two threads of \<^verbatim>\<open>main\<close> that ends with \<open>n\<close>
  instead of \<open>2 * n\<close>.
\<close>

theorem race_counters:
  "((safe_step ^^ m) (safe_start threads n) s \<longrightarrow>
      m \<le> safe_measure (safe_start threads n) \<and> (\<exists>u. safe_step\<^sup>*\<^sup>* s u \<and> safe_final u) \<and>
      ((\<forall>u. \<not> safe_step s u) \<longrightarrow> safe_final s) \<and> (safe_final s \<longrightarrow> safe_counter s = int threads * int n)) \<and>
   (racy_step\<^sup>*\<^sup>* (racy_start threads n) r \<longrightarrow> counter r \<le> int threads * int n) \<and>
   (\<exists>r. racy_step\<^sup>*\<^sup>* (racy_start 2 n) r \<and> racy_final r \<and> counter r = int n)"
  using safe_counter_exact [of m threads n s] racy_counter_bounds [of threads n] by blast

theorem race_counters_witness:
  "(\<exists>u. safe_step\<^sup>*\<^sup>* (safe_start 2 iterations) u \<and> safe_final u \<and> safe_counter u = 20000000) \<and>
   (\<exists>s. racy_step\<^sup>*\<^sup>* (racy_start 2 iterations) s \<and> racy_final s \<and> counter s = 10000000)"
proof -
  have "(safe_step ^^ 0) (safe_start 2 iterations) (safe_start 2 iterations)" by simp
  with race_counters [of 0 2 iterations "safe_start 2 iterations"]
  obtain u where u: "safe_step\<^sup>*\<^sup>* (safe_start 2 iterations) u" "safe_final u" by blast
  then obtain m where "(safe_step ^^ m) (safe_start 2 iterations) u" using rtranclp_imp_relpowp by metis
  with race_counters [of m 2 iterations u] u have "safe_counter u = 20000000" by (auto simp: iterations_def)
  with u race_counters [of m 2 iterations u] show ?thesis by (auto simp: iterations_def)
qed

section \<open>The report\<close>

text \<open>What \<^verbatim>\<open>main\<close> prints: the expected count, and the two final counters with their missing increments.\<close>

definition race_report :: "racy \<Rightarrow> safe \<Rightarrow> int \<times> (int \<times> int) \<times> (int \<times> int)" where
  "race_report r s =
     (let expected = int iterations * 2
      in (expected, (counter r, expected - counter r), (safe_counter s, expected - safe_counter s)))"

lemma race_report_values:
  assumes "racy_step\<^sup>*\<^sup>* (racy_start 2 iterations) r" "safe_step\<^sup>*\<^sup>* (safe_start 2 iterations) s" "safe_final s"
  shows "\<exists>c missing. race_report r s = (20000000, (c, missing), (20000000, 0)) \<and> c + missing = 20000000 \<and> 0 \<le> missing"
proof -
  obtain m where "(safe_step ^^ m) (safe_start 2 iterations) s" using assms(2) rtranclp_imp_relpowp by metis
  then have "safe_counter s = 20000000" using safe_counter_exact [of m 2 iterations s] assms(3) by (simp add: iterations_def)
  moreover have "counter r \<le> 20000000" using racy_counter_bounds [of 2 iterations] assms(1) by (auto simp: iterations_def)
  ultimately show ?thesis by (simp add: race_report_def iterations_def)
qed

end
