(* ===== verification/DaemonThread.thy ===== *)
theory DaemonThread
  imports Transition
begin

text \<open>
  \<^verbatim>\<open>lesson_9/code_examples/10_deamon_thread/10_deamon_thread.c\<close>: detached threads counted in \<^verbatim>\<open>active_threads\<close>, which
  \<^verbatim>\<open>main\<close> waits to become zero. The sections guarded by \<^verbatim>\<open>count_mutex\<close> are atomic; waiting on
  \<^verbatim>\<open>count_cond\<close> is a state of \<^verbatim>\<open>main\<close> that the signal of the last thread ends. The signal handler may
  clear \<^verbatim>\<open>running\<close> at any time.
\<close>

section \<open>Model\<close>

text \<open>
  A background thread: created but not registered, at the loop test with its count, asleep, about to
  unregister, ended.
\<close>

datatype bg_pc = BStart | BLoop int | BSleep int | BExit | BDone

datatype main_pc = MCreate | MWork nat | MStop | MTest | MWait | MDone

record daemon =
  running :: bool
  active_threads :: int
  bgs :: "bg_pc list"
  main_at :: main_pc

definition NUM_BG :: nat where "NUM_BG = 3"

definition handle_signal :: "daemon \<Rightarrow> daemon" where
  "handle_signal s = s\<lparr>running := False\<rparr>"

definition register_thread :: "daemon \<Rightarrow> daemon" where
  "register_thread s = s\<lparr>active_threads := active_threads s + 1\<rparr>"

definition unregister_thread :: "daemon \<Rightarrow> daemon" where
  "unregister_thread s =
     (let s1 = s\<lparr>active_threads := active_threads s - 1\<rparr>
      in if active_threads s1 = 0 \<and> main_at s1 = MWait then s1\<lparr>main_at := MTest\<rparr> else s1)"

definition background_thread :: "nat \<Rightarrow> daemon \<Rightarrow> daemon option" where
  "background_thread t s =
     (case bgs s ! t of
        BStart \<Rightarrow> Some ((register_thread s)\<lparr>bgs := (bgs s)[t := BLoop 0]\<rparr>)
      | BLoop n \<Rightarrow> Some (s\<lparr>bgs := (bgs s)[t := if running s \<and> n < 10 then BSleep n else BExit]\<rparr>)
      | BSleep n \<Rightarrow> Some (s\<lparr>bgs := (bgs s)[t := if \<not> running s then BExit else BLoop (n + 1)]\<rparr>)
      | BExit \<Rightarrow> Some ((unregister_thread s)\<lparr>bgs := (bgs s)[t := BDone]\<rparr>)
      | BDone \<Rightarrow> None)"

definition main_thread :: "daemon \<Rightarrow> daemon option" where
  "main_thread s =
     (case main_at s of
        MCreate \<Rightarrow> (if length (bgs s) < NUM_BG then Some (s\<lparr>bgs := bgs s @ [BStart]\<rparr>) else Some (s\<lparr>main_at := MWork 0\<rparr>))
      | MWork i \<Rightarrow> Some (s\<lparr>main_at := if i < 5 then MWork (i + 1) else MStop\<rparr>)
      | MStop \<Rightarrow> Some (s\<lparr>running := False, main_at := MTest\<rparr>)
      | MTest \<Rightarrow> Some (s\<lparr>main_at := if active_threads s > 0 then MWait else MDone\<rparr>)
      | MWait \<Rightarrow> None
      | MDone \<Rightarrow> None)"

definition daemon_step :: "daemon \<Rightarrow> daemon \<Rightarrow> bool" where
  "daemon_step s u \<longleftrightarrow> main_thread s = Some u \<or> (\<exists>t < length (bgs s). background_thread t s = Some u) \<or> u = handle_signal s"

definition daemon_start :: daemon where
  "daemon_start = \<lparr>running = True, active_threads = 0, bgs = [], main_at = MCreate\<rparr>"

section \<open>The count\<close>

fun registered :: "bg_pc \<Rightarrow> nat" where
  "registered BStart = 0"
| "registered (BLoop n) = 1"
| "registered (BSleep n) = 1"
| "registered BExit = 1"
| "registered BDone = 0"

definition daemon_inv :: "daemon \<Rightarrow> bool" where
  "daemon_inv s \<longleftrightarrow> active_threads s = int (sum_list (map registered (bgs s))) \<and>
     length (bgs s) \<le> NUM_BG \<and> (main_at s \<noteq> MCreate \<longrightarrow> length (bgs s) = NUM_BG) \<and>
     (main_at s = MWait \<longrightarrow> active_threads s > 0)"

lemma background_inv:
  assumes inv: "daemon_inv s" and t: "t < length (bgs s)" and st: "background_thread t s = Some u"
  shows "daemon_inv u"
proof -
  have "sum_list (map registered ((bgs s)[t := p])) + registered (bgs s ! t) = sum_list (map registered (bgs s)) + registered p" for p
    using sum_list_map_update [OF t] .
  note upd = this [of "BLoop 0"] this [of BExit] this [of BDone] this
  show ?thesis
  proof (cases "bgs s ! t")
    case (BLoop n)
    with st inv upd(2) upd(4) [of "BSleep n"] show ?thesis
      by (auto simp: background_thread_def daemon_inv_def)
  next
    case (BSleep n)
    with st inv upd(2) upd(4) [of "BLoop (n + 1)"] show ?thesis
      by (auto simp: background_thread_def daemon_inv_def)
  next
    case BExit
    then have "u = (unregister_thread s)\<lparr>bgs := (bgs s)[t := BDone]\<rparr>" using st by (simp add: background_thread_def)
    with BExit inv upd(3) show ?thesis
      by (cases "active_threads s = 1") (auto simp: unregister_thread_def daemon_inv_def Let_def)
  qed (use st inv upd(1) in \<open>auto simp: background_thread_def register_thread_def daemon_inv_def\<close>)
qed

interpretation dm: invariant_system "\<lambda>s. s = daemon_start" daemon_step daemon_inv
proof
  show "daemon_inv u" if inv: "daemon_inv s" and st: "daemon_step s u" for s u
  proof -
    consider "main_thread s = Some u" | t where "t < length (bgs s)" "background_thread t s = Some u" | "u = handle_signal s"
      using st by (auto simp: daemon_step_def)
    then show ?thesis
    proof cases
      case 1
      with inv show ?thesis
        by (cases "main_at s") (auto simp: main_thread_def daemon_inv_def split: if_splits)
    next
      case 2
      with inv show ?thesis using background_inv by blast
    next
      case 3
      with inv show ?thesis by (auto simp: handle_signal_def daemon_inv_def)
    qed
  qed
qed (simp add: daemon_start_def daemon_inv_def)

text \<open>A schedule that reaches the end of \<^verbatim>\<open>main\<close> before any thread has registered.\<close>

lemma main_alone: "daemon_step\<^sup>*\<^sup>* daemon_start \<lparr>running = False, active_threads = 0, bgs = [BStart, BStart, BStart], main_at = MTest\<rparr>"
proof -
  let ?M = "\<lambda>r b m. \<lparr>running = r, active_threads = 0, bgs = replicate b BStart, main_at = m\<rparr>"
  have step: "daemon_step s u" if "main_thread s = Some u" for s u using that by (simp add: daemon_step_def)
  have c: "daemon_step (?M True b MCreate) (?M True (Suc b) MCreate)" if "b < 3" for b
    by (rule step) (use that in \<open>simp add: main_thread_def NUM_BG_def replicate_append_same flip: replicate_Suc\<close>)
  have w: "daemon_step\<^sup>*\<^sup>* (?M True 3 (MWork (5 - k))) (?M True 3 (MWork 5))" if "k \<le> 5" for k
    using that
  proof (induction k)
    case (Suc k)
    have "daemon_step (?M True 3 (MWork (5 - Suc k))) (?M True 3 (MWork (5 - k)))"
      by (rule step) (use Suc.prems in \<open>auto simp: main_thread_def\<close>)
    with Suc show ?case by (meson Suc_leD converse_rtranclp_into_rtranclp)
  qed simp
  have "daemon_step\<^sup>*\<^sup>* (?M True 0 MCreate) (?M True 3 MCreate)"
    using c [of 0] c [of 1] c [of 2] by (simp add: numeral_3_eq_3 numeral_2_eq_2)
  also have "daemon_step (?M True 3 MCreate) (?M True 3 (MWork 0))"
    by (rule step) (simp add: main_thread_def NUM_BG_def)
  also have "daemon_step\<^sup>*\<^sup>* (?M True 3 (MWork 0)) (?M True 3 (MWork 5))" using w [of 5] by simp
  also have "daemon_step (?M True 3 (MWork 5)) (?M True 3 MStop)"
    by (rule step) (simp add: main_thread_def)
  also have "daemon_step (?M True 3 MStop) (?M False 3 MTest)"
    by (rule step) (simp add: main_thread_def)
  finally show ?thesis by (simp add: daemon_start_def numeral_3_eq_3)
qed

text \<open>
  C20. Shutdown: in every reachable state \<^verbatim>\<open>active_threads\<close> is the number of registered threads, so when \<^verbatim>\<open>main\<close>
  announces that all background threads have terminated, no registered thread is left. A thread that
  has not registered yet is not counted: \<^verbatim>\<open>main\<close> can make the announcement while all its threads are
  still to start.
\<close>

theorem daemon_shutdown:
  "(\<forall>s u. daemon_step\<^sup>*\<^sup>* daemon_start s \<and> main_thread s = Some u \<and> main_at u = MDone \<longrightarrow>
      active_threads s = 0 \<and> (\<forall>p \<in> set (bgs s). p = BStart \<or> p = BDone)) \<and>
   (\<exists>s u. daemon_step\<^sup>*\<^sup>* daemon_start s \<and> main_thread s = Some u \<and> main_at u = MDone \<and> bgs s = [BStart, BStart, BStart])"
proof -
  have "active_threads s = 0 \<and> (\<forall>p \<in> set (bgs s). p = BStart \<or> p = BDone)"
    if r: "daemon_step\<^sup>*\<^sup>* daemon_start s" and m: "main_thread s = Some u" "main_at u = MDone" for s u
  proof -
    have inv: "daemon_inv s" using dm.reachable_inv r by blast
    have "active_threads s \<le> 0" using m by (auto simp: main_thread_def split: main_pc.splits if_splits)
    then have a: "active_threads s = 0" using inv by (simp add: daemon_inv_def)
    then have "\<forall>x \<in> set (map registered (bgs s)). x = 0" using inv by (simp add: daemon_inv_def)
    then have "\<forall>p \<in> set (bgs s). registered p = 0" by simp
    then have "p = BStart \<or> p = BDone" if "p \<in> set (bgs s)" for p using that by (cases p) fastforce+
    with a show ?thesis by blast
  qed
  moreover have "main_thread \<lparr>running = False, active_threads = 0, bgs = [BStart, BStart, BStart], main_at = MTest\<rparr>
      = Some \<lparr>running = False, active_threads = 0, bgs = [BStart, BStart, BStart], main_at = MDone\<rparr>"
    by (simp add: main_thread_def)
  then have "\<exists>s u. daemon_step\<^sup>*\<^sup>* daemon_start s \<and> main_thread s = Some u \<and> main_at u = MDone \<and> bgs s = [BStart, BStart, BStart]"
    by (intro exI conjI) (rule main_alone, assumption, simp_all)
  ultimately show ?thesis by blast
qed

theorem daemon_shutdown_witness:
  "\<exists>s u. daemon_step\<^sup>*\<^sup>* daemon_start s \<and> main_thread s = Some u \<and> main_at u = MDone \<and> active_threads s = 0"
  using daemon_shutdown by blast

end
