(* ===== verification/LedSysfs.thy ===== *)
theory LedSysfs
  imports CString
begin

text \<open>
  LED control through sysfs, \<^verbatim>\<open>lesson_10/code_examples/00_led/00_led.c\<close> (also shipped as
  \<^verbatim>\<open>meta-yocto-workshop/recipes-hello-yocto/gpio-led-test/files/00_led.c\<close>). The kernel is a parameter that answers
  the \<open>n\<close>-th system call; the state counts the calls and the open descriptors and records the
  complete writes. Messages and sleeps are not modelled.
\<close>

section \<open>Kernel and state\<close>

text \<open>
  Whether \<^verbatim>\<open>open\<close> succeeds; the return value of \<^verbatim>\<open>write\<close> and whether \<^verbatim>\<open>errno\<close> is \<^verbatim>\<open>EBUSY\<close>; what \<^verbatim>\<open>read\<close> delivers, if
  it does.
\<close>

record kernel =
  open_ok :: "nat \<Rightarrow> string \<Rightarrow> bool"
  write_ret :: "nat \<Rightarrow> string \<Rightarrow> string \<Rightarrow> int \<times> bool"
  read_ret :: "nat \<Rightarrow> string \<Rightarrow> string option"

record sysfs =
  ncalls :: nat
  nfds :: nat
  writes :: "(string \<times> string) list"

definition sys_open :: "kernel \<Rightarrow> string \<Rightarrow> sysfs \<Rightarrow> bool \<times> sysfs" where
  "sys_open k path s =
     (if open_ok k (ncalls s) path then (True, s\<lparr>ncalls := ncalls s + 1, nfds := nfds s + 1\<rparr>)
      else (False, s\<lparr>ncalls := ncalls s + 1\<rparr>))"

definition sys_close :: "sysfs \<Rightarrow> sysfs" where
  "sys_close s = s\<lparr>nfds := nfds s - 1\<rparr>"

definition sys_write :: "kernel \<Rightarrow> string \<Rightarrow> string \<Rightarrow> sysfs \<Rightarrow> (bool \<times> bool) \<times> sysfs" where
  "sys_write k path data s =
     (let (n, busy) = write_ret k (ncalls s) path data; s1 = s\<lparr>ncalls := ncalls s + 1\<rparr>
      in if n = int (length data) then ((True, busy), s1\<lparr>writes := writes s1 @ [(path, data)]\<rparr>) else ((False, busy), s1))"

definition sys_read :: "kernel \<Rightarrow> string \<Rightarrow> sysfs \<Rightarrow> string option \<times> sysfs" where
  "sys_read k path s = (map_option (take 2) (read_ret k (ncalls s) path), s\<lparr>ncalls := ncalls s + 1\<rparr>)"

section \<open>Operations\<close>

definition LED_GPIO_PIN :: string where "LED_GPIO_PIN = ''49''"

definition export_path :: string where "export_path = ''/sys/class/gpio/export''"

definition direction_path :: "string \<Rightarrow> string" where
  "direction_path pin = c_truncate 64 (''/sys/class/gpio/gpio'' @ pin @ ''/direction'')"

definition value_path :: "string \<Rightarrow> string" where
  "value_path pin = c_truncate 64 (''/sys/class/gpio/gpio'' @ pin @ ''/value'')"

definition gpio_export :: "kernel \<Rightarrow> string \<Rightarrow> sysfs \<Rightarrow> int \<times> sysfs" where
  "gpio_export k pin s =
     (case sys_open k export_path s of
        (False, s1) \<Rightarrow> (-1, s1)
      | (True, s1) \<Rightarrow>
          (case sys_write k export_path pin s1 of
             ((ok, busy), s2) \<Rightarrow> if \<not> ok \<and> \<not> busy then (-1, sys_close s2) else (0, sys_close s2)))"

definition gpio_set_direction :: "kernel \<Rightarrow> string \<Rightarrow> string \<Rightarrow> sysfs \<Rightarrow> int \<times> sysfs" where
  "gpio_set_direction k pin direction s =
     (case sys_open k (direction_path pin) s of
        (False, s1) \<Rightarrow> (-1, s1)
      | (True, s1) \<Rightarrow>
          (case sys_write k (direction_path pin) direction s1 of
             ((ok, busy), s2) \<Rightarrow> if \<not> ok then (-1, sys_close s2) else (0, sys_close s2)))"

definition gpio_set_value :: "kernel \<Rightarrow> string \<Rightarrow> string \<Rightarrow> sysfs \<Rightarrow> int \<times> sysfs" where
  "gpio_set_value k pin v s =
     (case sys_open k (value_path pin) s of
        (False, s1) \<Rightarrow> (-1, s1)
      | (True, s1) \<Rightarrow>
          (case sys_write k (value_path pin) v s1 of
             ((ok, busy), s2) \<Rightarrow> if \<not> ok then (-1, sys_close s2) else (0, sys_close s2)))"

definition gpio_get_value :: "kernel \<Rightarrow> string \<Rightarrow> sysfs \<Rightarrow> int \<times> sysfs" where
  "gpio_get_value k pin s =
     (case sys_open k (value_path pin) s of
        (False, s1) \<Rightarrow> (-1, s1)
      | (True, s1) \<Rightarrow>
          (case sys_read k (value_path pin) s1 of
             (None, s2) \<Rightarrow> (-1, sys_close s2)
           | (Some buf, s2) \<Rightarrow> (atoi buf, sys_close s2)))"

primrec blink_loop :: "nat \<Rightarrow> kernel \<Rightarrow> string \<Rightarrow> sysfs \<Rightarrow> int \<times> sysfs" where
  "blink_loop 0 k pin s = (0, s)"
| "blink_loop (Suc n) k pin s =
     (case gpio_set_value k pin ''1'' s of
        (r1, s1) \<Rightarrow> if r1 < 0 then (1, s1)
          else (case gpio_set_value k pin ''0'' s1 of
                  (r2, s2) \<Rightarrow> if r2 < 0 then (1, s2) else blink_loop n k pin s2))"

definition led_command :: "kernel \<Rightarrow> string \<Rightarrow> string \<Rightarrow> sysfs \<Rightarrow> int \<times> sysfs" where
  "led_command k pin cmd s =
     (if cmd = ''on'' then (0, snd (gpio_set_value k pin ''1'' s))
      else if cmd = ''off'' then (0, snd (gpio_set_value k pin ''0'' s))
      else if cmd = ''toggle'' then
        (case gpio_get_value k pin s of
           (v, s1) \<Rightarrow> if v < 0 then (1, s1)
             else if v = 0 then (0, snd (gpio_set_value k pin ''1'' s1))
             else (0, snd (gpio_set_value k pin ''0'' s1)))
      else if cmd = ''blink'' then blink_loop 5 k pin s
      else (1, s))"

text \<open>\<^verbatim>\<open>main\<close> with the arguments after the program name; the exit code.\<close>

definition led_main :: "kernel \<Rightarrow> string list \<Rightarrow> sysfs \<Rightarrow> int \<times> sysfs" where
  "led_main k args s =
     (if args \<noteq> [] \<and> (hd args = ''--help'' \<or> hd args = ''-h'') then (0, s)
      else
        (let pin = (if args \<noteq> [] then hd args else LED_GPIO_PIN);
             cmd = (if length args > 1 then args ! 1 else ''toggle'')
         in case gpio_export k pin s of
              (r1, s1) \<Rightarrow> if r1 < 0 then (1, s1)
                else (case gpio_set_direction k pin ''out'' s1 of
                        (r2, s2) \<Rightarrow> if r2 < 0 then (1, s2) else led_command k pin cmd s2)))"

section \<open>Every descriptor is closed\<close>

lemmas sys_defs = sys_open_def sys_write_def sys_read_def sys_close_def Let_def

lemma op_fds:
  "gpio_export k pin s = (r, u) \<Longrightarrow> nfds u = nfds s"
  "gpio_set_direction k pin d s = (r, u) \<Longrightarrow> nfds u = nfds s"
  "gpio_set_value k pin v s = (r, u) \<Longrightarrow> nfds u = nfds s"
  "gpio_get_value k pin s = (r, u) \<Longrightarrow> nfds u = nfds s"
  by (auto simp: gpio_export_def gpio_set_direction_def gpio_set_value_def gpio_get_value_def sys_defs
      split: prod.splits if_splits option.splits)

lemma set_value_snd_fds: "nfds (snd (gpio_set_value k pin v s)) = nfds s"
  using op_fds(3) [of k pin v s] by (metis prod.collapse)

lemma blink_fds: "nfds (snd (blink_loop n k pin s)) = nfds s"
proof (induction n arbitrary: s)
  case (Suc n)
  obtain r1 s1 where s1: "gpio_set_value k pin ''1'' s = (r1, s1)" by fastforce
  obtain r2 s2 where s2: "gpio_set_value k pin ''0'' s1 = (r2, s2)" by fastforce
  show ?case using Suc.IH [of s2] op_fds(3) [OF s1] op_fds(3) [OF s2] by (simp add: s1 s2)
qed simp

lemma command_fds: "nfds (snd (led_command k pin cmd s)) = nfds s"
proof -
  obtain v s1 where s1: "gpio_get_value k pin s = (v, s1)" by fastforce
  show ?thesis
    unfolding led_command_def s1 using op_fds(4) [OF s1] by (simp add: set_value_snd_fds blink_fds del: blink_loop.simps)
qed

section \<open>What is written\<close>

text \<open>A kernel on which every call succeeds and the LED file reads as \<open>v\<close>.\<close>

definition works :: "kernel \<Rightarrow> string \<Rightarrow> bool" where
  "works k v \<longleftrightarrow> (\<forall>n p. open_ok k n p) \<and> (\<forall>n p d. fst (write_ret k n p d) = int (length d)) \<and> (\<forall>n p. read_ret k n p = Some v)"

lemma sys_works:
  assumes "works k v"
  shows "fst (sys_open k p s)" "writes (snd (sys_open k p s)) = writes s"
    "fst (fst (sys_write k p d s))" "writes (snd (sys_write k p d s)) = writes s @ [(p, d)]"
    "fst (sys_read k p s) = Some (take 2 v)" "writes (snd (sys_read k p s)) = writes s" "writes (sys_close s) = writes s"
proof -
  obtain b where "write_ret k (ncalls s) p d = (int (length d), b)" using assms by (metis prod.collapse works_def)
  then show "fst (fst (sys_write k p d s))" "writes (snd (sys_write k p d s)) = writes s @ [(p, d)]"
    by (simp_all add: sys_write_def)
qed (use assms in \<open>simp_all add: works_def sys_open_def sys_read_def sys_close_def\<close>)

lemma open_write_works:
  assumes "works k v"
  obtains s1 s2 busy where "sys_open k p s = (True, s1)" "sys_write k p d s1 = ((True, busy), s2)"
    "writes s2 = writes s @ [(p, d)]"
proof -
  obtain s1 where s1: "sys_open k p s = (True, s1)" "writes s1 = writes s"
    using sys_works(1,2) [OF assms, of p s] by (cases "sys_open k p s") auto
  obtain busy s2 where "sys_write k p d s1 = ((True, busy), s2)" "writes s2 = writes s1 @ [(p, d)]"
    using sys_works(3,4) [OF assms, of p d s1] by (cases "sys_write k p d s1") auto
  with s1 that show thesis by simp
qed

lemma set_value_works:
  assumes "works k r"
  obtains u where "gpio_set_value k pin v s = (0, u)" "writes u = writes s @ [(value_path pin, v)]"
proof -
  obtain s1 s2 busy where "sys_open k (value_path pin) s = (True, s1)" "sys_write k (value_path pin) v s1 = ((True, busy), s2)"
    "writes s2 = writes s @ [(value_path pin, v)]" using open_write_works [OF assms] .
  then show thesis by (intro that [of "sys_close s2"]) (simp_all add: gpio_set_value_def sys_close_def)
qed

lemma set_value_writes: "works k r \<Longrightarrow> writes (snd (gpio_set_value k pin v s)) = writes s @ [(value_path pin, v)]"
  using set_value_works by (metis snd_conv)

lemma setup_works:
  assumes "works k r"
  obtains s1 s2 where "gpio_export k pin s = (0, s1)" "gpio_set_direction k pin ''out'' s1 = (0, s2)"
    "writes s2 = writes s @ [(export_path, pin), (direction_path pin, ''out'')]"
proof -
  obtain t1 t2 b where t: "sys_open k export_path s = (True, t1)" "sys_write k export_path pin t1 = ((True, b), t2)"
    "writes t2 = writes s @ [(export_path, pin)]" using open_write_works [OF assms] .
  let ?s1 = "sys_close t2"
  obtain u1 u2 c where u: "sys_open k (direction_path pin) ?s1 = (True, u1)"
    "sys_write k (direction_path pin) ''out'' u1 = ((True, c), u2)" "writes u2 = writes ?s1 @ [(direction_path pin, ''out'')]"
    using open_write_works [OF assms] .
  have "gpio_export k pin s = (0, ?s1)" "gpio_set_direction k pin ''out'' ?s1 = (0, sys_close u2)"
    using t u by (simp_all add: gpio_export_def gpio_set_direction_def)
  with that t(3) u(3) show thesis by (simp add: sys_works(7) [OF assms])
qed

lemma blink_works:
  assumes "works k r"
  shows "fst (blink_loop n k pin s) = 0 \<and>
    writes (snd (blink_loop n k pin s)) = writes s @ concat (replicate n [(value_path pin, ''1''), (value_path pin, ''0'')])"
proof (induction n arbitrary: s)
  case (Suc n)
  obtain s1 where s1: "gpio_set_value k pin ''1'' s = (0, s1)" "writes s1 = writes s @ [(value_path pin, ''1'')]"
    using set_value_works [OF assms] .
  obtain s2 where s2: "gpio_set_value k pin ''0'' s1 = (0, s2)" "writes s2 = writes s1 @ [(value_path pin, ''0'')]"
    using set_value_works [OF assms] .
  show ?case using Suc.IH [of s2] s1 s2 by simp
qed simp

lemma get_value_works:
  assumes "works k v"
  obtains u where "gpio_get_value k pin s = (atoi (take 2 v), u)" "writes u = writes s"
  using assms by (auto simp: works_def gpio_get_value_def sys_open_def sys_read_def sys_close_def)

lemma command_works:
  assumes k: "works k v" "0 \<le> atoi (take 2 v)" and c: "cmd \<in> {''on'', ''off'', ''toggle'', ''blink''}"
  shows "fst (led_command k pin cmd s) = 0 \<and> writes (snd (led_command k pin cmd s)) = writes s @
    (if cmd = ''on'' then [(value_path pin, ''1'')] else if cmd = ''off'' then [(value_path pin, ''0'')]
     else if cmd = ''toggle'' then [(value_path pin, if atoi (take 2 v) = 0 then ''1'' else ''0'')]
     else concat (replicate 5 [(value_path pin, ''1''), (value_path pin, ''0'')]))"
proof -
  obtain u where u: "gpio_get_value k pin s = (atoi (take 2 v), u)" "writes u = writes s" using get_value_works [OF k(1)] .
  from c consider "cmd = ''on''" | "cmd = ''off''" | "cmd = ''toggle''" | "cmd = ''blink''" by blast
  then show ?thesis
    using k(2) u
    by cases (simp_all add: led_command_def set_value_writes [OF k(1)] blink_works [OF k(1)] del: blink_loop.simps)
qed


definition ex_kernel :: kernel where
  "ex_kernel = \<lparr>open_ok = \<lambda>_ _. True, write_ret = \<lambda>_ _ d. (int (length d), False), read_ret = \<lambda>_ _. Some [CHR ''0'', CHR 0x0A]\<rparr>"


text \<open>The commands \<^verbatim>\<open>on\<close> and \<^verbatim>\<open>off\<close> report success even when the value could not be written.\<close>

lemma led_on_ignores_failure:
  "fst (led_command k pin ''on'' s) = 0 \<and> fst (led_command k pin ''off'' s) = 0"
  by (simp add: led_command_def)

end
