(* ===== verification/CyclicTest.thy ===== *)
theory CyclicTest
  imports Prelude
begin

text \<open>
  The latency test of \<^verbatim>\<open>lesson_8/code_examples/07_cyclic_test/07_cyclic_test.c\<close> (also shipped as
  \<^verbatim>\<open>meta-yocto-workshop/recipes-RT-test/cyclic-test/files/07_cyclic_test.c\<close>). The clock, the results of
  \<^verbatim>\<open>clock_nanosleep\<close> and the flag the signal handler clears are given per iteration. Times are
  \<^verbatim>\<open>struct timespec\<close>; the sums stay far below the range of \<^verbatim>\<open>long long\<close>.
\<close>

definition ITERATIONS :: nat where "ITERATIONS = 100000"
definition INTERVAL_US :: int where "INTERVAL_US = 1000"

record tspec =
  tv_sec :: int
  tv_nsec :: int

record cyc_env =
  keep_running :: "nat \<Rightarrow> bool"
  sleep_ok :: "nat \<Rightarrow> bool"
  now :: "nat \<Rightarrow> tspec"

record cyc_stats =
  min_latency :: int
  max_latency :: int
  total_latency :: int

text \<open>\<^verbatim>\<open>setup_rt_task\<close>: whether the program continues.\<close>

definition setup_rt_task :: "int \<Rightarrow> int \<Rightarrow> bool" where
  "setup_rt_task sched_ret mlock_ret \<longleftrightarrow> \<not> sched_ret < 0 \<and> \<not> mlock_ret < 0"

definition next_target :: "tspec \<Rightarrow> tspec" where
  "next_target t_start =
     (let t = \<lparr>tv_sec = tv_sec t_start, tv_nsec = tv_nsec t_start + INTERVAL_US * 1000\<rparr>
      in if tv_nsec t \<ge> 1000000000 then \<lparr>tv_sec = tv_sec t + 1, tv_nsec = tv_nsec t - 1000000000\<rparr> else t)"

definition latency_of :: "tspec \<Rightarrow> tspec \<Rightarrow> int" where
  "latency_of t_actual t_target =
     (tv_sec t_actual - tv_sec t_target) * 1000000000 + (tv_nsec t_actual - tv_nsec t_target)"

definition update_stats :: "int \<Rightarrow> cyc_stats \<Rightarrow> cyc_stats" where
  "update_stats latency st =
     \<lparr>min_latency = (if latency < min_latency st then latency else min_latency st),
      max_latency = (if latency > max_latency st then latency else max_latency st),
      total_latency = total_latency st + latency\<rparr>"

function cyclic_loop :: "cyc_env \<Rightarrow> nat \<Rightarrow> tspec \<Rightarrow> cyc_stats \<Rightarrow> nat \<times> cyc_stats" where
  "cyclic_loop env i t_start st =
     (if i < ITERATIONS \<and> keep_running env i then
        (let t_target = next_target t_start
         in if \<not> sleep_ok env i then (i, st)
            else (let t_actual = now env i; latency = latency_of t_actual t_target
                  in cyclic_loop env (i + 1) t_actual (update_stats latency st)))
      else (i, st))"
  by pat_completeness auto
termination
  by (relation "measure (\<lambda>(env, i, t, st). ITERATIONS - i)") auto

declare cyclic_loop.simps [simp del]

text \<open>The printed minimum, maximum and average; \<open>None\<close> is the division by zero.\<close>

definition cyclic_main :: "cyc_env \<Rightarrow> tspec \<Rightarrow> (int \<times> int \<times> int) option" where
  "cyclic_main env t_start =
     (let (i, st) = cyclic_loop env 0 t_start \<lparr>min_latency = 9999999, max_latency = 0, total_latency = 0\<rparr>
      in if i = 0 then None else Some (min_latency st, max_latency st, total_latency st sdiv int i))"

section \<open>Statistics\<close>

definition ns :: "tspec \<Rightarrow> int" where
  "ns t = tv_sec t * 1000000000 + tv_nsec t"

definition normal :: "tspec \<Rightarrow> bool" where
  "normal t \<longleftrightarrow> 0 \<le> tv_nsec t \<and> tv_nsec t < 1000000000"

lemma next_target_ns: "ns (next_target t) = ns t + 1000000" "normal t \<Longrightarrow> normal (next_target t)"
  by (auto simp: ns_def next_target_def normal_def INTERVAL_US_def Let_def)

lemma latency_ns: "latency_of a b = ns a - ns b"
  by (simp add: latency_of_def ns_def algebra_simps)

text \<open>The time an iteration starts from, and its latency.\<close>

definition started :: "cyc_env \<Rightarrow> tspec \<Rightarrow> nat \<Rightarrow> tspec" where
  "started env t k = (if k = 0 then t else now env (k - 1))"

definition lat :: "cyc_env \<Rightarrow> tspec \<Rightarrow> nat \<Rightarrow> int" where
  "lat env t k = ns (now env k) - (ns (started env t k) + 1000000)"

lemma cyclic_loop_stats:
  assumes "i \<le> ITERATIONS" "min_latency st = Min (insert 9999999 (lat env t ` {..<i}))"
    "max_latency st = Max (insert 0 (lat env t ` {..<i}))" "total_latency st = (\<Sum>k<i. lat env t k)"
    "cyclic_loop env i (started env t i) st = (n, st')"
  shows "n \<le> ITERATIONS \<and> min_latency st' = Min (insert 9999999 (lat env t ` {..<n})) \<and>
    max_latency st' = Max (insert 0 (lat env t ` {..<n})) \<and> total_latency st' = (\<Sum>k<n. lat env t k)"
  using assms
proof (induction "ITERATIONS - i" arbitrary: i st)
  case 0
  then show ?case by (subst (asm) cyclic_loop.simps) (auto split: if_splits)
next
  case (Suc d)
  show ?case
  proof (cases "i < ITERATIONS \<and> keep_running env i \<and> sleep_ok env i")
    case False
    then have "cyclic_loop env i (started env t i) st = (i, st)" by (subst cyclic_loop.simps) (auto simp: Let_def)
    with Suc.prems show ?thesis by auto
  next
    case True
    let ?st = "update_stats (lat env t i) st"
    have "cyclic_loop env (i + 1) (started env t (i + 1)) ?st = (n, st')"
      using Suc.prems(5) True
      by (subst (asm) cyclic_loop.simps) (simp add: Let_def latency_ns next_target_ns lat_def started_def)
    moreover have "insert x (lat env t ` {..<i + 1}) = insert (lat env t i) (insert x (lat env t ` {..<i}))" for x
      by (auto simp: lessThan_Suc)
    then have "Min (insert x (lat env t ` {..<i + 1})) = min (lat env t i) (Min (insert x (lat env t ` {..<i})))"
      "Max (insert x (lat env t ` {..<i + 1})) = max (lat env t i) (Max (insert x (lat env t ` {..<i})))" for x
      by (simp_all only: Min_insert [OF finite.insertI [OF finite_imageI [OF finite_lessThan]] insert_not_empty]
          Max_insert [OF finite.insertI [OF finite_imageI [OF finite_lessThan]] insert_not_empty])
    then have "min_latency ?st = Min (insert 9999999 (lat env t ` {..<i + 1}))"
      "max_latency ?st = Max (insert 0 (lat env t ` {..<i + 1}))"
      using Suc.prems(2,3) by (simp_all only: update_stats_def cyc_stats.simps min_def max_def split: if_split) linarith+
    moreover have "total_latency ?st = (\<Sum>k<i + 1. lat env t k)" using Suc.prems(4) by (simp add: update_stats_def)
    ultimately show ?thesis using Suc.hyps(1) [of "i + 1" ?st] Suc.hyps(2) True by simp
  qed
qed

lemma total_telescopes: "(\<Sum>k<n. lat env t k) = ns (started env t n) - ns t - int n * 1000000"
  by (induction n) (auto simp: lat_def started_def)

text \<open>
  After \<open>n \<ge> 1\<close> measured iterations the test reports the least and the greatest latency against the target, one
  interval after the previous wake-up (with the initial values 9999999 and 0 taking part), and the
  average of the latencies, which is the total drift divided by \<open>n\<close>. When no iteration completes, the
  average divides by zero.
\<close>

lemma cyclic_test_report:
  assumes "cyclic_loop env 0 t \<lparr>min_latency = 9999999, max_latency = 0, total_latency = 0\<rparr> = (n, st)"
  shows "n \<le> ITERATIONS \<and> cyclic_main env t =
    (if n = 0 then None
     else Some (Min (insert 9999999 (lat env t ` {..<n})), Max (insert 0 (lat env t ` {..<n})),
                (ns (now env (n - 1)) - ns t - int n * 1000000) sdiv int n))"
proof -
  have "cyclic_loop env 0 (started env t 0) \<lparr>min_latency = 9999999, max_latency = 0, total_latency = 0\<rparr> = (n, st)"
    using assms by (simp add: started_def)
  from cyclic_loop_stats [OF _ _ _ _ this] have "n \<le> ITERATIONS" "min_latency st = Min (insert 9999999 (lat env t ` {..<n}))"
    "max_latency st = Max (insert 0 (lat env t ` {..<n}))" "total_latency st = (\<Sum>k<n. lat env t k)" by simp_all
  then show ?thesis
    using assms by (simp add: cyclic_main_def total_telescopes started_def)
qed

definition ex_env :: cyc_env where
  "ex_env = \<lparr>keep_running = \<lambda>i. i < 1, sleep_ok = \<lambda>_. True, now = \<lambda>_. \<lparr>tv_sec = 5, tv_nsec = 1002500\<rparr>\<rparr>"

end
