(* ===== verification/FifoDemo.thy ===== *)
theory FifoDemo
  imports CString
begin

text \<open>
  \<^verbatim>\<open>lesson_5/code_examples/03_epoll_multi_buffer_fds\<close>: a writer process sends a timestamp and a line with one \<^verbatim>\<open>writev\<close>
  to two FIFOs; the receiver reads them with \<^verbatim>\<open>readv\<close> into two buffers, logs them and echoes them. The
  buffers are arrays with their previous contents, a C string ends at the first NUL. The FIFOs are
  byte queues of bounded capacity (writes of this size are atomic and wait for room). This theory
  holds the state and the operations of the two loops; the processes are composed in \<open>FifoDemo_System\<close>.
\<close>

definition BUF_SIZE :: nat where "BUF_SIZE = 256"

text \<open>Where the writer (child) and the receiver (parent) are; a flag after an \<^verbatim>\<open>open\<close> says whether the first of two succeeded.\<close>

datatype wpc = WOpen1 | WOpen2 bool | WResp1 | WResp2 bool | WEpoll | WLoop | WSend1 string | WSend2 string
  | WPoll | WRead "(nat \<times> bool) list" | WClose | WExit bool | WKilled

datatype rpc = ROpen1 | ROpen2 bool | RResp1 | RResp2 bool | RFopen | REpoll | RPoll
  | RRead "(nat \<times> bool) list" | REcho nat string "(nat \<times> bool) list" | RClose | RWait | RExit bool | RKilled

text \<open>
  The FIFOs are numbered 1 and 2: \<open>fifo i\<close> leads to the receiver, \<open>resp i\<close> back to the writer. For each the
  writing and the reading end may be open; \<open>w_reg\<close> and \<open>r_reg\<close> are the descriptors in the two epoll sets. The fields
  \<open>sent\<close> and \<open>got\<close> record what was written to and read from \<open>fifo i\<close>.
\<close>

record fifos =
  fifo :: "nat \<Rightarrow> string"
  resp :: "nat \<Rightarrow> string"
  fifo_w :: "nat set"
  fifo_r :: "nat set"
  resp_w :: "nat set"
  resp_r :: "nat set"
  w_reg :: "nat set"
  r_reg :: "nat set"
  input :: "string list"
  nmsg :: nat
  received_log :: "string list"
  shown :: "(nat \<times> string \<times> string) list"
  wp :: wpc
  rp :: rpc
  sent :: "nat \<Rightarrow> string"
  got :: "nat \<Rightarrow> string"

text \<open>
  \<^verbatim>\<open>create_fifos\<close>: the four \<^verbatim>\<open>mkfifo\<close> calls in order, given whether each returns an error and whether that is
  \<^verbatim>\<open>EEXIST\<close>; the result and the names tried.
\<close>

fun create_loop :: "(string \<Rightarrow> bool \<times> bool) \<Rightarrow> string list \<Rightarrow> int \<times> string list" where
  "create_loop mkfifo [] = (0, [])"
| "create_loop mkfifo (name # names) =
     (let (failed, exists) = mkfifo name
      in if failed \<and> \<not> exists then (-1, [name])
         else (let (r, tried) = create_loop mkfifo names in (r, name # tried)))"

definition create_fifos :: "(string \<Rightarrow> bool \<times> bool) \<Rightarrow> int \<times> string list" where
  "create_fifos mkfifo = create_loop mkfifo [''fifo1'', ''fifo2'', ''fifo1_resp'', ''fifo2_resp'']"

text \<open>One line of input (as \<^verbatim>\<open>fgets\<close> returns it, at most 255 characters): what is sent, or \<open>None\<close> to end the loop.\<close>

definition writer_line :: "string \<Rightarrow> string \<Rightarrow> string option" where
  "writer_line ts line =
     (let user_line = chop_newline line
      in if user_line = ''exit'' then None else Some (ts @ user_line))"

text \<open>
  \<^verbatim>\<open>readv\<close> into the two buffers, of 31 and 255 bytes, and the terminators the code adds: the number of
  bytes, the buffers, and what is left in the queue.
\<close>

definition readv2 :: "char list \<Rightarrow> char list \<Rightarrow> string \<Rightarrow> nat \<times> char list \<times> char list \<times> string" where
  "readv2 ts_buf msg_buf queue =
     (let d = take (31 + (BUF_SIZE - 1)) queue;
          t = blit ts_buf 0 (take 31 d);
          m = blit msg_buf 0 (drop 31 d)
      in (length d, t[31 := NUL], m[BUF_SIZE - 1 := NUL], drop (length d) queue))"

text \<open>
  The receiver's handling of an event on \<^verbatim>\<open>fifo1\<close> or \<^verbatim>\<open>fifo2\<close>. With data it logs them and goes on to the echo; \<^verbatim>\<open>readv\<close> returns 0
  when the queue is empty and nobody has it open for writing, and fails with \<^verbatim>\<open>EAGAIN\<close> when it is only empty.
\<close>

definition receiver_event :: "char list \<Rightarrow> char list \<Rightarrow> nat \<Rightarrow> (nat \<times> bool) list \<Rightarrow> fifos \<Rightarrow> fifos" where
  "receiver_event ts_buf msg_buf rfd rest s =
     (let (n, ts, msg, left) = readv2 ts_buf msg_buf (fifo s rfd)
      in if n > 0 then
           s\<lparr>fifo := (fifo s)(rfd := left), got := (got s)(rfd := got s rfd @ take n (fifo s rfd)),
             received_log := received_log s @ [cstr ts @ '' '' @ cstr msg],
             rp := REcho rfd (cstr ts @ cstr msg) rest\<rparr>
         else if rfd \<notin> fifo_w s then s\<lparr>r_reg := r_reg s - {rfd}, fifo_r := fifo_r s - {rfd}, rp := RRead rest\<rparr>
         else s\<lparr>rp := RRead rest\<rparr>)"

text \<open>The writer's reading of a response.\<close>

definition writer_response :: "char list \<Rightarrow> char list \<Rightarrow> nat \<Rightarrow> (nat \<times> bool) list \<Rightarrow> fifos \<Rightarrow> fifos" where
  "writer_response ts_buf msg_buf rfd rest s =
     (let (n, ts, msg, left) = readv2 ts_buf msg_buf (resp s rfd)
      in if n > 0 then
           s\<lparr>resp := (resp s)(rfd := left), shown := shown s @ [(rfd, cstr ts, cstr msg)], wp := WRead rest\<rparr>
         else if rfd \<notin> resp_w s then s\<lparr>w_reg := w_reg s - {rfd}, resp_r := resp_r s - {rfd}, wp := WRead rest\<rparr>
         else s\<lparr>wp := WRead rest\<rparr>)"

section \<open>Framing\<close>

lemma readv2_short:
  assumes "length d \<le> 31" "length ts_buf = 32"
  shows "readv2 ts_buf msg_buf d = (length d, (d @ drop (length d) ts_buf)[31 := NUL], msg_buf[255 := NUL], [])"
  using assms by (simp add: readv2_def BUF_SIZE_def blit_def)

lemma readv2_long:
  assumes "31 \<le> length d" "length d \<le> 286" "length ts_buf = 32" "length msg_buf = 256" "NUL \<notin> set d"
  shows "\<exists>t m. readv2 ts_buf msg_buf d = (length d, t, m, []) \<and> cstr t = take 31 d \<and>
    cstr m = drop 31 d @ cstr ((drop (length d - 31) msg_buf)[286 - length d := NUL])"
proof -
  let ?t = "(take 31 d @ drop 31 ts_buf)[31 := NUL]"
  let ?m = "(drop 31 d @ drop (length d - 31) msg_buf)[255 := NUL]"
  have "readv2 ts_buf msg_buf d = (length d, ?t, ?m, [])"
    using assms(1,2) by (simp add: readv2_def BUF_SIZE_def blit_def min_def)
  moreover have "cstr ?t = take 31 d"
  proof -
    have "length (drop 31 ts_buf) = Suc 0" using assms(3) by simp
    then obtain x where x: "drop 31 ts_buf = [x]" by (metis length_0_conv length_Suc_conv)
    have "length (take 31 d) = 31" using assms(1) by simp
    then have "?t = take 31 d @ [NUL]" by (simp only: x list_update_append) simp
    moreover have "NUL \<notin> set (take 31 d)" using assms(5) in_set_takeD by fast
    ultimately show ?thesis using cstr_append [of "take 31 d" "[]"] by simp
  qed
  moreover have l: "length (drop 31 d) = length d - 31" "(255 < length d - 31) = False" "255 - (length d - 31) = 286 - length d"
    using assms(1,2) by auto
  have "?m = drop 31 d @ (drop (length d - 31) msg_buf)[286 - length d := NUL]"
    by (simp only: list_update_append l if_False)
  then have "cstr ?m = drop 31 d @ cstr ((drop (length d - 31) msg_buf)[286 - length d := NUL])"
    using assms(5) in_set_dropD [of NUL 31 d] by (metis cstr_prefix)
  ultimately show ?thesis by blast
qed

text \<open>
  C23. The receiver does not recover the two fields the writer sent: \<^verbatim>\<open>readv\<close> fills the timestamp buffer first, so a
  message of at most 21 characters ends up behind the timestamp in that buffer and the message buffer
  keeps its old contents, whatever was sent. Longer messages are split after 21 characters.
\<close>

theorem fifo_message_misframed:
  assumes "length ts = 10" "NUL \<notin> set ts" "NUL \<notin> set msg" "length ts_buf = 32" "length msg_buf = 256"
  shows "(length msg \<le> 21 \<longrightarrow>
      (\<exists>t. readv2 ts_buf msg_buf (ts @ msg) = (10 + length msg, t, msg_buf[255 := NUL], []) \<and> take (10 + length msg) (cstr t) = ts @ msg))
    \<and> (21 \<le> length msg \<and> length msg \<le> 276 \<longrightarrow>
      (\<exists>t m. readv2 ts_buf msg_buf (ts @ msg) = (10 + length msg, t, m, []) \<and> cstr t = ts @ take 21 msg \<and>
         take (length msg - 21) (cstr m) = drop 21 msg))"
proof (intro conjI impI)
  assume short: "length msg \<le> 21"
  let ?t = "((ts @ msg) @ drop (10 + length msg) ts_buf)[31 := NUL]"
  have "readv2 ts_buf msg_buf (ts @ msg) = (10 + length msg, ?t, msg_buf[255 := NUL], [])"
    using readv2_short [of "ts @ msg" ts_buf msg_buf] short assms(1,4) by simp
  moreover have "?t = (ts @ msg) @ (drop (10 + length msg) ts_buf)[21 - length msg := NUL]"
    using short assms(1) by (simp only: list_update_append) simp
  then have "cstr ?t = (ts @ msg) @ cstr ((drop (10 + length msg) ts_buf)[21 - length msg := NUL])"
    using assms(2,3) cstr_prefix [of "ts @ msg"] by simp
  then have "take (10 + length msg) (cstr ?t) = ts @ msg" using assms(1) by simp
  ultimately show "\<exists>t. readv2 ts_buf msg_buf (ts @ msg) = (10 + length msg, t, msg_buf[255 := NUL], []) \<and>
    take (10 + length msg) (cstr t) = ts @ msg" by blast
next
  assume long: "21 \<le> length msg \<and> length msg \<le> 276"
  let ?d = "ts @ msg"
  have len: "31 \<le> length ?d" "length ?d \<le> 286" "NUL \<notin> set ?d" using long assms(1-3) by auto
  obtain t m where tm: "readv2 ts_buf msg_buf ?d = (length ?d, t, m, [])" "cstr t = take 31 ?d"
    "cstr m = drop 31 ?d @ cstr ((drop (length ?d - 31) msg_buf)[286 - length ?d := NUL])"
    using readv2_long [OF len(1,2) assms(4,5) len(3)] by blast
  moreover have "take 31 ?d = ts @ take 21 msg" "drop 31 ?d = drop 21 msg" using assms(1) by simp_all
  ultimately show "\<exists>t m. readv2 ts_buf msg_buf ?d = (10 + length msg, t, m, []) \<and> cstr t = ts @ take 21 msg \<and>
    take (length msg - 21) (cstr m) = drop 21 msg"
    using assms(1) by (intro exI [of _ t] exI [of _ m]) simp
qed

theorem fifo_message_misframed_witness:
  "\<exists>t. readv2 (replicate 32 NUL) (replicate 256 NUL) (''[10:20:30]'' @ ''hello'') = (15, t, (replicate 256 NUL)[255 := NUL], []) \<and>
     take 15 (cstr t) = ''[10:20:30]hello''"
  using fifo_message_misframed [of "''[10:20:30]''" "''hello''" "replicate 32 NUL" "replicate 256 NUL"] by simp

end
