(* ===== verification/Logger.thy ===== *)
theory Logger
  imports CString Transition
begin

text \<open>
  \<^verbatim>\<open>lesson_5/code_examples/01_file_IO_relegating/01_multithreaded_relegated.c\<close>: four workers send log messages through a
  POSIX message queue to one I/O thread, which writes them to a file. All messages have priority 0, so
  the queue is first-in first-out; \<^verbatim>\<open>mq_send\<close> blocks while it is full and refuses a message that is too
  long, \<^verbatim>\<open>mq_receive\<close> blocks while it is empty. The results of \<^verbatim>\<open>mq_open\<close> and \<^verbatim>\<open>fopen\<close> are given by an
  environment; an open also fails once the queue was unlinked. Sleeps and error messages are not
  modelled.
\<close>

definition NUM_WORKERS :: nat where "NUM_WORKERS = 4"
definition LOG_MESSAGE_SIZE :: nat where "LOG_MESSAGE_SIZE = 256"
definition MQ_MAX_MESSAGES :: nat where "MQ_MAX_MESSAGES = 10"

section \<open>The message queue\<close>

datatype send_result = Would_block | Send_error | Sent "string list"

definition mq_send :: "string \<Rightarrow> string list \<Rightarrow> send_result" where
  "mq_send m q = (if length m > LOG_MESSAGE_SIZE then Send_error
     else if length q \<ge> MQ_MAX_MESSAGES then Would_block else Sent (q @ [m]))"

definition mq_receive :: "string list \<Rightarrow> (string \<times> string list) option" where
  "mq_receive q = (case q of [] \<Rightarrow> None | m # r \<Rightarrow> Some (m, r))"

section \<open>Threads\<close>

record lg_env =
  main_open_ok :: bool
  io_open_ok :: bool
  fopen_ok :: bool
  worker_open_ok :: "nat \<Rightarrow> bool"
  exit_open_ok :: bool

datatype io_pc = INone | IOpen | IRecv | IDone
datatype wk_pc = WOpen | WSend nat | WDone
datatype lg_main_pc = MOpen | MStart nat | MJoin nat | MExit | MJoinIo | MDone bool

record lg_sys =
  mq :: "string list"
  linked :: bool
  io :: io_pc
  workers :: "wk_pc list"
  main_pc :: lg_main_pc
  logs :: "string list"
  console :: "string list"

definition log_message :: "nat \<Rightarrow> nat \<Rightarrow> string" where
  "log_message wid i = c_truncate LOG_MESSAGE_SIZE
     (''Worker '' @ decimal wid @ '': Log Entry '' @ decimal i @ [CHR 0x0A])"

definition io_thread_func :: "lg_env \<Rightarrow> lg_sys \<Rightarrow> lg_sys option" where
  "io_thread_func env s =
     (case io s of
        IOpen \<Rightarrow> Some (s\<lparr>io := (if io_open_ok env \<and> linked s \<and> fopen_ok env then IRecv else IDone)\<rparr>)
      | IRecv \<Rightarrow>
          (case mq_receive (mq s) of
             None \<Rightarrow> None
           | Some (m, q) \<Rightarrow>
               (let s1 = s\<lparr>mq := q\<rparr>
                in if m = [] then Some s1
                   else if m = ''EXIT'' then Some (s1\<lparr>io := IDone, linked := False\<rparr>)
                   else Some (s1\<lparr>logs := logs s1 @ [m], console := console s1 @ [m]\<rparr>)))
      | _ \<Rightarrow> None)"

definition worker_thread_func :: "lg_env \<Rightarrow> nat \<Rightarrow> lg_sys \<Rightarrow> lg_sys option" where
  "worker_thread_func env t s =
     (case workers s ! t of
        WOpen \<Rightarrow> Some (s\<lparr>workers := (workers s)[t := (if worker_open_ok env t \<and> linked s then WSend 0 else WDone)]\<rparr>)
      | WSend i \<Rightarrow>
          (if i < 5 then
             (case mq_send (log_message (t + 1) i) (mq s) of
                Would_block \<Rightarrow> None
              | Send_error \<Rightarrow> Some (s\<lparr>workers := (workers s)[t := WSend (i + 1)]\<rparr>)
              | Sent q \<Rightarrow> Some (s\<lparr>mq := q, workers := (workers s)[t := WSend (i + 1)]\<rparr>))
           else Some (s\<lparr>workers := (workers s)[t := WDone]\<rparr>))
      | WDone \<Rightarrow> None)"

definition logger_main :: "lg_env \<Rightarrow> lg_sys \<Rightarrow> lg_sys option" where
  "logger_main env s =
     (case main_pc s of
        MOpen \<Rightarrow> Some (if main_open_ok env then s\<lparr>linked := True, main_pc := MStart 0\<rparr> else s\<lparr>main_pc := MDone False\<rparr>)
      | MStart k \<Rightarrow>
          Some (if k = 0 then s\<lparr>io := IOpen, main_pc := MStart 1\<rparr>
                else if k \<le> NUM_WORKERS then s\<lparr>workers := workers s @ [WOpen], main_pc := MStart (k + 1)\<rparr>
                else s\<lparr>main_pc := MJoin 0\<rparr>)
      | MJoin i \<Rightarrow>
          (if i < NUM_WORKERS then (if workers s ! i = WDone then Some (s\<lparr>main_pc := MJoin (i + 1)\<rparr>) else None)
           else Some (s\<lparr>main_pc := MExit\<rparr>))
      | MExit \<Rightarrow>
          (if exit_open_ok env \<and> linked s
           then (case mq_send ''EXIT'' (mq s) of
                   Would_block \<Rightarrow> None
                 | Send_error \<Rightarrow> Some (s\<lparr>main_pc := MJoinIo\<rparr>)
                 | Sent q \<Rightarrow> Some (s\<lparr>mq := q, main_pc := MJoinIo\<rparr>))
           else Some (s\<lparr>main_pc := MJoinIo\<rparr>))
      | MJoinIo \<Rightarrow> (if io s = IDone then Some (s\<lparr>main_pc := MDone True\<rparr>) else None)
      | MDone r \<Rightarrow> None)"

definition lg_step :: "lg_env \<Rightarrow> lg_sys \<Rightarrow> lg_sys \<Rightarrow> bool" where
  "lg_step env s u \<longleftrightarrow> io_thread_func env s = Some u \<or> logger_main env s = Some u \<or>
     (\<exists>t < length (workers s). worker_thread_func env t s = Some u)"

text \<open>Before \<^verbatim>\<open>main\<close>; a queue left by an earlier run would still hold its messages.\<close>

definition lg_start :: "string list \<Rightarrow> lg_sys" where
  "lg_start stale = \<lparr>mq = stale, linked = False, io = INone, workers = [], main_pc = MOpen, logs = [], console = []\<rparr>"

definition lg_works :: "lg_env \<Rightarrow> bool" where
  "lg_works env \<longleftrightarrow> main_open_ok env \<and> io_open_ok env \<and> fopen_ok env \<and> (\<forall>t. worker_open_ok env t) \<and> exit_open_ok env"

definition lg_final :: "lg_sys \<Rightarrow> bool" where
  "lg_final s \<longleftrightarrow> (\<exists>r. main_pc s = MDone r)"

section \<open>Messages\<close>

text \<open>The worker a message names.\<close>

definition sender :: "string \<Rightarrow> nat" where
  "sender m = fst (strtoul (drop 7 m))"

lemma log_message_eq:
  assumes "wid < 10" "i < 10"
  shows "log_message wid i = ''Worker '' @ decimal wid @ '': Log Entry '' @ decimal i @ [CHR 0x0A]"
proof -
  have "length (decimal n) = 1" if "n < 10" for n using that by (subst decimal.simps) simp
  with assms show ?thesis by (simp add: log_message_def c_truncate_def LOG_MESSAGE_SIZE_def)
qed

lemma log_message_facts:
  assumes "wid < 10" "i < 10"
  shows "length (log_message wid i) \<le> LOG_MESSAGE_SIZE" "sender (log_message wid i) = wid" "log_message wid i \<noteq> []"
proof -
  show "length (log_message wid i) \<le> LOG_MESSAGE_SIZE"
    by (simp add: log_message_def c_truncate_def LOG_MESSAGE_SIZE_def)
  have "sender (log_message wid i) = fst (strtoul (decimal wid @ '': Log Entry '' @ decimal i @ [CHR 0x0A]))"
    by (simp add: sender_def log_message_eq [OF assms])
  also have "\<dots> = wid" using assms by (subst strtoul_decimal) (auto simp: is_digit_def)
  finally show "sender (log_message wid i) = wid" .
  show "log_message wid i \<noteq> []" by (simp add: log_message_eq [OF assms])
qed

lemma sender_EXIT: "sender ''EXIT'' = 0"
  by (simp add: sender_def strtoul_def sign_of_def)

section \<open>Invariant\<close>

fun sent_count :: "wk_pc \<Rightarrow> nat" where
  "sent_count WOpen = 0"
| "sent_count (WSend i) = i"
| "sent_count WDone = 5"

fun started_workers :: "lg_main_pc \<Rightarrow> nat" where
  "started_workers MOpen = 0"
| "started_workers (MStart k) = k - 1"
| "started_workers _ = NUM_WORKERS"

fun joined :: "lg_main_pc \<Rightarrow> nat" where
  "joined MOpen = 0"
| "joined (MStart k) = 0"
| "joined (MJoin i) = i"
| "joined _ = NUM_WORKERS"

fun exit_sent :: "lg_main_pc \<Rightarrow> bool" where
  "exit_sent MJoinIo = True"
| "exit_sent (MDone r) = True"
| "exit_sent _ = False"

fun main_ok :: "lg_main_pc \<Rightarrow> bool" where
  "main_ok (MStart k) \<longleftrightarrow> k \<le> NUM_WORKERS + 1"
| "main_ok (MJoin i) \<longleftrightarrow> i \<le> NUM_WORKERS"
| "main_ok (MDone r) \<longleftrightarrow> r"
| "main_ok _ \<longleftrightarrow> True"

text \<open>What was logged or is in the queue, besides the request to exit.\<close>

definition messages :: "lg_sys \<Rightarrow> string list" where
  "messages s = logs s @ filter (\<lambda>m. m \<noteq> ''EXIT'') (mq s)"

definition control_inv :: "lg_sys \<Rightarrow> bool" where [wf_simps]:
  "control_inv s \<longleftrightarrow> main_ok (main_pc s) \<and> length (workers s) = started_workers (main_pc s) \<and>
     (io s = INone \<longleftrightarrow> main_pc s = MOpen \<or> main_pc s = MStart 0) \<and>
     (\<forall>i < joined (main_pc s). workers s ! i = WDone) \<and>
     (linked s \<longleftrightarrow> main_pc s \<noteq> MOpen \<and> io s \<noteq> IDone) \<and>
     (io s = IDone \<longrightarrow> exit_sent (main_pc s)) \<and> (main_pc s = MDone True \<longrightarrow> io s = IDone)"

definition queue_inv :: "lg_sys \<Rightarrow> bool" where [wf_simps]:
  "queue_inv s \<longleftrightarrow> length (mq s) \<le> MQ_MAX_MESSAGES \<and> console s = logs s \<and>
     (if exit_sent (main_pc s) \<and> io s \<noteq> IDone then \<exists>q. mq s = q @ [''EXIT''] \<and> ''EXIT'' \<notin> set q else ''EXIT'' \<notin> set (mq s)) \<and>
     (io s = IDone \<longrightarrow> mq s = [])"

definition stream_inv :: "lg_sys \<Rightarrow> bool" where [wf_simps]:
  "stream_inv s \<longleftrightarrow> (\<forall>t < length (workers s). sent_count (workers s ! t) \<le> 5 \<and>
       filter (\<lambda>m. sender m = t + 1) (messages s) = map (log_message (t + 1)) [0..<sent_count (workers s ! t)]) \<and>
     (\<forall>m \<in> set (messages s). m \<noteq> [] \<and> 0 < sender m \<and> sender m \<le> length (workers s))"

definition lg_inv :: "lg_sys \<Rightarrow> bool" where [wf_simps]:
  "lg_inv s \<longleftrightarrow> control_inv s \<and> queue_inv s \<and> stream_inv s"

lemma lg_io_inv:
  assumes "lg_works env" "lg_inv s" "io_thread_func env s = Some u"
  shows "lg_inv u"
proof (cases "io s")
  case IOpen
  then show ?thesis using assms
    by (auto simp: io_thread_func_def lg_works_def lg_inv_def control_inv_def queue_inv_def stream_inv_def messages_def)
next
  case IRecv
  then obtain m q where q: "mq s = m # q"
    using assms(3) by (auto simp: io_thread_func_def mq_receive_def split: list.splits)
  show ?thesis
  proof (cases "m = ''EXIT''")
    case True
    with IRecv q assms(3) have u: "u = s\<lparr>mq := q, io := IDone, linked := False\<rparr>"
      by (simp add: io_thread_func_def mq_receive_def)
    have "exit_sent (main_pc s)" "q = []"
      using assms(2) IRecv q True by (auto simp: lg_inv_def queue_inv_def Cons_eq_append_conv split: if_splits)
    with assms(2) IRecv q True show ?thesis
      by (auto simp: u lg_inv_def control_inv_def queue_inv_def stream_inv_def messages_def)
  next
    case False
    have "m \<noteq> []" using assms(2) q False by (auto simp: lg_inv_def stream_inv_def messages_def)
    with False IRecv q assms(3) have u: "u = s\<lparr>mq := q, logs := logs s @ [m], console := console s @ [m]\<rparr>"
      by (simp add: io_thread_func_def mq_receive_def)
    have "messages u = messages s" using q False by (simp add: messages_def u)
    moreover have "control_inv u" using assms(2) by (simp add: u lg_inv_def control_inv_def)
    moreover have "queue_inv u" using assms(2) q False IRecv
      by (auto simp: u lg_inv_def queue_inv_def Cons_eq_append_conv split: if_splits)
    ultimately show ?thesis using assms(2) by (simp add: lg_inv_def stream_inv_def) (simp add: u)
  qed
qed (use assms in \<open>auto simp: io_thread_func_def\<close>)

lemma stream_inv_send:
  assumes "stream_inv s" "t < length (workers s)" "length (workers s) \<le> NUM_WORKERS" "workers s ! t = WSend i" "i < 5"
    "messages u = messages s @ [log_message (t + 1) i]" "workers u = (workers s)[t := WSend (i + 1)]"
  shows "stream_inv u"
proof -
  have f: "t + 1 < 10" "i < 10" using assms(2,3,5) by (auto simp: NUM_WORKERS_def)
  have "filter (\<lambda>m. sender m = k + 1) (messages u) = map (log_message (k + 1)) [0..<sent_count (workers u ! k)]"
    if "k < length (workers s)" for k
    using that assms log_message_facts(2) [OF f] by (cases "k = t") (auto simp: stream_inv_def)
  moreover have "sent_count (workers u ! k) \<le> 5" if "k < length (workers s)" for k
    using that assms by (cases "k = t") (auto simp: stream_inv_def)
  moreover have "m \<noteq> [] \<and> 0 < sender m \<and> sender m \<le> length (workers u)" if "m \<in> set (messages u)" for m
    using that assms(1,2,6,7) log_message_facts(2,3) [OF f] by (auto simp: stream_inv_def)
  ultimately show ?thesis using assms(7) by (simp add: stream_inv_def)
qed

lemma lg_worker_inv:
  assumes "lg_works env" "lg_inv s" "t < length (workers s)" "worker_thread_func env t s = Some u"
  shows "lg_inv u"
proof -
  have c: "control_inv s" "queue_inv s" "stream_inv s" using assms(2) by (simp_all add: lg_inv_def)
  have n: "length (workers s) \<le> NUM_WORKERS" using c(1) by (cases "main_pc s") (auto simp: control_inv_def)
  have notdone: "\<not> t < joined (main_pc s)" "\<not> exit_sent (main_pc s)"
    if "workers s ! t \<noteq> WDone"
    using that c(1) assms(3) by (cases "main_pc s"; auto simp: control_inv_def)+
  show ?thesis
  proof (cases "workers s ! t")
    case WDone
    with assms(4) show ?thesis by (simp add: worker_thread_func_def)
  next
    case WOpen
    have "linked s" using WOpen c(1) notdone assms(3) by (cases "main_pc s") (auto simp: control_inv_def)
    with WOpen assms(1,4) have u: "u = s\<lparr>workers := (workers s)[t := WSend 0]\<rparr>"
      by (simp add: worker_thread_func_def lg_works_def)
    have "sent_count ((workers s)[t := WSend 0] ! k) = sent_count (workers s ! k)" if "k < length (workers s)" for k
      using that WOpen by (cases "k = t") auto
    then have "stream_inv u" using c(3) by (simp add: u stream_inv_def messages_def)
    moreover have "control_inv u" using c(1) notdone WOpen by (auto simp: u control_inv_def nth_list_update)
    moreover have "queue_inv u" using c(2) by (simp add: u queue_inv_def)
    ultimately show ?thesis by (simp add: lg_inv_def)
  next
    case (WSend i)
    show ?thesis
    proof (cases "i < 5")
      case False
      with WSend assms(4) have u: "u = s\<lparr>workers := (workers s)[t := WDone]\<rparr>" by (simp add: worker_thread_func_def)
      have "i = 5" using False WSend c(3) assms(3) by (auto simp: stream_inv_def)
      then have "sent_count ((workers s)[t := WDone] ! k) = sent_count (workers s ! k)" if "k < length (workers s)" for k
        using that WSend by (cases "k = t") auto
      then have "stream_inv u" using c(3) by (simp add: u stream_inv_def messages_def)
      moreover have "(workers s)[t := WDone] ! k = WDone" if "workers s ! k = WDone" for k
        using that assms(3) by (cases "k = t") auto
      then have "control_inv u" using c(1) by (auto simp: u control_inv_def)
      moreover have "queue_inv u" using c(2) by (simp add: u queue_inv_def)
      ultimately show ?thesis by (simp add: lg_inv_def)
    next
      case True
      let ?m = "log_message (t + 1) i"
      have f: "t + 1 < 10" "i < 10" using assms(3) n True by (auto simp: NUM_WORKERS_def)
      note m = log_message_facts [OF f]
      have "?m \<noteq> ''EXIT''" using m(2) sender_EXIT by force
      moreover have u: "u = s\<lparr>mq := mq s @ [?m], workers := (workers s)[t := WSend (i + 1)]\<rparr>" "length (mq s) < MQ_MAX_MESSAGES"
        using True WSend assms(4) m(1) by (auto simp: worker_thread_func_def mq_send_def split: if_splits)
      moreover have "\<not> exit_sent (main_pc s)" "io s \<noteq> IDone" using notdone WSend c(1) by (auto simp: control_inv_def)
      ultimately have "queue_inv u" using c(2) by (auto simp: u(1) queue_inv_def)
      moreover have "stream_inv u"
        by (rule stream_inv_send [OF c(3) assms(3) n WSend True]) (use \<open>?m \<noteq> ''EXIT''\<close> in \<open>simp_all add: u(1) messages_def\<close>)
      moreover have "control_inv u" using c(1) notdone WSend by (auto simp: u(1) control_inv_def nth_list_update)
      ultimately show ?thesis by (simp add: lg_inv_def)
    qed
  qed
qed

lemma lg_main_inv:
  assumes "lg_works env" "lg_inv s" "logger_main env s = Some u"
  shows "lg_inv u"
proof -
  have c: "control_inv s" "queue_inv s" "stream_inv s" using assms(2) by (simp_all add: lg_inv_def)
  show ?thesis
  proof (cases "main_pc s")
    case MOpen
    with assms(1,3) have u: "u = s\<lparr>linked := True, main_pc := MStart 0\<rparr>" by (simp add: logger_main_def lg_works_def)
    show ?thesis using c MOpen by (auto simp: u lg_inv_def control_inv_def queue_inv_def stream_inv_def messages_def)
  next
    case (MStart k)
    consider "k = 0" | "0 < k" "k \<le> NUM_WORKERS" | "k = NUM_WORKERS + 1" using c(1) MStart by (fastforce simp: control_inv_def)
    then show ?thesis
    proof cases
      case 1
      with MStart assms(3) have u: "u = s\<lparr>io := IOpen, main_pc := MStart 1\<rparr>" by (simp add: logger_main_def)
      show ?thesis using c MStart 1
        by (auto simp: u lg_inv_def control_inv_def queue_inv_def stream_inv_def messages_def NUM_WORKERS_def)
    next
      case 2
      with MStart assms(3) have u: "u = s\<lparr>workers := workers s @ [WOpen], main_pc := MStart (k + 1)\<rparr>"
        by (simp add: logger_main_def)
      have "sender m \<noteq> Suc (length (workers s))" if "m \<in> set (messages s)" for m using that c(3) by (fastforce simp: stream_inv_def)
      then have "filter (\<lambda>m. sender m = Suc (length (workers s))) (messages s) = []" by (simp add: filter_empty_conv)
      then have "stream_inv u" using c(3) by (auto simp: u stream_inv_def messages_def nth_append less_Suc_eq intro: le_SucI)
      then show ?thesis using c MStart 2 by (simp add: u lg_inv_def control_inv_def queue_inv_def)
    next
      case 3
      with MStart assms(3) have u: "u = s\<lparr>main_pc := MJoin 0\<rparr>" by (simp add: logger_main_def)
      show ?thesis using c MStart 3 by (simp add: u lg_inv_def control_inv_def queue_inv_def stream_inv_def messages_def)
    qed
  next
    case (MJoin i)
    with assms(3) have "u = s\<lparr>main_pc := MJoin (i + 1)\<rparr> \<and> i < NUM_WORKERS \<and> workers s ! i = WDone \<or>
      u = s\<lparr>main_pc := MExit\<rparr> \<and> \<not> i < NUM_WORKERS" by (auto simp: logger_main_def split: if_splits)
    then show ?thesis
    proof (elim disjE conjE)
      assume u: "u = s\<lparr>main_pc := MJoin (i + 1)\<rparr>" "i < NUM_WORKERS" "workers s ! i = WDone"
      then have "control_inv u" using c(1) MJoin by (auto simp: control_inv_def less_Suc_eq)
      then show ?thesis using c MJoin u(1) by (simp add: lg_inv_def queue_inv_def stream_inv_def messages_def)
    next
      assume u: "u = s\<lparr>main_pc := MExit\<rparr>" "\<not> i < NUM_WORKERS"
      then have "control_inv u" using c(1) MJoin by (auto simp: control_inv_def)
      then show ?thesis using c MJoin u(1) by (simp add: lg_inv_def queue_inv_def stream_inv_def messages_def)
    qed
  next
    case MExit
    have l: "linked s" "io s \<noteq> IDone" "''EXIT'' \<notin> set (mq s)" using c MExit by (auto simp: control_inv_def queue_inv_def)
    with MExit assms(1,3) have u: "u = s\<lparr>mq := mq s @ [''EXIT''], main_pc := MJoinIo\<rparr>" "length (mq s) < MQ_MAX_MESSAGES"
      by (auto simp: logger_main_def lg_works_def mq_send_def LOG_MESSAGE_SIZE_def split: if_splits)
    show ?thesis using c MExit l u(2)
      by (simp add: u(1) lg_inv_def control_inv_def queue_inv_def stream_inv_def messages_def)
  next
    case MJoinIo
    with assms(3) have u: "u = s\<lparr>main_pc := MDone True\<rparr>" "io s = IDone" by (auto simp: logger_main_def split: if_splits)
    then show ?thesis using c MJoinIo
      by (simp add: lg_inv_def control_inv_def queue_inv_def stream_inv_def messages_def)
  next
    case (MDone r)
    with assms(3) show ?thesis by (simp add: logger_main_def)
  qed
qed

section \<open>Progress and termination\<close>

lemma lg_progress:
  assumes "lg_works env" "lg_inv s" "\<not> lg_final s"
  shows "\<exists>u. lg_step env s u"
proof -
  have c: "control_inv s" "queue_inv s" "stream_inv s" using assms(2) by (simp_all add: lg_inv_def)
  have io: ?thesis if "io_thread_func env s \<noteq> None" using that by (auto simp: lg_step_def)
  have main: ?thesis if "logger_main env s \<noteq> None" using that by (auto simp: lg_step_def)
  have worker: ?thesis if "worker_thread_func env t s \<noteq> None" "t < length (workers s)" for t
    using that by (auto simp: lg_step_def)
  have recv: ?thesis if "io s = IRecv" "mq s \<noteq> []"
    using that by (intro io) (auto simp: io_thread_func_def mq_receive_def Let_def split: list.split)
  show ?thesis
  proof (cases "io s = IOpen \<or> io s = IRecv \<and> mq s \<noteq> []")
    case True
    then show ?thesis using recv io by (auto simp: io_thread_func_def)
  next
    case False
    then have blocked: "io s = INone \<or> io s = IDone \<or> io s = IRecv \<and> mq s = []" by (cases "io s") auto
    then have mt: "mq s = [] \<or> io s = INone" using c(2) by (auto simp: queue_inv_def)
    show ?thesis
    proof (cases "main_pc s")
      case (MJoin i)
      show ?thesis
      proof (cases "i < NUM_WORKERS \<and> workers s ! i \<noteq> WDone")
        case True
        have "mq s = []" using mt c(1) MJoin by (auto simp: control_inv_def)
        then have "worker_thread_func env i s \<noteq> None"
          using True by (cases "workers s ! i") (auto simp: worker_thread_func_def mq_send_def MQ_MAX_MESSAGES_def)
        then show ?thesis using worker True c(1) MJoin by (auto simp: control_inv_def)
      next
        case False
        then show ?thesis using main MJoin by (auto simp: logger_main_def)
      qed
    next
      case MExit
      have "mq s = []" using mt c(1) MExit by (auto simp: control_inv_def)
      then show ?thesis using main MExit by (auto simp: logger_main_def mq_send_def MQ_MAX_MESSAGES_def)
    next
      case MJoinIo
      have "io s = IDone" using blocked c MJoinIo by (auto simp: control_inv_def queue_inv_def)
      then show ?thesis using main MJoinIo by (auto simp: logger_main_def)
    qed (use main assms(3) in \<open>auto simp: logger_main_def lg_final_def\<close>)
  qed
qed

fun main_weight :: "lg_main_pc \<Rightarrow> nat" where
  "main_weight MOpen = 20"
| "main_weight (MStart k) = 19 - k"
| "main_weight (MJoin i) = 10 - i"
| "main_weight MExit = 3"
| "main_weight MJoinIo = 2"
| "main_weight (MDone r) = 0"

fun worker_weight :: "wk_pc \<Rightarrow> nat" where
  "worker_weight WOpen = 12"
| "worker_weight (WSend i) = 2 * (5 - i) + 1"
| "worker_weight WDone = 0"

fun io_weight :: "io_pc \<Rightarrow> nat" where
  "io_weight IOpen = 2"
| "io_weight IRecv = 1"
| "io_weight _ = 0"

definition lg_measure :: "lg_sys \<Rightarrow> nat" where
  "lg_measure s = 20 * main_weight (main_pc s) + sum_list (map worker_weight (workers s)) + io_weight (io s) + length (mq s)"

lemma sum_weight_update:
  assumes "t < length ws" "worker_weight p + d \<le> worker_weight (ws ! t)"
  shows "sum_list (map worker_weight (ws[t := p])) + d \<le> sum_list (map worker_weight ws)"
proof -
  have "worker_weight (ws ! t) \<le> sum_list (map worker_weight ws)"
    using assms(1) by (metis elem_le_sum_list length_map nth_map)
  then show ?thesis using assms by (simp add: map_update sum_list_update)
qed

lemma lg_step_measure:
  assumes "main_ok (main_pc s)" "lg_step env s u"
  shows "lg_measure u < lg_measure s"
proof -
  from assms(2) consider "io_thread_func env s = Some u" | "logger_main env s = Some u"
    | t where "t < length (workers s)" "worker_thread_func env t s = Some u" by (auto simp: lg_step_def)
  then show ?thesis
  proof cases
    case 1
    then show ?thesis
      by (cases "io s") (auto simp: io_thread_func_def mq_receive_def lg_measure_def Let_def split: list.splits if_splits)
  next
    case 2
    then show ?thesis using assms(1)
      by (cases "main_pc s")
        (auto simp: logger_main_def lg_measure_def NUM_WORKERS_def mq_send_def split: if_splits send_result.splits)
  next
    case (3 t)
    have upd: "lg_measure u < lg_measure s" if "u = s\<lparr>mq := q, workers := (workers s)[t := p]\<rparr>"
      "worker_weight p + Suc d \<le> worker_weight (workers s ! t)" "length q \<le> length (mq s) + d" for q p d
      using sum_weight_update [OF 3(1) that(2)] that(1,3) by (simp add: lg_measure_def)
    show ?thesis
    proof (cases "workers s ! t")
      case WOpen
      then show ?thesis using 3(2) upd [where q = "mq s" and p = "WSend 0" and d = 0] upd [where q = "mq s" and p = WDone and d = 0]
        by (auto simp: worker_thread_func_def split: if_splits)
    next
      case (WSend i)
      show ?thesis
      proof (cases "i < 5")
        case True
        then show ?thesis using 3(2) WSend upd [where q = "mq s" and p = "WSend (i + 1)" and d = 0] upd [where q = "mq s @ [log_message (t + 1) i]" and p = "WSend (i + 1)" and d = 1]
          by (auto simp: worker_thread_func_def mq_send_def split: if_splits)
      next
        case False
        then show ?thesis using 3(2) WSend upd [where q = "mq s" and p = WDone and d = 0] by (auto simp: worker_thread_func_def)
      qed
    qed (use 3(2) in \<open>simp add: worker_thread_func_def\<close>)
  qed
qed

definition env_ok :: lg_env where
  "env_ok = \<lparr>main_open_ok = True, io_open_ok = True, fopen_ok = True, worker_open_ok = \<lambda>_. True, exit_open_ok = True\<rparr>"

lemma lg_works_env: "lg_works env \<longleftrightarrow> env = env_ok"
  by (cases env) (auto simp: lg_works_def env_ok_def)

interpretation lg: terminating_system "\<lambda>s. s = lg_start []" "lg_step env_ok" lg_inv lg_final lg_measure
proof
  have ok: "lg_works env_ok" by (simp add: lg_works_env)
  show "lg_inv s" if "s = lg_start []" for s
    using that by (simp add: lg_start_def lg_inv_def control_inv_def queue_inv_def stream_inv_def messages_def MQ_MAX_MESSAGES_def)
  show "lg_inv u" if "lg_inv s" "lg_step env_ok s u" for s u
    using that ok by (auto simp: lg_step_def intro: lg_io_inv lg_main_inv lg_worker_inv)
  show "lg_measure u < lg_measure s" if "lg_inv s" "lg_step env_ok s u" for s u
    using that by (intro lg_step_measure) (auto simp: lg_inv_def control_inv_def)
qed (auto intro: lg_progress simp: lg_works_env)

section \<open>Without the I/O thread\<close>

text \<open>When the I/O thread cannot open its queue or its file, nobody receives.\<close>

definition io_fails :: "lg_env \<Rightarrow> bool" where
  "io_fails env \<longleftrightarrow> main_open_ok env \<and> (\<forall>t. worker_open_ok env t) \<and> \<not> (io_open_ok env \<and> fopen_ok env)"

definition blocked_inv :: "lg_sys \<Rightarrow> bool" where [wf_simps]:
  "blocked_inv s \<longleftrightarrow> main_ok (main_pc s) \<and> \<not> exit_sent (main_pc s) \<and> main_pc s \<noteq> MExit \<and> length (workers s) = started_workers (main_pc s) \<and>
     io s \<noteq> IRecv \<and> (linked s \<longleftrightarrow> main_pc s \<noteq> MOpen) \<and> (\<forall>i < joined (main_pc s). workers s ! i = WDone) \<and>
     logs s = [] \<and> length (mq s) \<le> MQ_MAX_MESSAGES \<and> length (mq s) = sum_list (map sent_count (workers s)) \<and>
     (\<forall>t < length (workers s). sent_count (workers s ! t) \<le> 5)"

lemma sum_sent_update:
  assumes "t < length ws" "sent_count p = sent_count (ws ! t) + d"
  shows "sum_list (map sent_count (ws[t := p])) = sum_list (map sent_count ws) + d"
proof -
  have "sent_count (ws ! t) \<le> sum_list (map sent_count ws)"
    using assms(1) by (metis elem_le_sum_list length_map nth_map)
  then show ?thesis using assms by (simp add: map_update sum_list_update)
qed

lemma blocked_not_joined:
  assumes "blocked_inv s" "main_pc s = MJoin i"
  shows "i < NUM_WORKERS"
proof (rule ccontr)
  assume "\<not> i < NUM_WORKERS"
  with assms have i: "i = NUM_WORKERS" and len: "length (workers s) = NUM_WORKERS" by (auto simp: blocked_inv_def)
  have "workers s ! k = WDone" if "k < length (workers s)" for k using that assms i len by (auto simp: blocked_inv_def)
  then have "workers s = replicate NUM_WORKERS WDone" using len by (intro nth_equalityI) auto
  then have "length (mq s) = 20" using assms(1) by (simp add: blocked_inv_def NUM_WORKERS_def sum_list_replicate)
  then show False using assms(1) by (simp add: blocked_inv_def MQ_MAX_MESSAGES_def)
qed

lemma blocked_worker_inv:
  assumes "io_fails env" "blocked_inv s" "t < length (workers s)" "worker_thread_func env t s = Some u"
  shows "blocked_inv u"
proof -
  note b = assms(2)[unfolded blocked_inv_def]
  have n: "t < NUM_WORKERS" using assms(3) b by (cases "main_pc s") auto
  have upd: "blocked_inv u" if u: "u = s\<lparr>mq := q, workers := (workers s)[t := p]\<rparr>" and q: "length q = length (mq s) + d"
    "length q \<le> MQ_MAX_MESSAGES" and p: "sent_count p = sent_count (workers s ! t) + d" "sent_count p \<le> 5" and nd: "workers s ! t \<noteq> WDone"
    for q p d
  proof -
    have "(workers s)[t := p] ! i = WDone" if "i < joined (main_pc s)" for i
      using that b nd by (cases "i = t") auto
    moreover have "sent_count ((workers s)[t := p] ! k) \<le> 5" if "k < length (workers s)" for k
      using that b p(2) by (cases "k = t") auto
    ultimately show ?thesis using b q by (simp add: u blocked_inv_def sum_sent_update [OF assms(3) p(1)])
  qed
  show ?thesis
  proof (cases "workers s ! t")
    case WDone
    with assms(4) show ?thesis by (simp add: worker_thread_func_def)
  next
    case WOpen
    have "linked s" using assms(3) b by (cases "main_pc s") auto
    then have "u = s\<lparr>mq := mq s, workers := (workers s)[t := WSend 0]\<rparr>"
      using assms(1,4) WOpen by (simp add: worker_thread_func_def io_fails_def)
    then show ?thesis using upd [where q = "mq s" and p = "WSend 0" and d = 0] WOpen b by simp
  next
    case (WSend i)
    show ?thesis
    proof (cases "i < 5")
      case True
      let ?m = "log_message (t + 1) i"
      have "length ?m \<le> LOG_MESSAGE_SIZE" using log_message_facts(1) [of "t + 1" i] True n by (simp add: NUM_WORKERS_def)
      then have "u = s\<lparr>mq := mq s @ [?m], workers := (workers s)[t := WSend (i + 1)]\<rparr>" "length (mq s) < MQ_MAX_MESSAGES"
        using True WSend assms(4) by (auto simp: worker_thread_func_def mq_send_def split: if_splits)
      then show ?thesis using upd [where q = "mq s @ [?m]" and p = "WSend (i + 1)" and d = 1] WSend True by simp
    next
      case False
      have "i \<le> 5" using WSend b assms(3) by (metis sent_count.simps(2))
      moreover have "u = s\<lparr>mq := mq s, workers := (workers s)[t := WDone]\<rparr>"
        using False WSend assms(4) by (simp add: worker_thread_func_def)
      ultimately show ?thesis using upd [where q = "mq s" and p = WDone and d = 0] WSend False b by simp
    qed
  qed
qed

lemma blocked_step_inv:
  assumes "io_fails env" "blocked_inv s" "lg_step env s u"
  shows "blocked_inv u"
proof -
  from assms(3) consider "io_thread_func env s = Some u" | "logger_main env s = Some u"
    | t where "t < length (workers s)" "worker_thread_func env t s = Some u" by (auto simp: lg_step_def)
  then show ?thesis
  proof cases
    case 1
    then show ?thesis using assms(1,2) by (cases "io s") (auto simp: io_thread_func_def blocked_inv_def io_fails_def)
  next
    case 2
    show ?thesis
    proof (cases "main_pc s")
      case (MJoin i)
      then show ?thesis using 2 assms(2) blocked_not_joined [OF assms(2) MJoin]
        by (auto simp: logger_main_def blocked_inv_def less_Suc_eq split: if_splits)
    next
      case (MStart k)
      then show ?thesis using 2 assms(2) by (auto simp: logger_main_def blocked_inv_def nth_append less_Suc_eq NUM_WORKERS_def split: if_splits)
    next
      case MOpen
      then show ?thesis using 2 assms(1,2) by (auto simp: logger_main_def blocked_inv_def io_fails_def)
    qed (use assms(2) in \<open>auto simp: blocked_inv_def\<close>)
  next
    case (3 t)
    then show ?thesis using assms(1,2) blocked_worker_inv by blast
  qed
qed

interpretation bl: terminating_system "\<lambda>s. s = lg_start [] \<and> io_fails env" "lg_step env" "\<lambda>s. blocked_inv s \<and> io_fails env"
  "\<lambda>s. \<forall>u. \<not> lg_step env s u" lg_measure for env
proof
  show "blocked_inv s \<and> io_fails env" if "s = lg_start [] \<and> io_fails env" for s
    using that by (simp add: lg_start_def blocked_inv_def MQ_MAX_MESSAGES_def)
  show "lg_measure u < lg_measure s" if "blocked_inv s \<and> io_fails env" "lg_step env s u" for s u
    using that lg_step_measure [of s env u] by (auto simp: blocked_inv_def)
qed (auto intro: blocked_step_inv)

section \<open>What is logged\<close>

lemma length_by_class:
  "(\<forall>m \<in> set xs. 0 < f m \<and> f m \<le> n) \<Longrightarrow> length xs = (\<Sum>t<n. length (filter (\<lambda>m. f m = Suc t) xs))"
proof (induction xs)
  case (Cons x xs)
  then obtain k where k: "f x = Suc k" "k < n" by (metis Suc_le_eq gr0_conv_Suc list.set_intros(1))
  have "(\<Sum>t<n. length (filter (\<lambda>m. f m = Suc t) (x # xs))) = (\<Sum>t<n. (if t = k then 1 else 0) + length (filter (\<lambda>m. f m = Suc t) xs))"
    by (rule sum.cong) (auto simp: k(1))
  also have "\<dots> = 1 + length xs" using Cons k(2) by (simp add: sum.distrib)
  finally show ?case by simp
qed simp

lemma final_logs:
  assumes "lg_inv s" "lg_final s"
  shows "(\<forall>t < NUM_WORKERS. filter (\<lambda>m. sender m = t + 1) (logs s) = map (log_message (t + 1)) [0..<5]) \<and>
    length (logs s) = 20 \<and> console s = logs s \<and> mq s = [] \<and> \<not> linked s"
proof -
  from assms have m: "main_pc s = MDone True" and c: "control_inv s" "queue_inv s" "stream_inv s"
    by (auto simp: lg_inv_def lg_final_def control_inv_def)
  then have d: "io s = IDone" "length (workers s) = NUM_WORKERS" "\<not> linked s" "mq s = []" "console s = logs s"
    and w: "\<forall>i < NUM_WORKERS. workers s ! i = WDone"
    by (auto simp: control_inv_def queue_inv_def)
  have f: "\<forall>t < NUM_WORKERS. filter (\<lambda>m. sender m = t + 1) (logs s) = map (log_message (t + 1)) [0..<5]"
    using c(3) d w by (auto simp: stream_inv_def messages_def)
  have "length (logs s) = (\<Sum>t<NUM_WORKERS. length (filter (\<lambda>m. sender m = Suc t) (logs s)))"
    using c(3) d by (intro length_by_class) (auto simp: stream_inv_def messages_def)
  also have "\<dots> = (\<Sum>t<NUM_WORKERS. 5)" using f by (intro sum.cong) auto
  finally show ?thesis using f d by (simp add: NUM_WORKERS_def)
qed

lemma logger_completes:
  assumes "(lg_step env_ok ^^ n) (lg_start []) s"
  shows "n \<le> lg_measure (lg_start []) \<and> (\<exists>u. (lg_step env_ok)\<^sup>*\<^sup>* s u \<and> lg_final u) \<and> (lg_final s \<or> (\<exists>u. lg_step env_ok s u)) \<and>
    (lg_final s \<longrightarrow>
      (\<forall>t < NUM_WORKERS. filter (\<lambda>m. sender m = t + 1) (logs s) = map (log_message (t + 1)) [0..<5]) \<and>
      length (logs s) = 20 \<and> console s = logs s \<and> mq s = [] \<and> \<not> linked s)"
proof -
  have "lg_inv s" using assms by (meson lg.reachable_inv relpowp_imp_rtranclp)
  then show ?thesis using lg.run_from_init [OF refl assms] lg.progress [of s] final_logs [of s] by blast
qed

lemma logger_blocks:
  assumes "io_fails env" "(lg_step env)\<^sup>*\<^sup>* (lg_start []) s"
  shows "\<not> lg_final s \<and> logs s = [] \<and> (\<exists>u. (lg_step env)\<^sup>*\<^sup>* s u \<and> (\<forall>v. \<not> lg_step env u v) \<and> \<not> lg_final u)"
proof -
  have i: "blocked_inv s" using bl.reachable_inv assms by blast
  have nf: "\<not> lg_final s \<and> logs s = []" if "blocked_inv s" for s
    using that by (auto simp: blocked_inv_def lg_final_def)
  obtain u where u: "(lg_step env)\<^sup>*\<^sup>* s u" "\<forall>v. \<not> lg_step env u v" using bl.reaches_final i assms(1) by blast
  then have "blocked_inv u" using bl.steps_inv i assms(1) by blast
  then show ?thesis using nf i u by blast
qed

text \<open>
  C24. When every open succeeds and the queue starts empty, every run of \<^verbatim>\<open>main\<close>, the I/O thread and the workers is bounded and can be
  completed, no reachable state is stuck before \<^verbatim>\<open>main\<close> has returned, and then the log holds exactly the 20 messages, those of each
  worker in the order it sent them; the queue is empty and removed. But if the I/O thread cannot open the queue or \<^verbatim>\<open>logs.txt\<close>, it
  ends and nobody receives: the workers fill the queue, \<^verbatim>\<open>main\<close> never returns, nothing is logged, and every run can be continued to a
  state where no thread can move.
\<close>

theorem logger_logs_everything:
  assumes "(lg_step env ^^ n) (lg_start []) s"
  shows "(env = env_ok \<longrightarrow>
      n \<le> lg_measure (lg_start []) \<and> (\<exists>u. (lg_step env)\<^sup>*\<^sup>* s u \<and> lg_final u) \<and> (lg_final s \<or> (\<exists>u. lg_step env s u)) \<and>
      (lg_final s \<longrightarrow>
        (\<forall>t < NUM_WORKERS. filter (\<lambda>m. sender m = t + 1) (logs s) = map (log_message (t + 1)) [0..<5]) \<and>
        length (logs s) = 20 \<and> console s = logs s \<and> mq s = [] \<and> \<not> linked s)) \<and>
    (io_fails env \<longrightarrow> \<not> lg_final s \<and> logs s = [] \<and> (\<exists>u. (lg_step env)\<^sup>*\<^sup>* s u \<and> (\<forall>v. \<not> lg_step env u v) \<and> \<not> lg_final u))"
proof -
  have "(lg_step env)\<^sup>*\<^sup>* (lg_start []) s" using assms by (meson relpowp_imp_rtranclp)
  then show ?thesis using assms logger_completes [of n s] logger_blocks [of env s] by blast
qed

theorem logger_logs_everything_witness:
  "(\<exists>u. (lg_step env_ok)\<^sup>*\<^sup>* (lg_start []) u \<and> lg_final u) \<and>
   (\<exists>u. (lg_step (env_ok\<lparr>fopen_ok := False\<rparr>))\<^sup>*\<^sup>* (lg_start []) u \<and> (\<forall>v. \<not> lg_step (env_ok\<lparr>fopen_ok := False\<rparr>) u v) \<and> \<not> lg_final u)"
proof -
  have start: "(lg_step env ^^ 0) (lg_start []) (lg_start [])" for env by simp
  have "io_fails (env_ok\<lparr>fopen_ok := False\<rparr>)" by (simp add: io_fails_def env_ok_def)
  then show ?thesis using logger_logs_everything [OF start] by blast
qed

end
