(* ===== verification/ByteMem.thy ===== *)
theory ByteMem
  imports Prelude
begin

text \<open>
  Memory seen through fields of several bytes, as C sees a structure. The interface \<open>field_memory\<close>
  has a load and a store of \<open>n\<close> bytes at an address with two laws: a load of the field just stored gives
  the value back modulo its width, and a store does not change a load of a field apart from it. Its
  client lemmas speak about a sequence of stores. Byte memory in little-endian order provides it.
\<close>

definition apart :: "nat \<times> nat \<Rightarrow> nat \<times> nat \<Rightarrow> bool" where
  "apart f g \<longleftrightarrow> fst f + snd f \<le> fst g \<or> fst g + snd g \<le> fst f"

lemma apart_sym: "apart f g \<longleftrightarrow> apart g f"
  by (auto simp: apart_def)

locale field_memory =
  fixes store :: "nat \<Rightarrow> nat \<Rightarrow> nat \<Rightarrow> 'm \<Rightarrow> 'm"
    and load :: "nat \<Rightarrow> nat \<Rightarrow> 'm \<Rightarrow> nat"
  assumes load_same: "load a n (store a n v m) = v mod 256 ^ n"
    and load_apart: "apart (a, n) (b, k) \<Longrightarrow> load a n (store b k v m) = load a n m"
begin

text \<open>Stores given as address, width and value, in order.\<close>

definition stores :: "(nat \<times> nat \<times> nat) list \<Rightarrow> 'm \<Rightarrow> 'm" where
  "stores ws m = fold (\<lambda>(b, k, v). store b k v) ws m"

lemma stores_simps: "stores [] m = m" "stores ((b, k, v) # ws) m = stores ws (store b k v m)"
  by (simp_all add: stores_def)

lemma load_stores_apart:
  "(\<forall>(b, k, v) \<in> set ws. apart (a, n) (b, k)) \<Longrightarrow> load a n (stores ws m) = load a n m"
  by (induction ws arbitrary: m) (auto simp: stores_simps load_apart)

lemma load_stores_last:
  assumes "\<forall>(b, k, v) \<in> set ws. apart (a, n) (b, k)" "v < 256 ^ n"
  shows "load a n (stores ((a, n, v) # ws) m) = v"
  using load_stores_apart [OF assms(1)] assms(2) by (simp add: stores_simps load_same)

end

definition store_bytes :: "nat \<Rightarrow> nat \<Rightarrow> nat \<Rightarrow> (nat \<Rightarrow> byte) \<Rightarrow> nat \<Rightarrow> byte" where
  "store_bytes a n v m = (\<lambda>x. if a \<le> x \<and> x < a + n then of_nat (v div 256 ^ (x - a)) else m x)"

primrec load_bytes :: "nat \<Rightarrow> nat \<Rightarrow> (nat \<Rightarrow> byte) \<Rightarrow> nat" where
  "load_bytes a 0 m = 0"
| "load_bytes a (Suc n) m = unat (m a) + 256 * load_bytes (a + 1) n m"

lemma load_bytes_cong: "(\<And>x. a \<le> x \<Longrightarrow> x < a + n \<Longrightarrow> m x = m' x) \<Longrightarrow> load_bytes a n m = load_bytes a n m'"
proof (induction n arbitrary: a)
  case (Suc n)
  have "load_bytes (a + 1) n m = load_bytes (a + 1) n m'" by (rule Suc.IH) (use Suc.prems in auto)
  with Suc.prems [of a] show ?case by simp
qed simp

lemma load_store_bytes: "load_bytes a n (store_bytes a n v m) = v mod 256 ^ n"
proof (induction n arbitrary: a v)
  case (Suc n)
  have "load_bytes (a + 1) n (store_bytes a (Suc n) v m) = load_bytes (a + 1) n (store_bytes (a + 1) n (v div 256) m)"
  proof (rule load_bytes_cong)
    fix x assume "a + 1 \<le> x" "x < a + 1 + n"
    then have "x - a = Suc (x - (a + 1))" by simp
    then have "v div 256 ^ (x - a) = v div 256 div 256 ^ (x - (a + 1))" by (simp only: power_Suc div_mult2_eq)
    then show "store_bytes a (Suc n) v m x = store_bytes (a + 1) n (v div 256) m x"
      using \<open>a + 1 \<le> x\<close> \<open>x < a + 1 + n\<close> by (simp add: store_bytes_def)
  qed
  also have "\<dots> = v div 256 mod 256 ^ n" by (rule Suc.IH)
  finally have "load_bytes a (Suc n) (store_bytes a (Suc n) v m) = v mod 256 + 256 * (v div 256 mod 256 ^ n)"
    by (simp add: store_bytes_def unat_of_nat)
  also have "\<dots> = v mod 256 ^ Suc n" by (simp add: mod_mult2_eq)
  finally show ?case .
qed simp

interpretation bm: field_memory store_bytes load_bytes
proof
  show "load_bytes a n (store_bytes a n v m) = v mod 256 ^ n" for a n v m by (rule load_store_bytes)
  show "load_bytes a n (store_bytes b k v m) = load_bytes a n m" if "apart (a, n) (b, k)" for a n b k v m
    using that by (intro load_bytes_cong) (auto simp: apart_def store_bytes_def)
qed

end
