(* ===== verification/Affinity.thy ===== *)
theory Affinity
  imports CString Transition ByteMem
begin

text \<open>
  \<^verbatim>\<open>lesson_8/code_examples/06_affinity_advance/06_affinity_advance.c\<close>: three workers per CPU record their results in
  \<^verbatim>\<open>shared_data_t\<close>, whose arrays have \<^verbatim>\<open>MAX_CPUS\<close> entries but are indexed by the worker number. The structure is
  byte memory under its layout on a 64 bit machine (four arrays, then \<^verbatim>\<open>active_workers\<close> and \<^verbatim>\<open>test_running\<close>), so an index
  past an array reaches the field that lies there. Elapsed times are the bit patterns of \<^verbatim>\<open>double\<close>
  values, given with the random numbers and the results of the system calls by an environment. Every
  store to the structure is a step of its own. The displays are in \<^verbatim>\<open>AffinityReport.thy\<close>; messages of the workers are
  not modelled.
\<close>

definition MAX_CPUS :: nat where "MAX_CPUS = 8"

section \<open>Shared data\<close>

definition total_ops_at :: "nat \<Rightarrow> nat \<times> nat" where "total_ops_at w = (8 * w, 8)"
definition elapsed_time_at :: "nat \<Rightarrow> nat \<times> nat" where "elapsed_time_at w = (64 + 8 * w, 8)"
definition cpu_temp_at :: "nat \<Rightarrow> nat \<times> nat" where "cpu_temp_at w = (128 + 4 * w, 4)"
definition cache_misses_at :: "nat \<Rightarrow> nat \<times> nat" where "cache_misses_at w = (160 + 4 * w, 4)"
definition active_workers_at :: "nat \<times> nat" where "active_workers_at = (192, 4)"
definition test_running_at :: "nat \<times> nat" where "test_running_at = (196, 4)"

lemmas field_defs = total_ops_at_def elapsed_time_at_def cpu_temp_at_def cache_misses_at_def active_workers_at_def test_running_at_def

type_synonym memory = "nat \<Rightarrow> byte"

definition get_field :: "nat \<times> nat \<Rightarrow> memory \<Rightarrow> nat" where
  "get_field f m = load_bytes (fst f) (snd f) m"

definition set_field :: "nat \<times> nat \<Rightarrow> nat \<Rightarrow> memory \<Rightarrow> memory" where
  "set_field f v m = store_bytes (fst f) (snd f) v m"

lemma get_set_same: "get_field f (set_field f v m) = v mod 256 ^ snd f"
  by (simp add: get_field_def set_field_def bm.load_same)

lemma get_set_apart: "apart f g \<Longrightarrow> get_field f (set_field g v m) = get_field f m"
  by (simp add: get_field_def set_field_def bm.load_apart)

section \<open>Workers\<close>

record worker_params =
  worker_id :: nat
  cpu_id :: nat
  iterations :: nat
  work_type :: nat

definition num_workers :: "nat \<Rightarrow> nat" where
  "num_workers num_cpus = (if num_cpus * 3 > MAX_CPUS * 3 then MAX_CPUS * 3 else num_cpus * 3)"

definition make_params :: "nat \<Rightarrow> nat \<Rightarrow> worker_params" where
  "make_params num_cpus i =
     \<lparr>worker_id = i, cpu_id = i mod num_cpus, iterations = 1000000, work_type = (i div num_cpus) mod 3\<rparr>"

record aff_env =
  malloc_ok :: "nat \<Rightarrow> bool"
  setaffinity_ok :: "nat \<Rightarrow> bool"
  getaffinity_ok :: "nat \<Rightarrow> bool"
  cpu_isset :: "nat \<Rightarrow> bool"
  elapsed_bits :: "nat \<Rightarrow> nat \<Rightarrow> nat"
  final_bits :: "nat \<Rightarrow> nat \<Rightarrow> nat"
  rand_temp :: "nat \<Rightarrow> nat \<Rightarrow> nat"
  rand_miss :: "nat \<Rightarrow> nat \<Rightarrow> nat"
  create_ok :: "nat \<Rightarrow> bool"
  char_ext :: "byte \<Rightarrow> u32"

definition read_cpu_temp :: "nat \<Rightarrow> nat \<Rightarrow> nat" where
  "read_cpu_temp cpu r = 40 + cpu * 2 + r mod 10"

definition miss_count :: "nat \<Rightarrow> nat \<Rightarrow> nat" where
  "miss_count wt r = (if wt = 0 then r mod 1000 else if wt = 1 then 5000 + r mod 5000 else 2000 + r mod 3000)"

definition buffer_size :: nat where "buffer_size = 64 * 1024 * 1024"

definition init_buffer :: "nat \<Rightarrow> byte list" where
  "init_buffer n = map of_nat [0..<n]"

text \<open>\<^verbatim>\<open>for (j = 0; j < size; j += stride) { sum += buffer[j]; buffer[j] = (char)(sum & 0xFF); }\<close>\<close>

function scan_buffer :: "(byte \<Rightarrow> u32) \<Rightarrow> nat \<Rightarrow> nat \<Rightarrow> u32 \<Rightarrow> byte list \<Rightarrow> byte list" where
  "scan_buffer ext stride j acc buf =
     (if stride = 0 \<or> length buf \<le> j then buf
      else (let acc' = acc + ext (buf ! j) in scan_buffer ext stride (j + stride) acc' (buf[j := ucast acc'])))"
  by auto
termination
  by (relation "measure (\<lambda>(ext, stride, j, acc, buf). length buf - j)") auto

declare scan_buffer.simps [simp del]

definition do_work :: "(byte \<Rightarrow> u32) \<Rightarrow> nat \<Rightarrow> byte list option \<Rightarrow> byte list option" where
  "do_work ext wt buf =
     (if wt = 1 then map_option (scan_buffer ext 4096 0 0 ^^ 3) buf
      else if wt = 2 then map_option (scan_buffer ext 16384 0 0) buf
      else buf)"

type_synonym pending = "((nat \<times> nat) \<times> nat) list"

definition update_writes :: "aff_env \<Rightarrow> worker_params \<Rightarrow> nat \<Rightarrow> pending" where
  "update_writes env p ops =
     (let w = worker_id p in
      [(total_ops_at w, ops), (elapsed_time_at w, elapsed_bits env w ops),
       (cpu_temp_at w, read_cpu_temp (cpu_id p) (rand_temp env w ops)),
       (cache_misses_at w, miss_count (work_type p) (rand_miss env w ops))])"

definition final_writes :: "aff_env \<Rightarrow> worker_params \<Rightarrow> nat \<Rightarrow> pending" where
  "final_writes env p ops =
     (let w = worker_id p in [(total_ops_at w, ops), (elapsed_time_at w, final_bits env w ops)])"

datatype apc = AStart | ATest nat | AWork nat | AWrite nat pending bool | ADone "nat option" | ANever
datatype amain = ASpawn nat | AMonitor nat | AStop | AJoin nat | AUndefined | AEnd

record aff =
  mem :: memory
  running :: bool
  pcs :: "apc list"
  bufs :: "byte list option list"
  main_at :: amain

definition set_worker :: "nat \<Rightarrow> apc \<Rightarrow> byte list option \<Rightarrow> aff \<Rightarrow> aff" where
  "set_worker w pc b s = s\<lparr>pcs := (pcs s)[w := pc], bufs := (bufs s)[w := b]\<rparr>"

definition worker_function :: "aff_env \<Rightarrow> worker_params \<Rightarrow> aff \<Rightarrow> aff option" where
  "worker_function env p s =
     (let w = worker_id p; wt = work_type p; b = bufs s ! w in
      case pcs s ! w of
        AStart \<Rightarrow>
          (if (wt = 1 \<or> wt = 2) \<and> \<not> malloc_ok env w then Some (set_worker w (ADone None) None s)
           else if \<not> (setaffinity_ok env w \<and> getaffinity_ok env w \<and> cpu_isset env w) then Some (set_worker w (ADone None) None s)
           else Some (set_worker w (ATest 0) (if wt = 1 \<or> wt = 2 then Some (init_buffer buffer_size) else None) s))
      | ATest ops \<Rightarrow>
          Some (set_worker w
            (if running s \<and> get_field test_running_at (mem s) \<noteq> 0 \<and> ops < iterations p
             then AWork ops else AWrite ops (final_writes env p ops) True) b s)
      | AWork ops \<Rightarrow>
          Some (set_worker w
            (if (ops + 1) mod 10 = 0 then AWrite (ops + 1) (update_writes env p (ops + 1)) False else ATest (ops + 1))
            (do_work (char_ext env) wt b) s)
      | AWrite ops ((f, v) # ws) fin \<Rightarrow> Some (set_worker w (AWrite ops ws fin) b (s\<lparr>mem := set_field f v (mem s)\<rparr>))
      | AWrite ops [] fin \<Rightarrow> Some (if fin then set_worker w (ADone (Some ops)) None s else set_worker w (ATest ops) b s)
      | _ \<Rightarrow> None)"

definition handle_signal :: "bool \<Rightarrow> aff \<Rightarrow> aff" where
  "handle_signal term s = (if term then s\<lparr>running := False\<rparr> else s)"

section \<open>main\<close>

text \<open>The arguments after the program name: \<open>Inl\<close> the exit code after the help text, or the duration.\<close>

fun parse_args :: "int \<Rightarrow> string list \<Rightarrow> int + int" where
  "parse_args d [] = Inr d"
| "parse_args d [a] = (if a = ''-h'' \<or> a = ''--help'' then Inl 0 else Inr d)"
| "parse_args d (a # b # rest) =
     (if a = ''-d'' then parse_args (atoi b) rest
      else if a = ''-h'' \<or> a = ''--help'' then Inl 0 else parse_args d (b # rest))"

definition aff_setup :: "int \<Rightarrow> string list \<Rightarrow> bool \<Rightarrow> bool \<Rightarrow> int + (nat \<times> int)" where
  "aff_setup online args mmap_ok mallocs_ok =
     (if online \<le> 0 then Inl 1
      else
        (let num_cpus = (if online > int MAX_CPUS then MAX_CPUS else nat online)
         in case parse_args 10 args of
              Inl e \<Rightarrow> Inl e
            | Inr d \<Rightarrow> if \<not> mmap_ok then Inl 1 else if \<not> mallocs_ok then Inl 1 else Inr (num_cpus, d)))"

definition aff_start :: "nat \<Rightarrow> aff" where
  "aff_start n = \<lparr>mem = set_field active_workers_at (num_workers n) (set_field test_running_at 1 (\<lambda>_. 0)), running = True,
     pcs = [], bufs = [], main_at = ASpawn 0\<rparr>"

definition aff_main :: "aff_env \<Rightarrow> nat \<Rightarrow> int \<Rightarrow> aff \<Rightarrow> aff option" where
  "aff_main env n duration s =
     (case main_at s of
        ASpawn i \<Rightarrow>
          Some (if i < num_workers n then
                  (if create_ok env i then s\<lparr>pcs := pcs s @ [AStart], bufs := bufs s @ [None], main_at := ASpawn (i + 1)\<rparr>
                   else s\<lparr>pcs := pcs s @ [ANever], bufs := bufs s @ [None], main_at := ASpawn (i + 1),
                          mem := set_field active_workers_at (get_field active_workers_at (mem s) - 1) (mem s)\<rparr>)
                else s\<lparr>main_at := AMonitor 0\<rparr>)
      | AMonitor t \<Rightarrow> Some (s\<lparr>main_at := (if int t < duration \<and> running s then AMonitor (t + 1) else AStop)\<rparr>)
      | AStop \<Rightarrow> Some (s\<lparr>mem := set_field test_running_at 0 (mem s), main_at := AJoin 0\<rparr>)
      | AJoin i \<Rightarrow>
          (if i < num_workers n then
             (case pcs s ! i of
                ADone r \<Rightarrow> Some (s\<lparr>main_at := AJoin (i + 1)\<rparr>)
              | ANever \<Rightarrow> Some (s\<lparr>main_at := AUndefined\<rparr>)
              | _ \<Rightarrow> None)
           else Some (s\<lparr>main_at := AEnd\<rparr>))
      | _ \<Rightarrow> None)"

definition aff_step :: "aff_env \<Rightarrow> nat \<Rightarrow> int \<Rightarrow> aff \<Rightarrow> aff \<Rightarrow> bool" where
  "aff_step env n duration s u \<longleftrightarrow> aff_main env n duration s = Some u \<or> u = handle_signal True s \<or>
     (\<exists>w < length (pcs s). worker_function env (make_params n w) s = Some u)"

text \<open>The cells of the progress bar that are filled at second \<open>t\<close>.\<close>

definition filled_width :: "int \<Rightarrow> int \<Rightarrow> int" where
  "filled_width t duration = (t * 50) sdiv duration"

text \<open>The scans of \<^verbatim>\<open>display_test_results\<close>; \<^verbatim>\<open>int\<close> fields are read as signed.\<close>

definition get_int :: "nat \<times> nat \<Rightarrow> memory \<Rightarrow> int" where
  "get_int f m = sint (of_nat (get_field f m) :: u32)"

definition temp_scan :: "nat \<Rightarrow> memory \<Rightarrow> int \<times> int \<times> int \<times> int" where
  "temp_scan n m = fold (\<lambda>i (max_temp, min_temp, max_cpu, min_cpu).
       let t = get_int (cpu_temp_at i) m; c = int (cpu_id (make_params n i))
       in (if t > max_temp then t else max_temp, if t < min_temp then t else min_temp,
           if t > max_temp then c else max_cpu, if t < min_temp then c else min_cpu))
     [0..<num_workers n] (-1, 999, -1, -1)"

definition miss_scan :: "nat \<Rightarrow> memory \<Rightarrow> int \<times> int \<times> int \<times> int" where
  "miss_scan n m = fold (\<lambda>i (max_misses, min_misses, max_worker, min_worker).
       let c = get_int (cache_misses_at i) m
       in (if c > max_misses then c else max_misses, if c < min_misses then c else min_misses,
           if c > max_misses then int i else max_worker, if c < min_misses then int i else min_worker))
     [0..<num_workers n] (-1, 999999, -1, -1)"

section \<open>Layout\<close>

definition own_fields :: "nat \<Rightarrow> (nat \<times> nat) set" where
  "own_fields w = {total_ops_at w, elapsed_time_at w, cpu_temp_at w, cache_misses_at w}"

lemma fields_apart:
  assumes "w < MAX_CPUS" "v < MAX_CPUS" "f \<in> own_fields v"
  shows "w \<noteq> v \<or> f \<noteq> total_ops_at w \<Longrightarrow> apart (total_ops_at w) f" "apart test_running_at f" "apart f active_workers_at"
  using assms by (auto simp: own_fields_def field_defs apart_def MAX_CPUS_def)

lemma globals_apart: "apart test_running_at active_workers_at" "w < MAX_CPUS \<Longrightarrow> apart (total_ops_at w) test_running_at"
  "w < MAX_CPUS \<Longrightarrow> apart (total_ops_at w) active_workers_at"
  by (auto simp: field_defs apart_def MAX_CPUS_def)

section \<open>At most two CPUs\<close>

text \<open>With \<open>n \<le> 2\<close> there are at most six workers, so every index is inside its array.\<close>

definition pc_ok :: "nat \<Rightarrow> memory \<Rightarrow> byte list option \<Rightarrow> apc \<Rightarrow> bool" where
  "pc_ok w m b pc = (case pc of
     ATest ops \<Rightarrow> ops \<le> 1000000
   | AWork ops \<Rightarrow> ops < 1000000
   | AWrite ops ws fin \<Rightarrow> ops \<le> 1000000 \<and> fst ` set ws \<subseteq> own_fields w \<and>
       (fin \<longrightarrow> (total_ops_at w, ops) \<in> set ws \<or> get_field (total_ops_at w) m = ops) \<and>
       (\<forall>x \<in> set ws. fst x = total_ops_at w \<longrightarrow> snd x = ops)
   | ADone (Some ops) \<Rightarrow> ops \<le> 1000000 \<and> get_field (total_ops_at w) m = ops \<and> b = None
   | ADone None \<Rightarrow> b = None
   | _ \<Rightarrow> True)"

definition stopped :: "amain \<Rightarrow> bool" where
  "stopped p \<longleftrightarrow> p \<in> {AUndefined, AEnd} \<or> (\<exists>i. p = AJoin i)"

definition aff_inv :: "nat \<Rightarrow> aff \<Rightarrow> bool" where [wf_simps]:
  "aff_inv n s \<longleftrightarrow> length (pcs s) \<le> num_workers n \<and> length (bufs s) = length (pcs s) \<and>
     (\<forall>i. main_at s = ASpawn i \<longrightarrow> i = length (pcs s)) \<and>
     (if stopped (main_at s) then get_field test_running_at (mem s) = 0 else get_field test_running_at (mem s) = 1) \<and>
     (\<forall>w < length (pcs s). pc_ok w (mem s) (bufs s ! w) (pcs s ! w))"

lemma num_workers_small: "n \<le> 2 \<Longrightarrow> num_workers n \<le> MAX_CPUS"
  by (simp add: num_workers_def MAX_CPUS_def)

lemma pc_ok_frame:
  "get_field (total_ops_at w) m' = get_field (total_ops_at w) m \<Longrightarrow> pc_ok w m b pc \<Longrightarrow> pc_ok w m' b pc"
  by (auto simp: pc_ok_def split: apc.splits option.splits)

lemma aff_inv_set_worker:
  assumes "n \<le> 2" "aff_inv n s" "w < length (pcs s)" "pc_ok w m' b pc"
    and "m' = mem s \<or> (\<exists>f v. m' = set_field f v (mem s) \<and> f \<in> own_fields w)"
  shows "aff_inv n (set_worker w pc b (s\<lparr>mem := m'\<rparr>))"
proof -
  have small: "length (pcs s) \<le> MAX_CPUS" using assms(1,2) num_workers_small by (fastforce simp: aff_inv_def)
  have "get_field test_running_at m' = get_field test_running_at (mem s)"
    using assms(5) fields_apart(2) [of w w] assms(3) small by (auto simp: get_set_apart)
  moreover have "pc_ok k m' ((bufs s)[w := b] ! k) ((pcs s)[w := pc] ! k)" if "k < length (pcs s)" for k
  proof (cases "k = w")
    case True
    then show ?thesis using assms(2,3,4) by (simp add: aff_inv_def)
  next
    case False
    have "get_field (total_ops_at k) m' = get_field (total_ops_at k) (mem s)"
      using assms(5) fields_apart(1) [of k w] assms(3) small that False by (auto simp: get_set_apart)
    then show ?thesis using assms(2) that False by (auto simp: aff_inv_def intro: pc_ok_frame)
  qed
  ultimately show ?thesis using assms(2) by (simp add: aff_inv_def set_worker_def)
qed

lemma worker_params_simps [simp]: "worker_id (make_params n w) = w" "iterations (make_params n w) = 1000000"
  by (simp_all add: make_params_def)

lemma total_apart_other: "w < MAX_CPUS \<Longrightarrow> f \<in> own_fields w \<Longrightarrow> f \<noteq> total_ops_at w \<Longrightarrow> apart (total_ops_at w) f"
  using fields_apart(1) by blast

lemma pending_own: "fst ` set (update_writes env (make_params n w) k) \<subseteq> own_fields w"
  "fst ` set (final_writes env (make_params n w) k) \<subseteq> own_fields w"
  by (auto simp: update_writes_def final_writes_def own_fields_def Let_def)

lemma pending_total: "x \<in> set (update_writes env (make_params n w) k) \<union> set (final_writes env (make_params n w) k) \<Longrightarrow>
   w < MAX_CPUS \<Longrightarrow> fst x = total_ops_at w \<Longrightarrow> snd x = k"
  by (auto simp: update_writes_def final_writes_def field_defs MAX_CPUS_def Let_def)

lemma pc_ok_write:
  assumes "w < MAX_CPUS" "pc_ok w m b (AWrite k ((f, v) # ws) fin)"
  shows "pc_ok w (set_field f v m) b (AWrite k ws fin)" "f \<in> own_fields w"
proof -
  note p = assms(2)[unfolded pc_ok_def]
  show f: "f \<in> own_fields w" using p by auto
  show "pc_ok w (set_field f v m) b (AWrite k ws fin)"
  proof (cases "f = total_ops_at w")
    case True
    then have "v = k" "k < 256 ^ 8" using p by auto
    then have "get_field (total_ops_at w) (set_field f v m) = k"
      using True by (simp add: get_set_same total_ops_at_def)
    then show ?thesis using p by (auto simp: pc_ok_def)
  next
    case False
    then have "get_field (total_ops_at w) (set_field f v m) = get_field (total_ops_at w) m"
      using total_apart_other [OF assms(1) f] by (simp add: get_set_apart)
    then show ?thesis using p False by (auto simp: pc_ok_def)
  qed
qed

lemma worker_inv:
  assumes "n \<le> 2" "aff_inv n s" "w < length (pcs s)" "worker_function env (make_params n w) s = Some u"
  shows "aff_inv n u"
proof -
  have w: "w < MAX_CPUS" using assms(1-3) num_workers_small by (fastforce simp: aff_inv_def)
  have pc: "pc_ok w (mem s) (bufs s ! w) (pcs s ! w)" using assms(2,3) by (simp add: aff_inv_def)
  have keep: "aff_inv n (set_worker w p b s)" if "pc_ok w (mem s) b p" for p b
    using aff_inv_set_worker [OF assms(1-3) that] by simp
  have fin: "pc_ok w (mem s) b (AWrite k (final_writes env (make_params n w) k) True)" if "k \<le> 1000000" for b k
    using that pending_own(2) [of env n w k] pending_total [of _ env n w k] w
    by (auto simp: pc_ok_def) (simp add: final_writes_def)
  have upd: "pc_ok w (mem s) b (AWrite k (update_writes env (make_params n w) k) False)" if "k \<le> 1000000" for b k
    using that pending_own(1) [of env n w k] pending_total [of _ env n w k] w by (auto simp: pc_ok_def)
  show ?thesis
  proof (cases "pcs s ! w")
    case AStart
    have "pc_ok w (mem s) None (ADone None)" "pc_ok w (mem s) b (ATest 0)" for b by (simp_all add: pc_ok_def)
    then show ?thesis using AStart assms(4) keep by (auto simp: worker_function_def Let_def split: if_splits)
  next
    case (ATest k)
    then have "k \<le> 1000000" using pc by (simp add: pc_ok_def)
    with ATest assms(4) show ?thesis using keep fin by (auto simp: worker_function_def Let_def pc_ok_def split: if_splits)
  next
    case (AWork k)
    then have "k < 1000000" using pc by (simp add: pc_ok_def)
    with AWork assms(4) show ?thesis using keep upd by (auto simp: worker_function_def Let_def pc_ok_def split: if_splits)
  next
    case (AWrite k ws fn)
    show ?thesis
    proof (cases ws)
      case Nil
      with AWrite assms(4) pc show ?thesis using keep by (auto simp: worker_function_def Let_def pc_ok_def split: if_splits)
    next
      case (Cons x xs)
      obtain f v where x: "x = (f, v)" by (cases x)
      have ok: "pc_ok w (set_field f v (mem s)) (bufs s ! w) (AWrite k xs fn)" "f \<in> own_fields w"
        using pc_ok_write [OF w] pc AWrite Cons x by auto
      have "u = set_worker w (AWrite k xs fn) (bufs s ! w) (s\<lparr>mem := set_field f v (mem s)\<rparr>)"
        using AWrite Cons x assms(4) by (simp add: worker_function_def)
      then show ?thesis using aff_inv_set_worker [OF assms(1-3) ok(1)] ok(2) by blast
    qed
  qed (use assms(4) in \<open>simp_all add: worker_function_def\<close>)
qed

lemma main_inv:
  assumes "n \<le> 2" "aff_inv n s" "aff_main env n d s = Some u"
  shows "aff_inv n u"
proof -
  have small: "length (pcs s) \<le> MAX_CPUS" using assms(1,2) num_workers_small by (fastforce simp: aff_inv_def)
  have frame: "pc_ok w (set_field f v (mem s)) (bufs s ! w) (pcs s ! w)"
    if "w < length (pcs s)" "f = active_workers_at \<or> f = test_running_at" for w f v
  proof -
    have "apart (total_ops_at w) f" using that small globals_apart(2,3) [of w] by auto
    then have "get_field (total_ops_at w) (set_field f v (mem s)) = get_field (total_ops_at w) (mem s)" by (rule get_set_apart)
    moreover have "pc_ok w (mem s) (bufs s ! w) (pcs s ! w)" using that(1) assms(2) by (simp add: aff_inv_def)
    ultimately show ?thesis by (rule pc_ok_frame)
  qed
  show ?thesis
  proof (cases "main_at s")
    case (ASpawn i)
    have new: "pc_ok w m b AStart" "pc_ok w m b ANever" for w m b by (simp_all add: pc_ok_def)
    have len: "length (bufs s) = length (pcs s)" using assms(2) by (simp add: aff_inv_def)
    show ?thesis using ASpawn assms(2,3) frame [OF _ disjI1 [OF refl]] new len
      by (auto simp: aff_main_def aff_inv_def stopped_def nth_append less_Suc_eq get_set_apart globals_apart split: if_splits)
  next
    case AStop
    then show ?thesis using assms(2,3) frame [OF _ disjI2 [OF refl]]
      by (auto simp: aff_main_def aff_inv_def stopped_def get_set_same)
  qed (use assms(2,3) in \<open>auto simp: aff_main_def aff_inv_def stopped_def split: if_splits apc.splits\<close>)
qed

interpretation af: invariant_system "\<lambda>s. s = aff_start n \<and> n \<le> 2" "aff_step env n d" "\<lambda>s. aff_inv n s \<and> n \<le> 2" for env n d
proof
  show "aff_inv n s \<and> n \<le> 2" if "s = aff_start n \<and> n \<le> 2" for s
  proof -
    have "get_field test_running_at (mem (aff_start n)) = 1"
      by (simp add: aff_start_def get_set_apart globals_apart(1) get_set_same) (simp add: test_running_at_def)
    then show ?thesis using that by (simp add: aff_inv_def stopped_def) (simp add: aff_start_def)
  qed
  show "aff_inv n u \<and> n \<le> 2" if "aff_inv n s \<and> n \<le> 2" "aff_step env n d s u" for s u
  proof -
    have i: "n \<le> 2" "aff_inv n s" using that(1) by auto
    from that(2) consider "aff_main env n d s = Some u" | "u = handle_signal True s"
      | w where "w < length (pcs s)" "worker_function env (make_params n w) s = Some u" unfolding aff_step_def by blast
    then have "aff_inv n u"
    proof cases
      case 1
      then show ?thesis by (rule main_inv [OF i])
    next
      case 2
      then show ?thesis using i(2) by (simp add: handle_signal_def aff_inv_def)
    next
      case 3
      then show ?thesis by (rule worker_inv [OF i])
    qed
    with i show ?thesis by simp
  qed
qed

lemma small_results:
  assumes "n \<le> 2" "(aff_step env n d)\<^sup>*\<^sup>* (aff_start n) s"
  shows "(get_field test_running_at (mem s) = 0 \<longleftrightarrow> stopped (main_at s)) \<and>
    (\<forall>w < length (pcs s). \<forall>ops. pcs s ! w = ADone (Some ops) \<longrightarrow> get_field (total_ops_at w) (mem s) = ops \<and> bufs s ! w = None)"
proof -
  have i: "aff_inv n s" using af.reachable_inv assms by blast
  have "get_field (total_ops_at w) (mem s) = ops \<and> bufs s ! w = None"
    if "w < length (pcs s)" "pcs s ! w = ADone (Some ops)" for w ops
  proof -
    have "pc_ok w (mem s) (bufs s ! w) (pcs s ! w)" using i that(1) by (simp add: aff_inv_def)
    then show ?thesis using that(2) by (simp add: pc_ok_def)
  qed
  moreover have "get_field test_running_at (mem s) = (if stopped (main_at s) then 0 else 1)"
    using i by (simp add: aff_inv_def split: if_splits)
  ultimately show ?thesis by simp
qed

definition env1 :: aff_env where
  "env1 = \<lparr>malloc_ok = \<lambda>_. True, setaffinity_ok = \<lambda>_. True, getaffinity_ok = \<lambda>_. True, cpu_isset = \<lambda>_. True,
     elapsed_bits = \<lambda>_ _. 0, final_bits = \<lambda>_ _. 0, rand_temp = \<lambda>_ _. 0, rand_miss = \<lambda>_ _. 0, create_ok = \<lambda>_. True,
     char_ext = ucast\<rparr>"

section \<open>More CPUs\<close>

definition all_ok :: "aff_env \<Rightarrow> bool" where
  "all_ok env \<longleftrightarrow> (\<forall>w. malloc_ok env w \<and> setaffinity_ok env w \<and> getaffinity_ok env w \<and> cpu_isset env w \<and> create_ok env w)"

text \<open>While worker 9 works and main monitors the test.\<close>

definition busy :: "nat \<Rightarrow> apc \<Rightarrow> amain \<Rightarrow> aff \<Rightarrow> bool" where
  "busy n pc mp s \<longleftrightarrow> length (pcs s) = num_workers n \<and> length (bufs s) = num_workers n \<and> pcs s ! 9 = pc \<and> running s \<and> main_at s = mp"

abbreviation test_flag :: "aff \<Rightarrow> nat" where
  "test_flag s \<equiv> get_field test_running_at (mem s)"

lemma spawn_all:
  assumes "all_ok env" "i \<le> num_workers n"
  shows "(aff_step env n d)\<^sup>*\<^sup>* (aff_start n)
    ((aff_start n)\<lparr>pcs := replicate i AStart, bufs := replicate i None, main_at := ASpawn i\<rparr>)"
  using assms(2)
proof (induction i)
  case 0
  then show ?case by (simp add: aff_start_def)
next
  case (Suc i)
  let ?s = "\<lambda>i. (aff_start n)\<lparr>pcs := replicate i AStart, bufs := replicate i None, main_at := ASpawn i\<rparr>"
  have "aff_main env n d (?s i) = Some (?s (Suc i))"
    using Suc.prems assms(1) by (simp add: aff_main_def all_ok_def replicate_append_same)
  then have "aff_step env n d (?s i) (?s (Suc i))" by (simp add: aff_step_def)
  with Suc show ?case by (meson Suc_leD rtranclp.rtrancl_into_rtrancl)
qed

lemma worker9_step:
  assumes "busy n pc mp s" "9 < num_workers n" "worker_function env (make_params n 9) s = Some u"
  shows "aff_step env n d s u"
  using assms by (auto simp: aff_step_def busy_def)

lemma busy_set_worker:
  "busy n pc mp s \<Longrightarrow> 9 < num_workers n \<Longrightarrow> busy n pc' mp (set_worker 9 pc' b (s\<lparr>mem := m\<rparr>))"
  "busy n pc mp s \<Longrightarrow> 9 < num_workers n \<Longrightarrow> busy n pc' mp (set_worker 9 pc' b s)"
  by (auto simp: busy_def set_worker_def)

lemma worker9_iteration:
  assumes "busy n (ATest k) mp s" "test_flag s = 1" "9 < num_workers n" "k < 9"
  shows "\<exists>u. (aff_step env n d)\<^sup>*\<^sup>* s u \<and> busy n (ATest (Suc k)) mp u \<and> test_flag u = 1"
proof -
  let ?t = "set_worker 9 (AWork k) (bufs s ! 9) s"
  let ?u = "set_worker 9 (ATest (Suc k)) (do_work (char_ext env) (work_type (make_params n 9)) (bufs ?t ! 9)) ?t"
  have t: "worker_function env (make_params n 9) s = Some ?t" "busy n (AWork k) mp ?t"
    using assms by (auto simp: worker_function_def busy_def set_worker_def)
  have "worker_function env (make_params n 9) ?t = Some ?u"
    using t(2) assms(4) by (simp add: worker_function_def busy_def Let_def)
  then have "aff_step env n d s ?t" "aff_step env n d ?t ?u"
    using t assms(1,3) by (auto intro: worker9_step)
  moreover have "busy n (ATest (Suc k)) mp ?u" using busy_set_worker(2) [OF t(2) assms(3)] .
  moreover have "test_flag ?u = 1" using assms(2) by (simp add: set_worker_def)
  ultimately show ?thesis by (meson converse_rtranclp_into_rtranclp rtranclp.rtrancl_refl)
qed

lemma worker9_iterates:
  assumes "busy n (ATest 0) mp s" "test_flag s = 1" "9 < num_workers n" "k \<le> 9"
  shows "\<exists>u. (aff_step env n d)\<^sup>*\<^sup>* s u \<and> busy n (ATest k) mp u \<and> test_flag u = 1"
  using assms(4)
proof (induction k)
  case 0
  then show ?case using assms by blast
next
  case (Suc k)
  then obtain u where "(aff_step env n d)\<^sup>*\<^sup>* s u" "busy n (ATest k) mp u" "test_flag u = 1" by auto
  with worker9_iteration [of n k mp u env d] assms(3) Suc.prems show ?case by (meson Suc_le_lessD rtranclp_trans)
qed

lemma monitor_ends:
  "busy n pc (AMonitor t) s \<Longrightarrow> \<exists>u. (aff_step env n d)\<^sup>*\<^sup>* s u \<and> busy n pc AStop u"
proof (induction "nat (d - int t)" arbitrary: t s)
  case 0
  then have "aff_step env n d s (s\<lparr>main_at := AStop\<rparr>)" by (auto simp: aff_step_def aff_main_def busy_def)
  then show ?case using 0 by (auto simp: busy_def)
next
  case (Suc k)
  then have "aff_step env n d s (s\<lparr>main_at := AMonitor (t + 1)\<rparr>)" by (auto simp: aff_step_def aff_main_def busy_def)
  moreover have "busy n pc (AMonitor (t + 1)) (s\<lparr>main_at := AMonitor (t + 1)\<rparr>)" using Suc.prems by (simp add: busy_def)
  moreover have "k = nat (d - int (t + 1))" using Suc.hyps(2) by simp
  ultimately show ?case using Suc.hyps(1) [of "t + 1"] by (meson converse_rtranclp_into_rtranclp)
qed

lemma worker9_type:
  assumes "4 \<le> n" "n \<le> 8"
  shows "work_type (make_params n 9) \<noteq> 0" "9 < num_workers n"
proof -
  have "n \<in> {4, 5, 6, 7, 8}" using assms by auto
  then have "9 div n \<in> {1, 2}" by auto
  then show "work_type (make_params n 9) \<noteq> 0" by (auto simp: make_params_def)
qed (use assms in \<open>simp add: num_workers_def MAX_CPUS_def\<close>)

text \<open>The entry 9 of \<^verbatim>\<open>cache_misses\<close> is \<^verbatim>\<open>test_running\<close>.\<close>

lemma cache_misses_9: "cache_misses_at 9 = test_running_at"
  by (simp add: field_defs)

lemma worker9_writes:
  assumes "busy n (AWrite k ws False) mp s" "9 < num_workers n" "ws \<noteq> []" "last ws = (test_running_at, v)"
  shows "\<exists>u. (aff_step env n d)\<^sup>*\<^sup>* s u \<and> busy n (AWrite k [] False) mp u \<and> test_flag u = v mod 256 ^ 4"
  using assms
proof (induction ws arbitrary: s)
  case (Cons x ws)
  obtain f y where x: "x = (f, y)" by (cases x)
  let ?u = "set_worker 9 (AWrite k ws False) (bufs s ! 9) (s\<lparr>mem := set_field f y (mem s)\<rparr>)"
  have "worker_function env (make_params n 9) s = Some ?u"
    using Cons.prems(1) x by (simp add: worker_function_def busy_def)
  then have st: "aff_step env n d s ?u" using worker9_step Cons.prems(1,2) by blast
  have b: "busy n (AWrite k ws False) mp ?u" by (rule busy_set_worker(1) [OF Cons.prems(1,2)])
  show ?case
  proof (cases "ws = []")
    case True
    then have "test_flag ?u = v mod 256 ^ 4"
      using Cons.prems(4) x get_set_same [of test_running_at v "mem s"] by (simp add: set_worker_def) (simp add: test_running_at_def)
    with st b True show ?thesis by blast
  next
    case False
    then have "\<exists>u. (aff_step env n d)\<^sup>*\<^sup>* ?u u \<and> busy n (AWrite k [] False) mp u \<and> test_flag u = v mod 256 ^ 4"
      using Cons.IH [OF b Cons.prems(2) False] Cons.prems(4) by simp
    with st show ?thesis by (meson converse_rtranclp_into_rtranclp)
  qed
qed simp

lemma miss_count_range:
  assumes "wt \<noteq> 0"
  shows "2000 \<le> miss_count wt r \<and> miss_count wt r < 10000"
  using assms less_trans [OF mod_less_divisor [of 3000 r], of 8000] by (simp add: miss_count_def)

lemma worker9_restarts:
  assumes "4 \<le> n" "n \<le> 8" "busy n (AWork 9) mp s"
  shows "\<exists>u k. (aff_step env n d)\<^sup>*\<^sup>* s u \<and> busy n (AWrite k [] False) mp u \<and> 2000 \<le> test_flag u"
proof -
  note w = worker9_type [OF assms(1,2)]
  let ?ws = "update_writes env (make_params n 9) 10"
  let ?t = "set_worker 9 (AWrite 10 ?ws False) (do_work (char_ext env) (work_type (make_params n 9)) (bufs s ! 9)) s"
  let ?v = "miss_count (work_type (make_params n 9)) (rand_miss env 9 10)"
  have "worker_function env (make_params n 9) s = Some ?t"
    using assms(3) by (simp add: worker_function_def busy_def Let_def)
  then have st: "aff_step env n d s ?t" using worker9_step assms(3) w(2) by blast
  have b: "busy n (AWrite 10 ?ws False) mp ?t" by (rule busy_set_worker(2) [OF assms(3) w(2)])
  have ws: "?ws \<noteq> []" "last ?ws = (test_running_at, ?v)" by (simp_all add: update_writes_def cache_misses_9 Let_def)
  obtain u where u: "(aff_step env n d)\<^sup>*\<^sup>* ?t u" "busy n (AWrite 10 [] False) mp u" "test_flag u = ?v mod 256 ^ 4"
    using worker9_writes [OF b w(2) ws] by blast
  have v: "2000 \<le> ?v" "?v < 10000" using miss_count_range [OF w(1)] by blast+
  then have "test_flag u = ?v" using u(3) by simp
  moreover have "(aff_step env n d)\<^sup>*\<^sup>* s u" using st u(1) by (rule converse_rtranclp_into_rtranclp)
  ultimately show ?thesis using u(2) v(1) by (intro exI [of _ u] exI [of _ 10]) simp
qed

lemma worker9_working:
  assumes "4 \<le> n" "n \<le> 8" "all_ok env"
  shows "\<exists>s. (aff_step env n d)\<^sup>*\<^sup>* (aff_start n) s \<and> busy n (AWork 9) AStop s"
proof -
  note w = worker9_type [OF assms(1,2)]
  let ?N = "num_workers n" and ?R = "(aff_step env n d)\<^sup>*\<^sup>*"
  define s0 where "s0 = (aff_start n)\<lparr>pcs := replicate ?N AStart, bufs := replicate ?N None, main_at := ASpawn ?N\<rparr>"
  have s0: "?R (aff_start n) s0" unfolding s0_def by (rule spawn_all [OF assms(3) order_refl])
  define s1 where "s1 = s0\<lparr>main_at := AMonitor 0\<rparr>"
  have "aff_main env n d s0 = Some s1" by (simp add: aff_main_def s0_def s1_def)
  then have s1: "?R (aff_start n) s1" using s0 by (auto simp: aff_step_def intro: rtranclp.rtrancl_into_rtrancl)
  have b1: "busy n AStart (AMonitor 0) s1" using w(2) by (simp add: busy_def s1_def s0_def aff_start_def)
  have f1: "test_flag s1 = 1"
    by (simp add: s1_def s0_def aff_start_def get_set_apart globals_apart(1) get_set_same) (simp add: test_running_at_def)
  define s2 where "s2 = set_worker 9 (ATest 0) (if work_type (make_params n 9) = 1 \<or> work_type (make_params n 9) = 2
    then Some (init_buffer buffer_size) else None) s1"
  have "worker_function env (make_params n 9) s1 = Some s2"
    using b1 assms(3) by (simp add: worker_function_def busy_def all_ok_def s2_def Let_def)
  then have "aff_step env n d s1 s2" using worker9_step b1 w(2) by blast
  then have s2: "?R (aff_start n) s2" using s1 by (simp add: rtranclp.rtrancl_into_rtrancl)
  have "busy n (ATest 0) (AMonitor 0) s2" "test_flag s2 = 1"
    using busy_set_worker(2) [OF b1 w(2)] f1 by (simp_all add: s2_def set_worker_def)
  then obtain s3 where s3: "?R s2 s3" "busy n (ATest 9) (AMonitor 0) s3" "test_flag s3 = 1"
    using worker9_iterates w(2) by blast
  define s4 where "s4 = set_worker 9 (AWork 9) (bufs s3 ! 9) s3"
  have "worker_function env (make_params n 9) s3 = Some s4"
    using s3(2,3) by (simp add: worker_function_def busy_def s4_def Let_def)
  then have "aff_step env n d s3 s4" using worker9_step s3(2) w(2) by blast
  then have s4: "?R (aff_start n) s4" using s2 s3(1) by (meson rtranclp.rtrancl_into_rtrancl rtranclp_trans)
  have "busy n (AWork 9) (AMonitor 0) s4" using busy_set_worker(2) [OF s3(2) w(2)] by (simp add: s4_def)
  then obtain s5 where s5: "?R s4 s5" "busy n (AWork 9) AStop s5" using monitor_ends by blast
  show ?thesis using s4 s5 by (meson rtranclp_trans)
qed

lemma large_overruns:
  assumes "3 \<le> n" "n \<le> 8" "all_ok env"
  shows "(\<exists>w < num_workers n. MAX_CPUS \<le> w \<and> total_ops_at w = elapsed_time_at (w - MAX_CPUS)) \<and>
    (4 \<le> n \<longrightarrow> (\<exists>s. (aff_step env n d)\<^sup>*\<^sup>* (aff_start n) s \<and> main_at s = AJoin 0 \<and> running s \<and> test_flag s \<noteq> 0))"
proof (intro conjI impI)
  show "\<exists>w < num_workers n. MAX_CPUS \<le> w \<and> total_ops_at w = elapsed_time_at (w - MAX_CPUS)"
    using assms(1,2) by (intro exI [of _ 8]) (simp add: num_workers_def MAX_CPUS_def field_defs)
next
  assume n: "4 \<le> n"
  let ?R = "(aff_step env n d)\<^sup>*\<^sup>*"
  obtain s5 where s5: "?R (aff_start n) s5" "busy n (AWork 9) AStop s5" using worker9_working [OF n assms(2,3)] by blast
  define s6 where "s6 = s5\<lparr>mem := set_field test_running_at 0 (mem s5), main_at := AJoin 0\<rparr>"
  have "aff_step env n d s5 s6" using s5(2) by (simp add: aff_step_def aff_main_def busy_def s6_def)
  moreover have "busy n (AWork 9) (AJoin 0) s6" using s5(2) by (simp add: busy_def s6_def)
  then obtain s7 k where s7: "?R s6 s7" "busy n (AWrite k [] False) (AJoin 0) s7" "2000 \<le> test_flag s7"
    using worker9_restarts [OF n assms(2)] by blast
  ultimately have "?R (aff_start n) s7" using s5(1) s7(1) by (meson rtranclp.rtrancl_into_rtrancl rtranclp_trans)
  with s7 show "\<exists>s. ?R (aff_start n) s \<and> main_at s = AJoin 0 \<and> running s \<and> test_flag s \<noteq> 0"
    by (intro exI [of _ s7]) (simp add: busy_def)
qed

text \<open>
  C25. On a machine with one or two CPUs the shared results are reliable: in every reachable state \<^verbatim>\<open>test_running\<close> is
  set until \<^verbatim>\<open>main\<close> clears it and stays clear from then on, whatever the workers write, and when a worker has finished,
  its entry of \<^verbatim>\<open>total_ops\<close> is the number of operations it performed and its buffer is freed. With 3 to 8 CPUs the workers with
  number 8 and more write past their arrays: \<^verbatim>\<open>total_ops[w]\<close> is \<^verbatim>\<open>elapsed_time[w - 8]\<close>. From 4 CPUs on \<^verbatim>\<open>cache_misses[9]\<close> is \<^verbatim>\<open>test_running\<close>, so worker 9
  can start the test again after \<^verbatim>\<open>main\<close> has stopped it: a state is reachable where \<^verbatim>\<open>main\<close> waits for the workers and \<^verbatim>\<open>test_running\<close> is set.
\<close>

theorem affinity_results:
  assumes "n \<le> 8"
  shows "(n \<le> 2 \<and> (aff_step env n d)\<^sup>*\<^sup>* (aff_start n) s \<longrightarrow>
       (test_flag s = 0 \<longleftrightarrow> stopped (main_at s)) \<and>
       (\<forall>w < length (pcs s). \<forall>ops. pcs s ! w = ADone (Some ops) \<longrightarrow> get_field (total_ops_at w) (mem s) = ops \<and> bufs s ! w = None)) \<and>
    (3 \<le> n \<and> all_ok env \<longrightarrow>
       (\<exists>w < num_workers n. MAX_CPUS \<le> w \<and> total_ops_at w = elapsed_time_at (w - MAX_CPUS)) \<and>
       (4 \<le> n \<longrightarrow> (\<exists>s. (aff_step env n d)\<^sup>*\<^sup>* (aff_start n) s \<and> main_at s = AJoin 0 \<and> running s \<and> test_flag s \<noteq> 0)))"
  using small_results [of n env d s] large_overruns [of n env d] assms by blast

theorem affinity_results_witness:
  "(\<exists>s. (aff_step env1 1 10)\<^sup>*\<^sup>* (aff_start 1) s \<and> pcs s = [AStart] \<and> test_flag s \<noteq> 0) \<and>
   (\<exists>s. (aff_step env1 4 10)\<^sup>*\<^sup>* (aff_start 4) s \<and> main_at s = AJoin 0 \<and> running s \<and> test_flag s \<noteq> 0)"
proof -
  define s where "s = (aff_start 1)\<lparr>pcs := [AStart], bufs := [None], main_at := ASpawn 1\<rparr>"
  have "aff_main env1 1 10 (aff_start 1) = Some s"
    by (simp add: aff_main_def s_def aff_start_def env1_def num_workers_def MAX_CPUS_def)
  then have "(aff_step env1 1 10)\<^sup>*\<^sup>* (aff_start 1) s" by (auto simp: aff_step_def)
  with affinity_results [of 1 env1 10 s] affinity_results [of 4 env1 10 s] show ?thesis
    by (auto simp: s_def stopped_def all_ok_def env1_def)
qed

section \<open>Work and report\<close>

text \<open>The positions a scan visits, and the bytes there: prefix sums, whatever the sign of \<^verbatim>\<open>char\<close>.\<close>

definition widens :: "(byte \<Rightarrow> u32) \<Rightarrow> bool" where
  "widens ext \<longleftrightarrow> (\<forall>b. ucast (ext b) = b)"

lemma widens_char: "widens ucast" "widens scast"
proof -
  show "widens ucast" by (simp add: widens_def ucast_up_ucast_id is_up)
  have "ucast (scast b :: u32) = b" for b :: byte
    by (rule bit_word_eqI) (simp add: bit_simps)
  then show "widens scast" by (simp add: widens_def)
qed

lemma ucast_add_byte: "ucast (a + b :: u32) = (ucast a + ucast b :: byte)"
proof (transfer, goal_cases)
  case (1 a b)
  have "(x::int) mod 4294967296 mod 256 = x mod 256" for x by (rule mod_mod_cancel) simp
  then show ?case by (simp add: take_bit_eq_mod) (metis mod_add_eq)
qed

lemma scan_buffer_prefix:
  assumes "widens ext" "0 < stride"
  shows "length (scan_buffer ext stride j acc buf) = length buf \<and>
    (\<forall>p < length buf. scan_buffer ext stride j acc buf ! p =
      (if j \<le> p \<and> stride dvd p - j then ucast acc + (\<Sum>i\<le>(p - j) div stride. buf ! (j + i * stride)) else buf ! p))"
  using assms
proof (induction ext stride j acc buf rule: scan_buffer.induct)
  case (1 ext stride j acc buf)
  show ?case
  proof (cases "length buf \<le> j")
    case True
    then show ?thesis by (subst (1 2) scan_buffer.simps) auto
  next
    case False
    define acc' where "acc' = acc + ext (buf ! j)"
    let ?b = "buf[j := ucast acc']"
    have c: "ucast acc' = ucast acc + buf ! j"
      using 1(2) by (simp add: acc'_def widens_def ucast_add_byte)
    have r: "scan_buffer ext stride j acc buf = scan_buffer ext stride (j + stride) acc' ?b"
      using False 1(3) by (subst scan_buffer.simps) (simp add: acc'_def Let_def)
    have ih: "length (scan_buffer ext stride (j + stride) acc' ?b) = length buf"
      "p < length buf \<Longrightarrow> scan_buffer ext stride (j + stride) acc' ?b ! p =
        (if j + stride \<le> p \<and> stride dvd p - (j + stride) then ucast acc' + (\<Sum>i\<le>(p - (j + stride)) div stride. ?b ! (j + stride + i * stride)) else ?b ! p)" for p
      using 1(1) [OF _ acc'_def 1(2,3)] False 1(3) by auto
    have "scan_buffer ext stride (j + stride) acc' ?b ! p =
      (if j \<le> p \<and> stride dvd p - j then ucast acc + (\<Sum>i\<le>(p - j) div stride. buf ! (j + i * stride)) else buf ! p)"
      if p: "p < length buf" for p
    proof (cases "j + stride \<le> p \<and> stride dvd p - (j + stride)")
      case True
      then have d: "stride dvd p - j" "(p - j) div stride = Suc ((p - (j + stride)) div stride)"
      proof -
        have q: "p - j = (p - (j + stride)) + stride" using True by simp
        show "stride dvd p - j" using True by (subst q) (simp only: dvd_add_triv_right_iff)
        show "(p - j) div stride = Suc ((p - (j + stride)) div stride)" using 1(3) by (subst q) (simp only: div_add_self2 [OF less_imp_neq [THEN not_sym]] Suc_eq_plus1)
      qed
      have "(\<Sum>i\<le>(p - j) div stride. buf ! (j + i * stride)) =
        buf ! j + (\<Sum>i\<le>(p - (j + stride)) div stride. buf ! (j + stride + i * stride))"
        unfolding d(2) by (subst sum.atMost_Suc_shift) (simp add: algebra_simps)
      then show ?thesis using ih(2) [OF p] True d(1) c 1(3) by simp
    next
      case notin: False
      show ?thesis
      proof (cases "j \<le> p \<and> stride dvd p - j")
        case True
        have "p = j"
        proof (rule ccontr)
          assume "p \<noteq> j"
          then have "stride \<le> p - j" using True by (auto intro: dvd_imp_le)
          then have "j + stride \<le> p" "stride dvd (p - j) - stride" using True by (linarith, simp only: dvd_diff_nat dvd_refl)
          then show False using notin by (simp only: diff_diff_left) simp
        qed
        then show ?thesis using ih(2) [OF p] notin p c 1(3) by simp
      next
        case False
        then have "p \<noteq> j" by auto
        then show ?thesis using ih(2) [OF p] notin False by auto
      qed
    qed
    then show ?thesis using r ih(1) by simp
  qed
qed

text \<open>The index a scan for the greatest and the least value ends with.\<close>

lemma scan_extremes:
  fixes val :: "nat \<Rightarrow> int"
  assumes "0 < k" "\<And>i. i < k \<Longrightarrow> lo < val i \<and> val i < hi"
  shows "\<exists>a < k. \<exists>b < k. fold (\<lambda>i (mx, mn, x, y).
      (if val i > mx then val i else mx, if val i < mn then val i else mn,
       if val i > mx then tag i else x, if val i < mn then tag i else y)) [0..<k] (lo, hi, x0, y0)
    = (val a, val b, tag a, tag b) \<and> (\<forall>i < k. val i \<le> val a \<and> val b \<le> val i)"
  using assms
proof (induction k)
  case (Suc k)
  show ?case
  proof (cases "k = 0")
    case True
    then show ?thesis using Suc.prems(2) [of 0] by simp
  next
    case False
    then obtain a b where ab: "a < k" "b < k" "\<forall>i < k. val i \<le> val a \<and> val b \<le> val i"
      "fold (\<lambda>i (mx, mn, x, y).
        (if val i > mx then val i else mx, if val i < mn then val i else mn,
         if val i > mx then tag i else x, if val i < mn then tag i else y)) [0..<k] (lo, hi, x0, y0) = (val a, val b, tag a, tag b)"
      using Suc by (metis (no_types, lifting) less_SucI not_gr0)
    show ?thesis
      by (rule exI [of _ "if val k > val a then k else a"], rule conjI,
          use ab in simp, rule exI [of _ "if val k < val b then k else b"])
        (use ab in \<open>auto simp: less_Suc_eq\<close>)
  qed
qed simp

lemma temp_scan_extremes:
  assumes "0 < num_workers n" "\<And>i. i < num_workers n \<Longrightarrow> 0 \<le> get_int (cpu_temp_at i) m \<and> get_int (cpu_temp_at i) m < 999"
  shows "\<exists>a < num_workers n. \<exists>b < num_workers n. temp_scan n m =
      (get_int (cpu_temp_at a) m, get_int (cpu_temp_at b) m, int (cpu_id (make_params n a)), int (cpu_id (make_params n b))) \<and>
    (\<forall>i < num_workers n. get_int (cpu_temp_at i) m \<le> get_int (cpu_temp_at a) m \<and> get_int (cpu_temp_at b) m \<le> get_int (cpu_temp_at i) m)"
  using scan_extremes [of "num_workers n" "-1" "\<lambda>i. get_int (cpu_temp_at i) m" 999 "\<lambda>i. int (cpu_id (make_params n i))" "-1" "-1"] assms
  unfolding temp_scan_def Let_def by force

lemma miss_scan_extremes:
  assumes "0 < num_workers n" "\<And>i. i < num_workers n \<Longrightarrow> 0 \<le> get_int (cache_misses_at i) m \<and> get_int (cache_misses_at i) m < 999999"
  shows "\<exists>a < num_workers n. \<exists>b < num_workers n. miss_scan n m =
      (get_int (cache_misses_at a) m, get_int (cache_misses_at b) m, int a, int b) \<and>
    (\<forall>i < num_workers n. get_int (cache_misses_at i) m \<le> get_int (cache_misses_at a) m \<and> get_int (cache_misses_at b) m \<le> get_int (cache_misses_at i) m)"
  using scan_extremes [of "num_workers n" "-1" "\<lambda>i. get_int (cache_misses_at i) m" 999999 int "-1" "-1"] assms
  unfolding miss_scan_def Let_def by force

lemma filled_width_bounds:
  assumes "0 \<le> t" "t < d"
  shows "0 \<le> filled_width t d \<and> filled_width t d < 50"
proof -
  have "filled_width t d = (t * 50) div d" using assms by (simp add: filled_width_def)
  moreover have "(t * 50) div d \<le> (49 * d + (d - 1)) div d" using assms by (intro zdiv_mono1) auto
  moreover have "(49 * d + (d - 1)) div d = 49"
    using assms by (subst div_mult_self3) (auto simp: div_pos_pos_trivial)
  ultimately show ?thesis using assms by (simp add: pos_imp_zdiv_nonneg_iff)
qed

end
