(* ===== verification/AffinityReport.thy ===== *)
theory AffinityReport
  imports Affinity
begin

text \<open>
  The displays of \<^verbatim>\<open>06_affinity_advance.c\<close>: the system information parsed from \<^verbatim>\<open>/proc/cpuinfo\<close> and \<^verbatim>\<open>/proc/meminfo\<close>, the configuration, and the
  table, observations and recommendations computed from the shared structure. The arithmetic of \<^verbatim>\<open>double\<close> is a parameter.
\<close>

section \<open>System information\<close>

text \<open>One \<^verbatim>\<open>fgets\<close> with a buffer of \<open>n\<close> bytes, and the lines it cuts a file into.\<close>

definition fgets_line :: "nat \<Rightarrow> string \<Rightarrow> string" where
  "fgets_line n s =
     (let t = take (n - 1) s; u = takeWhile (\<lambda>c. c \<noteq> CHR 0x0A) t in if CHR 0x0A \<in> set t then u @ [CHR 0x0A] else u)"

lemma fgets_line_nonempty: "s \<noteq> [] \<Longrightarrow> 1 < n \<Longrightarrow> fgets_line n s \<noteq> []"
  by (cases s) (auto simp: fgets_line_def Let_def take_Cons')

function fgets_lines :: "nat \<Rightarrow> string \<Rightarrow> string list" where
  "fgets_lines n s =
     (if s = [] \<or> n \<le> 1 then [] else fgets_line n s # fgets_lines n (drop (length (fgets_line n s)) s))"
  by pat_completeness auto
termination
  by (relation "measure (length \<circ> snd)") (use fgets_line_nonempty in auto)

declare fgets_lines.simps [simp del]

definition LINE :: nat where "LINE = 256"

text \<open>The number of processors seen and the model, after one more line.\<close>

definition cpuinfo_line :: "string \<Rightarrow> nat \<times> string \<Rightarrow> nat \<times> string" where
  "cpuinfo_line line st =
     (let (cpu_count, cpu_model) = st
      in if take 9 line = ''processor'' then (cpu_count + 1, cpu_model)
         else if take 10 line = ''model name'' then
           (let colon = dropWhile (\<lambda>c. c \<noteq> CHR '':'') line
            in if colon \<noteq> [] \<and> take 1 (drop 1 colon) = '' '' \<and> cpu_count = 1
               then (cpu_count, chop_newline (take 255 (drop 2 colon))) else st)
         else st)"

definition cpu_model :: "string list \<Rightarrow> string" where
  "cpu_model lines = snd (fold cpuinfo_line lines (0, ''Unknown''))"

text \<open>\<^verbatim>\<open>sscanf(s, "%ld", &v)\<close>: without digits \<open>v\<close> keeps its value.\<close>

definition scan_ld :: "string \<Rightarrow> int \<Rightarrow> int" where
  "scan_ld s v =
     (let (neg, u) = sign_of s; ds = takeWhile is_digit u
      in if ds = [] then v else if neg then - int (digits_val ds) else int (digits_val ds))"

definition total_mem :: "string list \<Rightarrow> int" where
  "total_mem lines = (case find (\<lambda>l. take 9 l = ''MemTotal:'') lines of None \<Rightarrow> 0 | Some l \<Rightarrow> scan_ld (drop 9 l) 0)"

text \<open>The printed number of CPUs, model and memory; a file that cannot be opened is skipped.\<close>

definition display_system_info :: "int \<Rightarrow> string option \<Rightarrow> string option \<Rightarrow> int \<times> string option \<times> int option" where
  "display_system_info num_cpus cpuinfo meminfo =
     (num_cpus, map_option (\<lambda>f. cpu_model (fgets_lines LINE f)) cpuinfo, map_option (\<lambda>f. total_mem (fgets_lines LINE f)) meminfo)"

section \<open>Configuration and results\<close>

definition work_type_names :: "string list" where
  "work_type_names = [''CPU-bound'', ''Memory-bound'', ''Mixed workload'']"

definition workload :: "nat \<Rightarrow> nat \<Rightarrow> string" where
  "workload n i = work_type_names ! work_type (make_params n i)"

definition display_test_config :: "nat \<Rightarrow> (nat \<times> nat \<times> string) list" where
  "display_test_config n =
     map (\<lambda>i. (worker_id (make_params n i), cpu_id (make_params n i), workload n i)) [0..<num_workers n]"

text \<open>The operations on \<^verbatim>\<open>double\<close> the report uses.\<close>

record 'd fops =
  from_bits :: "nat \<Rightarrow> 'd"
  from_int :: "int \<Rightarrow> 'd"
  div_f :: "'d \<Rightarrow> 'd \<Rightarrow> 'd"
  plus_f :: "'d \<Rightarrow> 'd \<Rightarrow> 'd"
  minus_f :: "'d \<Rightarrow> 'd \<Rightarrow> 'd"
  times_f :: "'d \<Rightarrow> 'd \<Rightarrow> 'd"
  fabs :: "'d \<Rightarrow> 'd"
  less_f :: "'d \<Rightarrow> 'd \<Rightarrow> bool"
  nine_tenths :: 'd

text \<open>\<^verbatim>\<open>shared->total_ops[i] / shared->elapsed_time[i]\<close>.\<close>

definition total_ops :: "memory \<Rightarrow> nat \<Rightarrow> int" where
  "total_ops m i = sint (of_nat (get_field (total_ops_at i) m) :: 64 word)"

definition ops_per_sec :: "'d fops \<Rightarrow> memory \<Rightarrow> nat \<Rightarrow> 'd" where
  "ops_per_sec F m i = div_f F (from_int F (total_ops m i)) (from_bits F (get_field (elapsed_time_at i) m))"

definition result_row :: "'d fops \<Rightarrow> nat \<Rightarrow> memory \<Rightarrow> nat \<Rightarrow> nat \<times> nat \<times> string \<times> int \<times> 'd \<times> 'd \<times> int" where
  "result_row F n m i = (i, cpu_id (make_params n i), workload n i, total_ops m i, from_bits F (get_field (elapsed_time_at i) m),
     ops_per_sec F m i, get_int (cpu_temp_at i) m)"

text \<open>The pairs of workers that are compared, in the order of the two loops.\<close>

definition compared :: "nat \<Rightarrow> (nat \<times> nat) list" where
  "compared n =
     [(i, j). i \<leftarrow> [0..<num_workers n], j \<leftarrow> [i + 1..<num_workers n],
              work_type (make_params n i) = work_type (make_params n j) \<and> cpu_id (make_params n i) \<noteq> cpu_id (make_params n j)]"

definition diff_percent :: "'d fops \<Rightarrow> 'd \<Rightarrow> 'd \<Rightarrow> 'd" where
  "diff_percent F a b =
     times_f F (div_f F (fabs F (minus_f F a b)) (div_f F (plus_f F a b) (from_int F 2))) (from_int F 100)"

text \<open>The workload, the difference, whether the first is better, and the two CPUs.\<close>

definition observation :: "'d fops \<Rightarrow> nat \<Rightarrow> memory \<Rightarrow> nat \<times> nat \<Rightarrow> (string \<times> 'd \<times> bool \<times> nat \<times> nat) option" where
  "observation F n m p =
     (let (i, j) = p; a = ops_per_sec F m i; b = ops_per_sec F m j; d = diff_percent F a b
      in if less_f F (from_int F 5) d
         then Some (workload n i, d, less_f F b a, cpu_id (make_params n i), cpu_id (make_params n j)) else None)"

text \<open>The CPUs of the workers of a type that are faster than 90 percent of a reference worker.\<close>

definition best_cpus :: "'d fops \<Rightarrow> nat \<Rightarrow> memory \<Rightarrow> nat \<Rightarrow> nat \<Rightarrow> nat list" where
  "best_cpus F n m wt ref =
     [cpu_id (make_params n i). i \<leftarrow> [0..<num_workers n],
        work_type (make_params n i) = wt \<and> less_f F (times_f F (ops_per_sec F m ref) (nine_tenths F)) (ops_per_sec F m i)]"

record 'd report =
  rows :: "(nat \<times> nat \<times> string \<times> int \<times> 'd \<times> 'd \<times> int) list"
  observations :: "(string \<times> 'd \<times> bool \<times> nat \<times> nat) list"
  hotter :: "(int \<times> int \<times> int) option"
  misses :: "int \<times> 'd \<times> int"
  cpu_best :: "nat list"
  memory_best :: "nat list"

definition display_test_results :: "'d fops \<Rightarrow> nat \<Rightarrow> memory \<Rightarrow> 'd report" where
  "display_test_results F n m =
     (let (max_temp, min_temp, max_temp_cpu, min_temp_cpu) = temp_scan n m;
          (max_cm, min_cm, max_cm_worker, min_cm_worker) = miss_scan n m
      in \<lparr>rows = map (result_row F n m) [0..<num_workers n],
          observations = List.map_filter (observation F n m) (compared n),
          hotter = (if max_temp_cpu \<noteq> min_temp_cpu then Some (max_temp_cpu, max_temp - min_temp, min_temp_cpu) else None),
          misses = (max_cm_worker, div_f F (from_int F max_cm) (from_int F min_cm), min_cm_worker),
          cpu_best = best_cpus F n m 0 0,
          memory_best = best_cpus F n m 1 1\<rparr>)"

section \<open>The parsed files\<close>

lemma fgets_line_text:
  assumes "CHR 0x0A \<notin> set l" "length l < n - 1"
  shows "fgets_line n (l @ CHR 0x0A # s) = l @ [CHR 0x0A]"
proof -
  obtain k where k: "n - 1 = length l + Suc k" using assms(2) by (metis less_imp_Suc_add add_Suc_right)
  have t: "take (n - 1) (l @ CHR 0x0A # s) = l @ CHR 0x0A # take k s" unfolding k take_append by simp
  have "\<forall>x \<in> set l. x \<noteq> CHR 0x0A" using assms(1) by auto
  then have "takeWhile (\<lambda>c. c \<noteq> CHR 0x0A) (l @ CHR 0x0A # take k s) = l" by (simp add: takeWhile_append)
  then show ?thesis unfolding fgets_line_def t Let_def by simp
qed

lemma fgets_lines_text:
  "\<forall>l \<in> set ls. CHR 0x0A \<notin> set l \<and> length l < n - 1 \<Longrightarrow>
   fgets_lines n (concat (map (\<lambda>l. l @ [CHR 0x0A]) ls)) = map (\<lambda>l. l @ [CHR 0x0A]) ls"
proof (induction ls)
  case Nil
  then show ?case by (simp add: fgets_lines.simps)
next
  case (Cons l ls)
  have "fgets_line n (l @ CHR 0x0A # concat (map (\<lambda>l. l @ [CHR 0x0A]) ls)) = l @ [CHR 0x0A]"
    using Cons.prems by (intro fgets_line_text) simp_all
  moreover have "\<not> n \<le> 1" using Cons.prems by auto
  ultimately show ?case using Cons by (subst fgets_lines.simps) simp
qed

definition is_processor :: "string \<Rightarrow> bool" where "is_processor l \<longleftrightarrow> take 9 l = ''processor''"
definition is_model :: "string \<Rightarrow> bool" where "is_model l \<longleftrightarrow> take 10 l = ''model name''"

lemma not_both: "\<not> (is_processor l \<and> is_model l)"
proof
  assume a: "is_processor l \<and> is_model l"
  have "take 9 (take 10 l) = take 9 l" by (simp add: min_def)
  with a have "take 9 ''model name'' = ''processor''" by (metis is_model_def is_processor_def)
  then show False by simp
qed

lemma cpuinfo_line_count: "fst (cpuinfo_line l st) = fst st + (if is_processor l then 1 else 0)"
  by (cases st) (auto simp: cpuinfo_line_def is_processor_def Let_def)

lemma cpuinfo_line_model: "fst st \<noteq> 1 \<or> \<not> is_model l \<Longrightarrow> snd (cpuinfo_line l st) = snd st"
  by (cases st) (auto simp: cpuinfo_line_def is_model_def Let_def)

lemma fold_count: "fst (fold cpuinfo_line ls st) = fst st + length (filter is_processor ls)"
  by (induction ls arbitrary: st) (auto simp: cpuinfo_line_count)

lemma fold_other_processors: "1 < fst st \<Longrightarrow> snd (fold cpuinfo_line ls st) = snd st"
proof (induction ls arbitrary: st)
  case (Cons l ls)
  have "1 < fst (cpuinfo_line l st)" using Cons.prems by (simp add: cpuinfo_line_count)
  with Cons show ?case by (simp add: cpuinfo_line_model)
qed simp

lemma fold_no_model:
  "\<forall>l \<in> set (takeWhile (\<lambda>l. \<not> is_processor l) ls). \<not> is_model l \<Longrightarrow> 1 \<le> fst st \<Longrightarrow> snd (fold cpuinfo_line ls st) = snd st"
proof (induction ls arbitrary: st)
  case (Cons l ls)
  show ?case
  proof (cases "is_processor l")
    case True
    then have "\<not> is_model l" using not_both by blast
    moreover have "1 < fst (cpuinfo_line l st)" using Cons.prems(2) True by (simp add: cpuinfo_line_count)
    ultimately show ?thesis using fold_other_processors [of "cpuinfo_line l st" ls] by (simp add: cpuinfo_line_model)
  next
    case False
    then have "\<not> is_model l" "\<forall>x \<in> set (takeWhile (\<lambda>l. \<not> is_processor l) ls). \<not> is_model x" using Cons.prems(1) by auto
    moreover have "1 \<le> fst (cpuinfo_line l st)" using Cons.prems(2) by (simp add: cpuinfo_line_count)
    ultimately show ?thesis using Cons.IH [of "cpuinfo_line l st"] by (simp add: cpuinfo_line_model)
  qed
qed simp

text \<open>The model of the first processor is found, wherever its line is among the lines of that processor.\<close>

lemma cpu_model_first:
  assumes "length (filter is_processor before) = 1" "\<forall>l \<in> set (takeWhile (\<lambda>l. \<not> is_processor l) after). \<not> is_model l"
    "CHR 0x0A \<notin> set name" "length name \<le> 255"
  shows "cpu_model (before @ [''model name'' @ [CHR 0x09] @ '': '' @ name @ [CHR 0x0A]] @ after) = name"
proof -
  let ?l = "''model name'' @ [CHR 0x09] @ '': '' @ name @ [CHR 0x0A]"
  define st where "st = fold cpuinfo_line before (0, ''Unknown'')"
  have one: "fst st = 1" using assms(1) by (simp add: st_def fold_count)
  have d: "dropWhile (\<lambda>c. c \<noteq> CHR '':'') ?l = '': '' @ name @ [CHR 0x0A]" by simp
  have "chop_newline (take 255 (name @ [CHR 0x0A])) = name"
  proof -
    have "take 255 (name @ [CHR 0x0A]) = name @ take (255 - length name) [CHR 0x0A]" using assms(4) by simp
    moreover have "\<forall>x \<in> set name. x \<noteq> CHR 0x0A" using assms(3) by auto
    ultimately show ?thesis by (cases "255 - length name") (simp_all add: chop_newline_def takeWhile_append)
  qed
  then have "cpuinfo_line ?l st = (1, name)" using one d by (cases st) (simp add: cpuinfo_line_def)
  then show ?thesis using fold_no_model [OF assms(2), of "(1, name)"] by (simp add: cpu_model_def st_def)
qed

lemma dropWhile_spaces: "dropWhile is_space (replicate k CHR '' '' @ s) = dropWhile is_space s"
  by (induction k) (simp_all add: is_space_def)

lemma sign_of_spaces: "sign_of (replicate k CHR '' '' @ s) = sign_of s"
  by (simp add: sign_of_def dropWhile_spaces)

lemma scan_ld_decimal:
  assumes "rest = [] \<or> \<not> is_digit (hd rest)"
  shows "scan_ld (replicate k CHR '' '' @ decimal v @ rest) d = int v"
proof -
  obtain c ds where c: "decimal v = c # ds" using decimal_nonempty by (cases "decimal v") auto
  have all: "\<forall>x \<in> set (decimal v). is_digit x" by (rule decimal_digits)
  then have "sign_of (decimal v @ rest) = (False, decimal v @ rest)" using c by (simp add: sign_of_digits)
  moreover have "takeWhile is_digit (decimal v @ rest) = decimal v"
    using all assms by (cases rest) (simp_all add: takeWhile_append2)
  ultimately show ?thesis using decimal_nonempty [of v] by (simp add: scan_ld_def sign_of_spaces digits_val_decimal)
qed

lemma total_mem_found:
  assumes "\<forall>l \<in> set before. take 9 l \<noteq> ''MemTotal:''"
  shows "total_mem (before @ [''MemTotal:'' @ replicate k CHR '' '' @ decimal v @ '' kB'' @ [CHR 0x0A]] @ after) = int v"
proof -
  let ?l = "''MemTotal:'' @ replicate k CHR '' '' @ decimal v @ '' kB'' @ [CHR 0x0A]"
  have "find (\<lambda>l. take 9 l = ''MemTotal:'') (before @ [?l] @ after) = Some ?l" using assms by (induction before) simp_all
  moreover have "\<not> is_digit (hd ('' kB'' @ [CHR 0x0A]))" by (simp add: is_digit_def)
  ultimately show ?thesis using scan_ld_decimal [of "'' kB'' @ [CHR 0x0A]" k v 0] by (simp add: total_mem_def)
qed

section \<open>The comparisons of the report\<close>

lemma num_workers_eq: "n \<le> 8 \<Longrightarrow> num_workers n = 3 * n"
  by (simp add: num_workers_def MAX_CPUS_def)

lemma work_type_eq: "i < 3 * n \<Longrightarrow> work_type (make_params n i) = i div n"
  by (simp add: make_params_def less_mult_imp_div_less)

text \<open>Exactly the pairs with the same work on different CPUs.\<close>

lemma compared_pairs:
  assumes "n \<le> 8"
  shows "set (compared n) = {(w * n + a, w * n + b) | w a b. w < 3 \<and> a < b \<and> b < n}" (is "?l = ?r")
proof
  show "?l \<subseteq> ?r"
  proof
    fix p assume "p \<in> ?l"
    then obtain i j where p: "p = (i, j)" "i < j" "j < 3 * n" "i div n = j div n" "i mod n \<noteq> j mod n"
      using assms by (auto simp: compared_def num_workers_eq work_type_eq make_params_def less_mult_imp_div_less)
    have n: "0 < n" using p(3) by (cases n) auto
    have w: "j div n < 3" using p(3) n by (simp add: less_mult_imp_div_less)
    have i: "i = j div n * n + i mod n" "j = j div n * n + j mod n" using p(4) div_mult_mod_eq [of i n] div_mult_mod_eq [of j n] by simp_all
    have "i mod n < j mod n" using p(2) i by linarith
    moreover have "j mod n < n" using n by simp
    ultimately show "p \<in> ?r" using p(1) w i by blast
  qed
  show "?r \<subseteq> ?l"
  proof
    fix p assume "p \<in> ?r"
    then obtain w a b where p: "p = (w * n + a, w * n + b)" "w < 3" "a < b" "b < n" by blast
    have "w * n + b < 3 * n"
    proof -
      have "w * n \<le> 2 * n" using p(2) by simp
      then show ?thesis using p(4) by linarith
    qed
    moreover have "(w * n + a) div n = w" "(w * n + b) div n = w" "(w * n + a) mod n = a" "(w * n + b) mod n = b" using p(3,4) by simp_all
    ultimately show "p \<in> ?l" using p assms by (auto simp: compared_def num_workers_eq work_type_eq make_params_def image_iff)
  qed
qed

lemma set_map_filter_eq: "set (List.map_filter f xs) = {x. \<exists>p \<in> set xs. f p = Some x}"
  by (induction xs) (auto simp: List.map_filter_simps split: option.splits)

lemma memory_reference: "2 \<le> n \<Longrightarrow> n \<le> 8 \<Longrightarrow> work_type (make_params n 1) = 0" "work_type (make_params 1 1) = 1"
  by (simp_all add: make_params_def)

text \<open>
  C26. The report for \<open>n\<close> CPUs compares exactly the pairs of workers with the same workload on two different CPUs, so it has
  an observation only for such pairs, and none on a machine with one CPU; every row names the CPU and the workload the worker was configured with. But
  the list of the best CPUs for memory-bound work is measured against worker 1, which is memory-bound on a machine with one CPU only: with
  more CPUs it is CPU-bound, and the list is empty whenever no memory-bound worker reaches 90 percent of the rate of that worker.
\<close>

theorem affinity_report:
  assumes "1 \<le> n" "n \<le> 8"
  shows "set (compared n) = {(w * n + a, w * n + b) | w a b. w < 3 \<and> a < b \<and> b < n} \<and>
    set (observations (display_test_results F n m)) = {x. \<exists>p \<in> set (compared n). observation F n m p = Some x} \<and>
    (n = 1 \<longrightarrow> observations (display_test_results F n m) = []) \<and>
    map (\<lambda>(i, c, w, _). (i, c, w)) (rows (display_test_results F n m)) = display_test_config n \<and>
    (work_type (make_params n 1) = 1 \<longleftrightarrow> n = 1) \<and>
    ((\<forall>c < n. \<not> less_f F (times_f F (ops_per_sec F m 1) (nine_tenths F)) (ops_per_sec F m (n + c))) \<longrightarrow>
       memory_best (display_test_results F n m) = [])"
proof -
  have c: "set (compared n) = {(w * n + a, w * n + b) | w a b. w < 3 \<and> a < b \<and> b < n}" using compared_pairs assms(2) by simp
  have o: "observations (display_test_results F n m) = List.map_filter (observation F n m) (compared n)"
    "memory_best (display_test_results F n m) = best_cpus F n m 1 1"
    "rows (display_test_results F n m) = map (result_row F n m) [0..<num_workers n]"
    by (simp_all add: display_test_results_def split: prod.split)
  have "compared n = []" if "n = 1"
  proof -
    have "set (compared n) = {}" using c that by auto
    then show ?thesis by simp
  qed
  moreover have "work_type (make_params n 1) = 1 \<longleftrightarrow> n = 1" using assms memory_reference by (cases "n = 1") auto
  moreover have "map (\<lambda>(i, c, w, _). (i, c, w)) (map (result_row F n m) [0..<num_workers n]) = display_test_config n"
    by (simp add: display_test_config_def result_row_def make_params_def)
  moreover have "best_cpus F n m 1 1 = []"
    if slow: "\<forall>c < n. \<not> less_f F (times_f F (ops_per_sec F m 1) (nine_tenths F)) (ops_per_sec F m (n + c))"
  proof -
    have "\<not> less_f F (times_f F (ops_per_sec F m 1) (nine_tenths F)) (ops_per_sec F m i)"
      if i: "i < 3 * n" "i div n = 1" for i
    proof -
      have "i = n + i mod n" using div_mult_mod_eq [of i n] i(2) by simp
      moreover have "i mod n < n" using assms(1) by simp
      ultimately show ?thesis using slow by metis
    qed
    then show ?thesis using assms(2) by (auto simp: best_cpus_def num_workers_eq work_type_eq concat_eq_Nil_conv)
  qed
  moreover have "List.map_filter (observation F n m) [] = []" by (simp add: List.map_filter_simps)
  ultimately show ?thesis using c unfolding o set_map_filter_eq by (intro conjI impI) simp_all
qed

definition int_fops :: "int fops" where
  "int_fops = \<lparr>from_bits = \<lambda>b. 1, from_int = \<lambda>i. i, div_f = (\<lambda>a b. a div b), plus_f = (+), minus_f = (-), times_f = (\<lambda>a b. a * b),
     fabs = (\<lambda>a. \<bar>a\<bar>), less_f = (<), nine_tenths = 1\<rparr>"

theorem affinity_report_witness:
  "memory_best (display_test_results int_fops 2 (\<lambda>_. 0)) = [] \<and> work_type (make_params 2 1) \<noteq> 1 \<and> (2, 3) \<in> set (compared 2)"
proof -
  have n: "(1 :: nat) \<le> 2" "(2 :: nat) \<le> 8" by simp_all
  have l: "load_bytes a k (\<lambda>_. 0) = 0" for a k by (induction k arbitrary: a) simp_all
  have z: "ops_per_sec int_fops (\<lambda>_. 0) i = 0" for i
    by (simp add: ops_per_sec_def total_ops_def get_field_def int_fops_def l)
  have "\<forall>c < 2. \<not> less_f int_fops (times_f int_fops (ops_per_sec int_fops (\<lambda>_. 0) 1) (nine_tenths int_fops)) (ops_per_sec int_fops (\<lambda>_. 0) (2 + c))"
    unfolding z by (simp add: int_fops_def)
  moreover have "(2, 3) \<in> {(w * 2 + a, w * 2 + b) | w a b. w < 3 \<and> a < b \<and> b < (2 :: nat)}"
    by (intro CollectI exI [of _ 1] exI [of _ 0]) simp
  ultimately show ?thesis using affinity_report [OF n, of int_fops "\<lambda>_. 0"] by auto
qed

end
