(* ===== verification/FileCopy.thy ===== *)
theory FileCopy
  imports CString
begin

text \<open>
  Programs that write and copy files: the write loop of \<^verbatim>\<open>lesson_3/code_examples/01_write/write.c\<close>, the buffered and the
  unbuffered copy of \<^verbatim>\<open>lesson_5/code_examples/00_streams/00_streams.c\<close>, and the gathering write and scattering read of
  \<^verbatim>\<open>lesson_5/code_examples/02_scatter_gather/scatter_writes.c\<close>. The kernel may transfer fewer bytes than asked for,
  be interrupted or fail; its answers are given in the order of the calls. A file is the list of its characters.
\<close>

section \<open>The write loop\<close>

text \<open>An answer of \<^verbatim>\<open>write\<close>: at most so many bytes, \<^verbatim>\<open>EINTR\<close>, or another error.\<close>

datatype write_answer = W_bytes nat | W_eintr | W_error

text \<open>The file and the unwritten rest when the loop ends; \<open>None\<close> while it still runs after these answers.\<close>

fun write_loop :: "string \<Rightarrow> write_answer list \<Rightarrow> string \<Rightarrow> (string \<times> string) option" where
  "write_loop [] answers file = Some (file, [])"
| "write_loop (c # cs) [] file = None"
| "write_loop (c # cs) (a # answers) file =
     (case a of
        W_bytes n \<Rightarrow>
          (if n = 0 then Some (file, c # cs)
           else write_loop (drop n (c # cs)) answers (file @ take n (c # cs)))
      | W_eintr \<Rightarrow> write_loop (c # cs) answers file
      | W_error \<Rightarrow> Some (file, c # cs))"

text \<open>\<^verbatim>\<open>main\<close>: the exit code and the file, which \<^verbatim>\<open>open\<close> truncates.\<close>

definition write_main :: "bool \<Rightarrow> string \<Rightarrow> write_answer list \<Rightarrow> string \<Rightarrow> (int \<times> string) option" where
  "write_main open_ok song answers old =
     (if \<not> open_ok then Some (1, old) else map_option (\<lambda>(file, rest). (0, file)) (write_loop song answers []))"

lemma write_loop_split: "write_loop s as f = Some (g, r) \<Longrightarrow> g @ r = f @ s"
  by (induction s as f rule: write_loop.induct) (auto split: write_answer.splits if_splits simp flip: drop_Suc_Cons take_Suc_Cons)

lemma write_loop_rest:
  "write_loop s as f = Some (g, r) \<Longrightarrow> r \<noteq> [] \<Longrightarrow> W_error \<in> set as \<or> W_bytes 0 \<in> set as"
  by (induction s as f rule: write_loop.induct) (auto split: write_answer.splits if_splits)

definition productive :: "write_answer \<Rightarrow> bool" where
  "productive a \<longleftrightarrow> (\<exists>n. a = W_bytes n \<and> 0 < n)"

lemma write_loop_progress:
  assumes "\<forall>a \<in> set as. productive a \<or> a = W_eintr" "length s \<le> length (filter productive as)"
  shows "\<exists>g. write_loop s as f = Some (g, [])"
  using assms
proof (induction s as f rule: write_loop.induct)
  case (3 c cs a as f)
  show ?case
  proof (cases a)
    case (W_bytes n)
    then have n: "0 < n" using 3(3) by (auto simp: productive_def)
    then have "\<exists>g. write_loop (drop n (c # cs)) as (f @ take n (c # cs)) = Some (g, [])"
      using 3 W_bytes by (intro 3(1) [OF W_bytes]) (auto simp: productive_def)
    then show ?thesis using n W_bytes by simp
  next
    case W_eintr
    then show ?thesis using 3 by (auto simp: productive_def)
  qed (use 3 in \<open>auto simp: productive_def\<close>)
qed auto

text \<open>
  C27. The write loop loses and repeats nothing, whatever the kernel answers: when it ends, the file followed by the
  unwritten rest is the text, and a rest is only left after an error or a write of 0 bytes. When every call
  writes something or is interrupted, the loop ends after at most as many writes as there are bytes and the
  file is the text.
\<close>

theorem write_loop_complete:
  "(write_main True song answers old = Some (e, file) \<longrightarrow>
      e = 0 \<and> (\<exists>rest. file @ rest = song \<and> (rest = [] \<or> W_error \<in> set answers \<or> W_bytes 0 \<in> set answers))) \<and>
   ((\<forall>a \<in> set answers. productive a \<or> a = W_eintr) \<and> length song \<le> length (filter productive answers) \<longrightarrow>
      write_main True song answers old = Some (0, song))"
proof (rule conjI; rule impI)
  assume "write_main True song answers old = Some (e, file)"
  then obtain r where r: "write_loop song answers [] = Some (file, r)" "e = 0" by (auto simp: write_main_def)
  have "file @ r = song" using write_loop_split [OF r(1)] by simp
  then show "e = 0 \<and> (\<exists>rest. file @ rest = song \<and> (rest = [] \<or> W_error \<in> set answers \<or> W_bytes 0 \<in> set answers))"
    using r(2) write_loop_rest [OF r(1)] by blast
next
  assume a: "(\<forall>a \<in> set answers. productive a \<or> a = W_eintr) \<and> length song \<le> length (filter productive answers)"
  then obtain g where g: "write_loop song answers [] = Some (g, [])" using write_loop_progress by blast
  then show "write_main True song answers old = Some (0, song)"
    using write_loop_split [OF g] by (simp add: write_main_def)
qed

theorem write_loop_complete_witness:
  "write_main True ''dogs'' [W_bytes 1, W_eintr, W_bytes 2, W_bytes 5, W_bytes 1] ''old'' = Some (0, ''dogs'')"
  using write_loop_complete [of "''dogs''" "[W_bytes 1, W_eintr, W_bytes 2, W_bytes 5, W_bytes 1]" "''old''"]
  by (simp add: productive_def)

section \<open>Copying\<close>

definition NUM_ITERATIONS :: nat where "NUM_ITERATIONS = 1000"

definition chunk_size :: "nat \<Rightarrow> nat" where
  "chunk_size block_size = (3 * block_size) div 4"

text \<open>\<^verbatim>\<open>time_diff_in_ns\<close>, computed in \<^verbatim>\<open>uint64_t\<close>.\<close>

definition time_diff_in_ns :: "u64 \<times> u64 \<Rightarrow> u64 \<times> u64 \<Rightarrow> u64" where
  "time_diff_in_ns start stop =
     (let start_ns = fst start * 1000000000 + snd start; end_ns = fst stop * 1000000000 + snd stop
      in end_ns - start_ns)"

text \<open>The answers of the \<open>k\<close>-th read and write: an error, or at most so many bytes.\<close>

record copy_io =
  rd :: "nat \<Rightarrow> nat option"
  wr :: "nat \<Rightarrow> nat option"

text \<open>One pass over the input: whether it ended without a write error, the next call number, and the output.\<close>

function copy_pass :: "copy_io \<Rightarrow> nat \<Rightarrow> nat \<Rightarrow> string \<Rightarrow> string \<Rightarrow> bool \<times> nat \<times> string" where
  "copy_pass io chunk k rest out =
     (case rd io k of
        None \<Rightarrow> (True, k + 1, out)
      | Some n \<Rightarrow>
          (let d = take (min n chunk) rest
           in if d = [] then (True, k + 1, out)
              else (case wr io k of
                      None \<Rightarrow> (False, k + 1, out)
                    | Some w \<Rightarrow> copy_pass io chunk (k + 1) (drop (length d) rest) (out @ take w d))))"
  by auto
termination
  by (relation "measure (\<lambda>(io, chunk, k, rest, out). length rest)") auto

declare copy_pass.simps [simp del]

primrec copy_iterations :: "nat \<Rightarrow> copy_io \<Rightarrow> nat \<Rightarrow> nat \<Rightarrow> string \<Rightarrow> string \<Rightarrow> bool \<times> string" where
  "copy_iterations 0 io chunk k data out = (True, out)"
| "copy_iterations (Suc i) io chunk k data out =
     (case copy_pass io chunk k data out of
        (ok, k', out') \<Rightarrow> if ok then copy_iterations i io chunk k' data out' else (False, out'))"

record copy_env =
  stat_ok :: bool
  st_blksize :: nat
  fin_ok :: bool
  fout_ok :: bool
  buffer_ok :: bool
  fd_in_ok :: bool
  fd_out_ok :: bool
  stream_io :: copy_io
  fd_io :: copy_io

record copy_result =
  exit_code :: int
  out_bfd :: string
  out_ubfd :: string
  buffer_live :: bool

text \<open>
  \<^verbatim>\<open>fwrite\<close> returns a count, so the first loop never sees a negative result: a failed write counts as 0 bytes.
\<close>

definition fwrite_io :: "copy_io \<Rightarrow> copy_io" where
  "fwrite_io io = io\<lparr>wr := \<lambda>k. Some (case wr io k of None \<Rightarrow> 0 | Some w \<Rightarrow> w)\<rparr>"

definition streams_main :: "copy_env \<Rightarrow> string \<Rightarrow> copy_result" where
  "streams_main env data =
     (let fail = (\<lambda>b u live. \<lparr>exit_code = 1, out_bfd = b, out_ubfd = u, buffer_live = live\<rparr>);
          chunk = chunk_size (st_blksize env)
      in if \<not> stat_ok env then fail [] [] False
         else if \<not> fin_ok env then fail [] [] False
         else if \<not> fout_ok env then fail [] [] False
         else if \<not> buffer_ok env then fail [] [] False
         else
           (case copy_iterations NUM_ITERATIONS (fwrite_io (stream_io env)) chunk 0 data [] of
              (ok1, b) \<Rightarrow>
                if \<not> ok1 then fail b [] False
                else if \<not> fd_in_ok env then fail b [] True
                else if \<not> fd_out_ok env then fail b [] True
                else
                  (case copy_iterations NUM_ITERATIONS (fd_io env) chunk 0 data [] of
                     (ok2, u) \<Rightarrow>
                       if \<not> ok2 then fail b u False
                       else \<lparr>exit_code = 0, out_bfd = b, out_ubfd = u, buffer_live = False\<rparr>)))"

text \<open>Reads that make progress until the end of the file, and writes that take what they are given.\<close>

definition complete_io :: "copy_io \<Rightarrow> nat \<Rightarrow> bool" where
  "complete_io io chunk \<longleftrightarrow> (\<forall>k. \<exists>n w. rd io k = Some n \<and> 0 < n \<and> wr io k = Some w \<and> min n chunk \<le> w)"

lemma copy_pass_step:
  assumes "rd io k = Some n" "take (min n chunk) rest \<noteq> []" "wr io k = Some w"
  shows "copy_pass io chunk k rest out =
    copy_pass io chunk (k + 1) (drop (length (take (min n chunk) rest)) rest) (out @ take w (take (min n chunk) rest))"
  using assms(2) by (subst copy_pass.simps) (simp only: assms(1,3) option.case Let_def if_False)

lemma copy_pass_complete:
  assumes "complete_io io chunk" "0 < chunk"
  shows "\<exists>k'. copy_pass io chunk k rest out = (True, k', out @ rest)"
  using assms
proof (induction io chunk k rest out rule: copy_pass.induct)
  case (1 io chunk k rest out)
  obtain n w where nw: "rd io k = Some n" "0 < n" "wr io k = Some w" "min n chunk \<le> w"
    using 1(2) unfolding complete_io_def by blast
  let ?d = "take (min n chunk) rest"
  show ?case
  proof (cases "rest = []")
    case True
    then show ?thesis using nw by (simp add: copy_pass.simps [of io chunk k])
  next
    case False
    then have d: "?d \<noteq> []" "take w ?d = ?d" using nw 1(3) by simp_all
    have "copy_pass io chunk k rest out = copy_pass io chunk (k + 1) (drop (length ?d) rest) (out @ ?d)"
      using copy_pass_step [OF nw(1) d(1) nw(3)] d(2) by simp
    moreover have "\<exists>k'. copy_pass io chunk (k + 1) (drop (length ?d) rest) (out @ take w ?d) = (True, k', (out @ take w ?d) @ drop (length ?d) rest)"
      using 1(1) [OF nw(1) refl d(1) nw(3) 1(2,3)] .
    ultimately show ?thesis using d(2) by (simp add: min_def split: if_splits)
  qed
qed

lemma copy_iterations_complete:
  "complete_io io chunk \<Longrightarrow> 0 < chunk \<Longrightarrow> copy_iterations i io chunk k data out = (True, out @ concat (replicate i data))"
proof (induction i arbitrary: k out)
  case (Suc i)
  obtain k' where "copy_pass io chunk k data out = (True, k', out @ data)"
    using copy_pass_complete [OF Suc.prems] by blast
  with Suc show ?case by simp
qed simp

text \<open>Whatever the calls answer, no byte is invented: the output of a pass is a sequence of pieces of the input.\<close>

lemma copy_pass_out:
  "copy_pass io chunk k rest out = (ok, k', out') \<Longrightarrow> \<exists>added. out' = out @ added \<and> length added \<le> length rest"
proof (induction io chunk k rest out rule: copy_pass.induct)
  case (1 io chunk k rest out)
  show ?case
  proof (cases "\<exists>n w. rd io k = Some n \<and> take (min n chunk) rest \<noteq> [] \<and> wr io k = Some w")
    case False
    then have "out' = out" using 1(2) by (subst (asm) copy_pass.simps) (auto simp: Let_def split: option.splits if_splits)
    then show ?thesis by simp
  next
    case True
    then obtain n w where nw: "rd io k = Some n" "take (min n chunk) rest \<noteq> []" "wr io k = Some w" by blast
    let ?d = "take (min n chunk) rest"
    have "copy_pass io chunk k rest out = copy_pass io chunk (k + 1) (drop (length ?d) rest) (out @ take w ?d)"
      by (rule copy_pass_step [OF nw])
    then have "copy_pass io chunk (k + 1) (drop (length ?d) rest) (out @ take w ?d) = (ok, k', out')" using 1(2) by simp
    then obtain a where a: "out' = (out @ take w ?d) @ a" "length a \<le> length (drop (length ?d) rest)"
      using 1(1) [OF nw(1) refl nw(2,3)] by blast
    then show ?thesis by (intro exI [of _ "take w ?d @ a"]) auto
  qed
qed

lemma fwrite_io_complete: "complete_io io chunk \<Longrightarrow> complete_io (fwrite_io io) chunk"
  unfolding complete_io_def fwrite_io_def by (metis (no_types, lifting) copy_io.select_convs copy_io.surjective copy_io.update_convs(2) option.simps(5))

lemma fwrite_never_fails: "fst (copy_iterations i (fwrite_io io) chunk k data out)"
proof -
  have p: "fst (copy_pass (fwrite_io io) chunk k rest out)" for k rest out
  proof (induction "fwrite_io io" chunk k rest out rule: copy_pass.induct)
    case (1 chunk k rest out)
    then show ?case by (subst copy_pass.simps) (auto simp: fwrite_io_def Let_def split: option.splits)
  qed
  show ?thesis
  proof (induction i arbitrary: k out)
    case (Suc i)
    then show ?case using p [of k data out] by (auto split: prod.splits)
  qed simp
qed

lemma copy_iterations_ok:
  assumes "\<And>k. wr io k \<noteq> None"
  shows "fst (copy_iterations i io chunk k data out)"
proof -
  have "fwrite_io io = io"
    using assms by (cases io) (auto simp: fwrite_io_def fun_eq_iff split: option.splits)
  then show ?thesis using fwrite_never_fails [of i io chunk k data out] by simp
qed

definition opens_ok :: "copy_env \<Rightarrow> bool" where
  "opens_ok env \<longleftrightarrow> stat_ok env \<and> fin_ok env \<and> fout_ok env \<and> buffer_ok env \<and> fd_in_ok env \<and> fd_out_ok env"

text \<open>
  C28. When every file opens, reads make progress and writes are complete, the buffered and the unbuffered copy
  produce the same file, the input 1000 times over, for every block size of at least 2. Short writes are not
  noticed: the program returns 0 whenever the second loop sees no negative result, whatever was written.
\<close>

theorem streams_copies_agree:
  assumes "opens_ok env"
  shows "(complete_io (stream_io env) (chunk_size (st_blksize env)) \<and> complete_io (fd_io env) (chunk_size (st_blksize env)) \<and>
      2 \<le> st_blksize env \<longrightarrow>
      streams_main env data = \<lparr>exit_code = 0, out_bfd = concat (replicate NUM_ITERATIONS data),
        out_ubfd = concat (replicate NUM_ITERATIONS data), buffer_live = False\<rparr>) \<and>
    ((\<forall>k. wr (fd_io env) k \<noteq> None) \<longrightarrow> exit_code (streams_main env data) = 0)"
proof (rule conjI; rule impI)
  let ?c = "chunk_size (st_blksize env)"
  assume a: "complete_io (stream_io env) ?c \<and> complete_io (fd_io env) ?c \<and> 2 \<le> st_blksize env"
  then have "4 \<le> 3 * st_blksize env" by simp
  then have c: "0 < ?c" using div_le_mono [of 4 "3 * st_blksize env" 4] by (simp add: chunk_size_def)
  then show "streams_main env data = \<lparr>exit_code = 0, out_bfd = concat (replicate NUM_ITERATIONS data),
      out_ubfd = concat (replicate NUM_ITERATIONS data), buffer_live = False\<rparr>"
    using a assms copy_iterations_complete [OF _ c] fwrite_io_complete
    by (simp add: streams_main_def opens_ok_def)
next
  assume "\<forall>k. wr (fd_io env) k \<noteq> None"
  then have "fst (copy_iterations NUM_ITERATIONS (fd_io env) (chunk_size (st_blksize env)) 0 data [])"
    by (intro copy_iterations_ok) simp
  moreover have "fst (copy_iterations NUM_ITERATIONS (fwrite_io (stream_io env)) (chunk_size (st_blksize env)) 0 data [])"
    by (rule fwrite_never_fails)
  ultimately show "exit_code (streams_main env data) = 0"
    using assms by (auto simp: streams_main_def opens_ok_def Let_def split: prod.split)
qed

theorem streams_copies_agree_witness:
  "out_ubfd (streams_main \<lparr>stat_ok = True, st_blksize = 4096, fin_ok = True, fout_ok = True, buffer_ok = True, fd_in_ok = True,
     fd_out_ok = True, stream_io = \<lparr>rd = \<lambda>_. Some 100, wr = \<lambda>_. Some 4096\<rparr>, fd_io = \<lparr>rd = \<lambda>_. Some 4096, wr = \<lambda>_. Some 4096\<rparr>\<rparr> ''air'')
   = concat (replicate NUM_ITERATIONS ''air'')"
  using streams_copies_agree [of "\<lparr>stat_ok = True, st_blksize = 4096, fin_ok = True, fout_ok = True, buffer_ok = True, fd_in_ok = True,
     fd_out_ok = True, stream_io = \<lparr>rd = \<lambda>_. Some 100, wr = \<lambda>_. Some 4096\<rparr>, fd_io = \<lparr>rd = \<lambda>_. Some 4096, wr = \<lambda>_. Some 4096\<rparr>\<rparr>" "''air''"]
  by (simp add: opens_ok_def complete_io_def chunk_size_def)

lemma time_diff_exact:
  assumes "uint s1 * 1000000000 + uint n1 \<le> uint s2 * 1000000000 + uint n2" "uint s2 * 1000000000 + uint n2 < 2 ^ 64"
  shows "uint (time_diff_in_ns (s1, n1) (s2, n2)) = (uint s2 * 1000000000 + uint n2) - (uint s1 * 1000000000 + uint n1)"
proof -
  have "uint (s * 1000000000 + n) = uint s * 1000000000 + uint n" if "uint s * 1000000000 + uint n < 2 ^ 64" for s n :: u64
  proof -
    have nn: "0 \<le> uint s * 1000000000" "0 \<le> uint n" by simp_all
    then have "uint s * 1000000000 < 2 ^ 64" using that by linarith
    then have "uint s * 1000000000 mod 2 ^ 64 = uint s * 1000000000" using nn(1) by (rule mod_pos_pos_trivial [rotated])
    then have "uint (s * 1000000000) = uint s * 1000000000" by (simp add: uint_word_ariths)
    moreover have "(uint s * 1000000000 + uint n) mod 2 ^ 64 = uint s * 1000000000 + uint n"
      using that nn by (intro mod_pos_pos_trivial) auto
    ultimately show ?thesis by (simp add: uint_word_ariths(1))
  qed
  then have "uint (s1 * 1000000000 + n1) = uint s1 * 1000000000 + uint n1" "uint (s2 * 1000000000 + n2) = uint s2 * 1000000000 + uint n2"
    using assms by auto
  moreover have "0 \<le> uint s1 * 1000000000 + uint n1" by simp
  then have "(uint s2 * 1000000000 + uint n2 - (uint s1 * 1000000000 + uint n1)) mod 2 ^ 64 =
      uint s2 * 1000000000 + uint n2 - (uint s1 * 1000000000 + uint n1)"
    using assms by (intro mod_pos_pos_trivial) linarith+
  ultimately show ?thesis by (simp add: time_diff_in_ns_def uint_word_ariths(2))
qed

section \<open>Scatter and gather\<close>

datatype overrun = Overrun

text \<open>\<^verbatim>\<open>strip_newline\<close> on a character array: it stops at the first NUL or newline and else runs out of the array.\<close>

fun strip_newline :: "char list \<Rightarrow> overrun + char list" where
  "strip_newline [] = Inl Overrun"
| "strip_newline (c # cs) =
     (if c = NUL then Inr (c # cs)
      else if c = CHR 0x0A then Inr (NUL # cs)
      else map_sum id (Cons c) (strip_newline cs))"

definition gather :: "string list \<Rightarrow> string" where
  "gather iov = concat iov"

text \<open>\<^verbatim>\<open>readv\<close> fills the buffers in order; a buffer that is not reached keeps its contents.\<close>

fun scatter :: "char list list \<Rightarrow> string \<Rightarrow> char list list" where
  "scatter [] data = []"
| "scatter (b # bs) data = (take (length b) data @ drop (length data) b) # scatter bs (drop (length b) data)"

definition records_written :: "string list" where
  "records_written = [''HEAD1234'' @ [CHR 0x0A], ''This is the main content.'' @ [CHR 0x0A], ''FOOTER99'' @ [CHR 0x0A]]"

text \<open>The child's file and what the parent makes of it with buffers of 9, 26 and 8 characters.\<close>

definition scatter_child :: "bool \<Rightarrow> bool \<Rightarrow> string \<Rightarrow> int \<times> string" where
  "scatter_child open_ok writev_ok old =
     (if \<not> open_ok then (1, old) else if \<not> writev_ok then (1, []) else (0, gather records_written))"

definition scatter_parent :: "bool \<Rightarrow> bool \<Rightarrow> char list list \<Rightarrow> string \<Rightarrow> int + (overrun + char list) list" where
  "scatter_parent open_ok readv_ok buffers file =
     (if \<not> open_ok then Inl 1 else if \<not> readv_ok then Inl 1 else Inr (map strip_newline (scatter buffers file)))"

lemma strip_newline_Inl: "strip_newline xs = Inl e \<longleftrightarrow> NUL \<notin> set xs \<and> CHR 0x0A \<notin> set xs"
proof (induction xs)
  case (Cons c xs)
  then show ?case by (cases "strip_newline xs") auto
qed (cases e; simp)

lemma strip_newline_Inr: "strip_newline xs = Inr ys \<Longrightarrow> cstr ys = takeWhile (\<lambda>c. c \<noteq> NUL \<and> c \<noteq> CHR 0x0A) xs \<and> length ys = length xs"
proof (induction xs arbitrary: ys)
  case (Cons c xs)
  then show ?case by (cases "strip_newline xs") (auto simp: cstr_def split: if_splits)
qed simp

lemma scatter_gather:
  "map length bs = map length xs \<Longrightarrow> scatter bs (gather xs) = xs"
  by (induction bs xs rule: list_induct2') (auto simp: gather_def)

text \<open>
  \<^verbatim>\<open>strip_newline\<close> leaves the array exactly when it holds neither a newline nor a NUL, and else cuts the string at
  the newline. The header and the body of the file fit their arrays and come back without their newline; the
  array of the footer has 8 characters for 9, so its last one is cut off and \<^verbatim>\<open>strip_newline\<close> runs past
  the array, whatever the buffers held.
\<close>

lemma scatter_footer_overruns:
  assumes "map length buffers = [9, 26, 8]"
  shows "scatter_child True True old = (0, gather records_written) \<and>
    (\<exists>h b. scatter_parent True True buffers (gather records_written) = Inr [Inr h, Inr b, Inl Overrun] \<and>
       cstr h = ''HEAD1234'' \<and> cstr b = ''This is the main content.'') \<and>
    (strip_newline xs = Inl Overrun \<longleftrightarrow> NUL \<notin> set xs \<and> CHR 0x0A \<notin> set xs)"
proof -
  obtain h b f where b: "buffers = [h, b, f]" "length h = 9" "length b = 26" "length f = 8"
    using assms by (auto simp: map_eq_Cons_conv)
  let ?s = "scatter buffers (gather records_written)"
  have s: "?s = [''HEAD1234'' @ [CHR 0x0A], ''This is the main content.'' @ [CHR 0x0A], ''FOOTER99'']"
    using b(2-4) by (simp add: b(1) gather_def records_written_def)
  have "strip_newline (''HEAD1234'' @ [CHR 0x0A]) = Inr (''HEAD1234'' @ [NUL])"
    "strip_newline (''This is the main content.'' @ [CHR 0x0A]) = Inr (''This is the main content.'' @ [NUL])"
    "strip_newline ''FOOTER99'' = Inl Overrun" by simp_all
  then have "scatter_parent True True buffers (gather records_written) =
      Inr [Inr (''HEAD1234'' @ [NUL]), Inr (''This is the main content.'' @ [NUL]), Inl Overrun]"
    by (simp add: scatter_parent_def s)
  then show ?thesis by (simp add: scatter_child_def strip_newline_Inl) (simp add: cstr_def)
qed

end
