(* ===== verification/FifoChat.thy ===== *)
theory FifoChat
  imports CString Transition
begin

text \<open>
  \<^verbatim>\<open>lesson_3/code_examples/02_read/read.c\<close>: a child sends the lines of its input through a FIFO, the parent reads and
  prints them until it reads \<^verbatim>\<open>stop\<close>. The FIFO is a byte stream of bounded capacity; a blocking call that
  cannot proceed has no step. The buffer of the parent is uninitialised in every round, so when nothing was
  read its contents are arbitrary (\<open>junk\<close>). Both modes of the program are modelled; the source selects blocking.
\<close>

definition MAX_MSG_SIZE :: nat where "MAX_MSG_SIZE = 256"
definition MSG_STOP :: string where "MSG_STOP = ''stop''"
definition BLOCKING_MODE :: string where "BLOCKING_MODE = ''block''"

datatype stat_answer = Stat_missing | Stat_fifo | Stat_other

definition make_fifo :: "stat_answer \<Rightarrow> bool \<Rightarrow> int" where
  "make_fifo st mkfifo_ok =
     (case st of Stat_missing \<Rightarrow> if mkfifo_ok then 0 else 1 | Stat_fifo \<Rightarrow> 0 | Stat_other \<Rightarrow> 1)"

datatype child_pc = COpen | CWait | CRun | CDone int | CKilled
datatype parent_pc = POpen | PRun | PWait | PEnd

record chat =
  pipe :: string
  writer :: bool
  lines :: "string list"
  child :: child_pc
  parent :: parent_pc
  sent :: "string list"
  shown :: "string list"

text \<open>
  The child: \<^verbatim>\<open>fgets\<close> gives the next line (at most 255 characters) or the end of input. A write of such a size
  is atomic: it waits for room, or in the other mode writes nothing; without a reader it is fatal.
\<close>

definition child_step :: "bool \<Rightarrow> nat \<Rightarrow> chat \<Rightarrow> chat option" where
  "child_step nonblock cap s =
     (case child s of
        COpen \<Rightarrow>
          (if \<not> nonblock then Some (s\<lparr>writer := True, child := CWait\<rparr>)
           else if parent s = POpen then Some (s\<lparr>child := CDone 1\<rparr>)
           else Some (s\<lparr>writer := True, child := CRun\<rparr>))
      | CWait \<Rightarrow> (if parent s = POpen then None else Some (s\<lparr>child := CRun\<rparr>))
      | CRun \<Rightarrow>
          (case lines s of
             [] \<Rightarrow> Some (s\<lparr>child := CDone 1, writer := False\<rparr>)
           | line # ls \<Rightarrow>
               (let buffer = chop_newline (take (MAX_MSG_SIZE - 1) line);
                    fits = length (pipe s) + length buffer \<le> cap;
                    s1 = (if fits then s\<lparr>lines := ls, pipe := pipe s @ buffer, sent := sent s @ [buffer]\<rparr> else s\<lparr>lines := ls\<rparr>)
                in if buffer \<noteq> [] \<and> parent s \<notin> {POpen, PRun} then Some (s\<lparr>child := CKilled, writer := False\<rparr>)
                   else if \<not> fits \<and> \<not> nonblock then None
                   else if buffer = MSG_STOP then Some (s1\<lparr>child := CDone 0, writer := False\<rparr>)
                   else Some s1))
      | _ \<Rightarrow> None)"

definition parent_step :: "bool \<Rightarrow> string \<Rightarrow> chat \<Rightarrow> chat option" where
  "parent_step nonblock junk s =
     (case parent s of
        POpen \<Rightarrow> (if nonblock \<or> writer s then Some (s\<lparr>parent := PRun\<rparr>) else None)
      | PRun \<Rightarrow>
          (let d = take (MAX_MSG_SIZE - 1) (pipe s); buffer = cstr d
           in if d \<noteq> [] then
                Some (s\<lparr>pipe := drop (length d) (pipe s), shown := shown s @ [buffer],
                        parent := (if buffer = MSG_STOP then PWait else PRun)\<rparr>)
              else if writer s \<and> \<not> nonblock then None
              else Some (s\<lparr>parent := (if cstr junk = MSG_STOP then PWait else PRun)\<rparr>))
      | PWait \<Rightarrow> (case child s of CDone e \<Rightarrow> Some (s\<lparr>parent := PEnd\<rparr>) | CKilled \<Rightarrow> Some (s\<lparr>parent := PEnd\<rparr>) | _ \<Rightarrow> None)
      | PEnd \<Rightarrow> None)"

definition chat_start :: "string list \<Rightarrow> chat" where
  "chat_start ls = \<lparr>pipe = [], writer = False, lines = ls, child = COpen, parent = POpen, sent = [], shown = []\<rparr>"

text \<open>\<^verbatim>\<open>main\<close>: an exit code if the processes do not start, or their common start and the mode.\<close>

definition chat_main :: "stat_answer \<Rightarrow> bool \<Rightarrow> bool \<Rightarrow> string list \<Rightarrow> int + (bool \<times> chat)" where
  "chat_main st mkfifo_ok fork_ok ls =
     (if 0 < make_fifo st mkfifo_ok then Inl 1
      else if \<not> fork_ok then Inl 1 else Inr (BLOCKING_MODE = ''nonblock'', chat_start ls))"

definition chat_step :: "bool \<Rightarrow> nat \<Rightarrow> string \<Rightarrow> chat \<Rightarrow> chat \<Rightarrow> bool" where
  "chat_step nonblock cap junk s u \<longleftrightarrow> child_step nonblock cap s = Some u \<or> parent_step nonblock junk s = Some u"

section \<open>The stream\<close>

definition no_nul :: "string list \<Rightarrow> bool" where
  "no_nul ls \<longleftrightarrow> (\<forall>l \<in> set ls. NUL \<notin> set l)"

definition chat_inv :: "nat \<Rightarrow> chat \<Rightarrow> bool" where [wf_simps]:
  "chat_inv cap s \<longleftrightarrow> concat (shown s) @ pipe s = concat (sent s) \<and> length (pipe s) \<le> cap \<and> no_nul (lines s) \<and> NUL \<notin> set (pipe s) \<and>
     (\<forall>b \<in> set (sent s). length b < MAX_MSG_SIZE)"

lemma cstr_id: "NUL \<notin> set d \<Longrightarrow> cstr d = d"
  using cstr_prefix [of d "[]"] by (simp add: cstr_def)

lemma buffer_facts:
  assumes "NUL \<notin> set line"
  shows "NUL \<notin> set (chop_newline (take 255 line))" "length (chop_newline (take 255 line)) < 256"
proof -
  have "set (chop_newline (take 255 line)) \<subseteq> set line"
    by (auto simp: chop_newline_def dest!: set_takeWhileD dest: in_set_takeD)
  then show "NUL \<notin> set (chop_newline (take 255 line))" using assms by blast
  have "length (chop_newline (take 255 line)) \<le> length (take 255 line)" unfolding chop_newline_def by (rule length_takeWhile_le)
  then show "length (chop_newline (take 255 line)) < 256" by simp
qed

lemma child_inv:
  assumes "chat_inv cap s" "child_step nonblock cap s = Some u"
  shows "chat_inv cap u"
proof (cases "child s = CRun \<and> lines s \<noteq> []")
  case True
  then obtain line ls where l: "child s = CRun" "lines s = line # ls" by (meson neq_Nil_conv)
  let ?b = "chop_newline (take 255 line)"
  have b: "NUL \<notin> set ?b" "length ?b < 256" "no_nul ls" using assms(1) l(2) buffer_facts [of line] by (auto simp: chat_inv_def no_nul_def)
  show ?thesis
  proof (cases "?b \<noteq> [] \<and> parent s \<notin> {POpen, PRun}")
    case True
    then have "u = s\<lparr>child := CKilled, writer := False\<rparr>" using l assms(2) by (simp add: child_step_def MAX_MSG_SIZE_def)
    then show ?thesis using assms(1) by (simp add: chat_inv_def)
  next
    case False
    show ?thesis
    proof (cases "length (pipe s) + length ?b \<le> cap")
      case fits: True
      then have "u = s\<lparr>lines := ls, pipe := pipe s @ ?b, sent := sent s @ [?b]\<rparr> \<or>
        u = s\<lparr>lines := ls, pipe := pipe s @ ?b, sent := sent s @ [?b], child := CDone 0, writer := False\<rparr>"
        using l assms(2) False by (simp add: child_step_def MAX_MSG_SIZE_def Let_def split: if_splits)
      then show ?thesis using assms(1) b fits by (elim disjE) (simp_all add: chat_inv_def MAX_MSG_SIZE_def flip: append_assoc)
    next
      case full: False
      then have "u = s\<lparr>lines := ls\<rparr> \<or> u = s\<lparr>lines := ls, child := CDone 0, writer := False\<rparr>"
        using l assms(2) False by (simp add: child_step_def MAX_MSG_SIZE_def Let_def split: if_splits)
      then show ?thesis using assms(1) b(3) by (auto simp: chat_inv_def)
    qed
  qed
qed (use assms in \<open>auto simp: child_step_def chat_inv_def split: child_pc.splits if_splits list.splits\<close>)

lemma parent_inv:
  assumes "chat_inv cap s" "parent_step nonblock junk s = Some u"
  shows "chat_inv cap u"
proof (cases "parent s = PRun \<and> pipe s \<noteq> []")
  case True
  let ?d = "take 255 (pipe s)"
  have "NUL \<notin> set ?d" using assms(1) in_set_takeD by (fastforce simp: chat_inv_def)
  then have "u = s\<lparr>pipe := drop (length ?d) (pipe s), shown := shown s @ [?d], parent := (if ?d = MSG_STOP then PWait else PRun)\<rparr>"
    using True assms(2) by (simp add: parent_step_def MAX_MSG_SIZE_def cstr_id Let_def)
  moreover have "NUL \<notin> set (drop (length ?d) (pipe s))" using assms(1) in_set_dropD by (fastforce simp: chat_inv_def)
  moreover have "?d @ drop (length ?d) (pipe s) = pipe s" by (simp add: min_def)
  moreover have "length (drop (length ?d) (pipe s)) \<le> length (pipe s)" by simp
  ultimately show ?thesis using assms(1) unfolding chat_inv_def by (simp del: length_drop length_take)
next
  case False
  then show ?thesis using assms
    by (auto simp: parent_step_def chat_inv_def MAX_MSG_SIZE_def Let_def split: parent_pc.splits child_pc.splits if_splits)
qed

interpretation ch: invariant_system "\<lambda>s. \<exists>ls. s = chat_start ls \<and> no_nul ls" "chat_step nonblock cap junk" "chat_inv cap" for nonblock cap junk
proof
  show "chat_inv cap s" if "\<exists>ls. s = chat_start ls \<and> no_nul ls" for s
    using that by (auto simp: chat_inv_def chat_start_def)
qed (auto simp: chat_step_def intro: child_inv parent_inv)

section \<open>The end of the conversation\<close>

text \<open>Once the child has left and the stream is empty, only an accident ends the parent's loop.\<close>

lemma parent_never_ends:
  assumes "(chat_step False cap junk)\<^sup>*\<^sup>* s u" "cstr junk \<noteq> MSG_STOP" "child s = CDone e" "pipe s = []" "parent s = PRun" "\<not> writer s"
  shows "u = s"
  using assms
proof (induction rule: rtranclp_induct)
  case (step u v)
  then show ?case by (auto simp: chat_step_def child_step_def parent_step_def MAX_MSG_SIZE_def Let_def)
qed simp

definition hi_stop :: "string list" where "hi_stop = [''hi'' @ [CHR 0x0A], ''stop'' @ [CHR 0x0A]]"

lemma hi_stop_buffers: "chop_newline (take 255 (''hi'' @ [CHR 0x0A])) = ''hi''" "chop_newline (take 255 (''stop'' @ [CHR 0x0A])) = ''stop''"
  by (simp_all add: chop_newline_def)

text \<open>A run in which the parent reads both messages at once.\<close>

lemma coalesced_run:
  assumes "6 \<le> cap"
  shows "(chat_step False cap junk)\<^sup>*\<^sup>* (chat_start hi_stop)
    \<lparr>pipe = [], writer = False, lines = [], child = CDone 0, parent = PRun, sent = [''hi'', ''stop''], shown = [''histop'']\<rparr>"
proof -
  let ?S = "\<lambda>p w ls c q st sh. \<lparr>pipe = p, writer = w, lines = ls, child = c, parent = q, sent = st, shown = sh\<rparr>"
  have c: "chat_step False cap junk s u" if "child_step False cap s = Some u" for s u using that by (simp add: chat_step_def)
  have p: "chat_step False cap junk s u" if "parent_step False junk s = Some u" for s u using that by (simp add: chat_step_def)
  have "chat_step False cap junk (chat_start hi_stop) (?S [] True hi_stop CWait POpen [] [])"
    by (rule c) (simp add: child_step_def chat_start_def)
  moreover have "chat_step False cap junk (?S [] True hi_stop CWait POpen [] []) (?S [] True hi_stop CWait PRun [] [])"
    by (rule p) (simp add: parent_step_def)
  moreover have "chat_step False cap junk (?S [] True hi_stop CWait PRun [] []) (?S [] True hi_stop CRun PRun [] [])"
    by (rule c) (simp add: child_step_def)
  moreover have "chat_step False cap junk (?S [] True hi_stop CRun PRun [] []) (?S ''hi'' True [''stop'' @ [CHR 0x0A]] CRun PRun [''hi''] [])"
    by (rule c) (use assms in \<open>simp add: child_step_def hi_stop_def MAX_MSG_SIZE_def hi_stop_buffers MSG_STOP_def chop_newline_def Let_def\<close>)
  moreover have "chat_step False cap junk (?S ''hi'' True [''stop'' @ [CHR 0x0A]] CRun PRun [''hi''] [])
      (?S ''histop'' False [] (CDone 0) PRun [''hi'', ''stop''] [])"
    by (rule c) (use assms in \<open>simp add: child_step_def MAX_MSG_SIZE_def hi_stop_buffers MSG_STOP_def chop_newline_def Let_def\<close>)
  moreover have "chat_step False cap junk (?S ''histop'' False [] (CDone 0) PRun [''hi'', ''stop''] [])
      (?S [] False [] (CDone 0) PRun [''hi'', ''stop''] [''histop''])"
    by (rule p) (simp add: parent_step_def MAX_MSG_SIZE_def MSG_STOP_def cstr_def Let_def)
  ultimately show ?thesis by (meson converse_rtranclp_into_rtranclp rtranclp.rtrancl_refl)
qed

text \<open>
  C29. The FIFO delivers the bytes the child sent, in order and without loss, but not its messages: in every reachable
  state the strings the parent printed followed by the bytes in the FIFO are the messages sent, one after
  the other, and the FIFO never exceeds its capacity. A run exists in which \<^verbatim>\<open>hi\<close> and \<^verbatim>\<open>stop\<close> arrive as one string; the child has ended
  and the parent never leaves its loop.
\<close>

theorem fifo_stream_not_messages:
  assumes "no_nul ls" "(chat_step nonblock cap junk)\<^sup>*\<^sup>* (chat_start ls) s" "6 \<le> cap0" "cstr junk0 \<noteq> MSG_STOP"
  shows "concat (shown s) @ pipe s = concat (sent s) \<and> length (pipe s) \<le> cap \<and>
    (\<exists>u. (chat_step False cap0 junk0)\<^sup>*\<^sup>* (chat_start hi_stop) u \<and> sent u = [''hi'', ''stop''] \<and> shown u = [''histop''] \<and> child u = CDone 0 \<and>
       (\<forall>v. (chat_step False cap0 junk0)\<^sup>*\<^sup>* u v \<longrightarrow> parent v = PRun))"
proof -
  let ?u = "\<lparr>pipe = [], writer = False, lines = [], child = CDone 0, parent = PRun, sent = [''hi'', ''stop''], shown = [''histop'']\<rparr>"
  have "chat_inv cap s" using assms(1,2) ch.reachable_inv by blast
  moreover have "parent v = PRun" if "(chat_step False cap0 junk0)\<^sup>*\<^sup>* ?u v" for v
    using parent_never_ends [OF that assms(4)] by simp
  then have "\<exists>u. (chat_step False cap0 junk0)\<^sup>*\<^sup>* (chat_start hi_stop) u \<and> sent u = [''hi'', ''stop''] \<and> shown u = [''histop''] \<and>
      child u = CDone 0 \<and> (\<forall>v. (chat_step False cap0 junk0)\<^sup>*\<^sup>* u v \<longrightarrow> parent v = PRun)"
    using coalesced_run [OF assms(3), of junk0] by (intro exI [of _ ?u]) simp
  ultimately show ?thesis by (simp add: chat_inv_def)
qed

theorem fifo_stream_not_messages_witness:
  "\<exists>u. (chat_step False 65536 [])\<^sup>*\<^sup>* (chat_start hi_stop) u \<and> sent u = [''hi'', ''stop''] \<and> shown u = [''histop'']"
  using fifo_stream_not_messages [of "[]" False 65536 "[]" "chat_start []" 65536 "[]"]
  by (auto simp: no_nul_def cstr_def MSG_STOP_def)

end
