(* ===== verification/SysfsGpio.thy ===== *)
theory SysfsGpio
  imports LedSysfs
begin

text \<open>
  The two smaller sysfs programs, \<^verbatim>\<open>lesson_8/code_examples/09_sysfs_gpio/09_sysfs_gpio.c\<close> (a pulse on an output) and
  \<^verbatim>\<open>10_gpio_input.c\<close> (reading an input), on the kernel interface of the LED program. Their \<^verbatim>\<open>write_to_file\<close> is the same function.
\<close>

definition GPIO_OUT_PIN :: string where "GPIO_OUT_PIN = ''60''"
definition GPIO_IN_PIN :: string where "GPIO_IN_PIN = ''48''"

definition write_to_file :: "kernel \<Rightarrow> string \<Rightarrow> string \<Rightarrow> sysfs \<Rightarrow> int \<times> sysfs" where
  "write_to_file k filename val s =
     (case sys_open k filename s of
        (False, s1) \<Rightarrow> (-1, s1)
      | (True, s1) \<Rightarrow>
          (let ret = fst (write_ret k (ncalls s1) filename val);
               s2 = sys_close (snd (sys_write k filename val s1))
           in if ret < 0 then (-1, s2) else (0, s2)))"

text \<open>The read of one character.\<close>

definition read_from_file :: "kernel \<Rightarrow> string \<Rightarrow> sysfs \<Rightarrow> int \<times> sysfs" where
  "read_from_file k filename s =
     (case sys_open k filename s of
        (False, s1) \<Rightarrow> (-1, s1)
      | (True, s1) \<Rightarrow>
          (case sys_read k filename s1 of
             (Some (c # cs), s2) \<Rightarrow> (if c = CHR ''1'' then 1 else 0, sys_close s2)
           | (_, s2) \<Rightarrow> (-1, sys_close s2)))"

definition unexport_path :: string where "unexport_path = ''/sys/class/gpio/unexport''"

definition pin_path :: "string \<Rightarrow> string \<Rightarrow> string" where
  "pin_path pin attr = c_truncate 50 (''/sys/class/gpio/gpio'' @ pin @ ''/'' @ attr)"

definition gpio_out_main :: "kernel \<Rightarrow> sysfs \<Rightarrow> int \<times> sysfs" where
  "gpio_out_main k s =
     (let s1 = snd (write_to_file k export_path GPIO_OUT_PIN s);
          s2 = snd (write_to_file k (pin_path GPIO_OUT_PIN ''direction'') ''out'' s1);
          s3 = snd (write_to_file k (pin_path GPIO_OUT_PIN ''value'') ''1'' s2);
          s4 = snd (write_to_file k (pin_path GPIO_OUT_PIN ''value'') ''0'' s3)
      in (0, snd (write_to_file k unexport_path GPIO_OUT_PIN s4)))"

text \<open>The value \<^verbatim>\<open>main\<close> prints, with its exit code.\<close>

definition gpio_in_main :: "kernel \<Rightarrow> sysfs \<Rightarrow> (int \<times> int) \<times> sysfs" where
  "gpio_in_main k s =
     (let s1 = snd (write_to_file k export_path GPIO_IN_PIN s);
          s2 = snd (write_to_file k (pin_path GPIO_IN_PIN ''direction'') ''in'' s1);
          (v, s3) = read_from_file k (pin_path GPIO_IN_PIN ''value'') s2
      in ((v, 0), snd (write_to_file k unexport_path GPIO_IN_PIN s3)))"

section \<open>Effects\<close>

lemma write_to_file_fds [simp]: "nfds (snd (write_to_file k p d s)) = nfds s"
  by (auto simp: write_to_file_def sys_defs split: prod.splits if_splits)

lemma read_from_file_fds: "nfds (snd (read_from_file k p s)) = nfds s"
  by (auto simp: read_from_file_def sys_defs split: prod.splits if_splits option.splits list.splits)

lemma write_to_file_works:
  assumes "works k v"
  shows "fst (write_to_file k p d s) = 0" "writes (snd (write_to_file k p d s)) = writes s @ [(p, d)]"
proof -
  obtain s1 s2 busy where w: "sys_open k p s = (True, s1)" "sys_write k p d s1 = ((True, busy), s2)" "writes s2 = writes s @ [(p, d)]"
    using open_write_works [OF assms] .
  have "fst (write_ret k (ncalls s1) p d) = int (length d)" using assms by (simp add: works_def)
  then show "fst (write_to_file k p d s) = 0" "writes (snd (write_to_file k p d s)) = writes s @ [(p, d)]"
    using w by (simp_all add: write_to_file_def sys_close_def Let_def)
qed

lemma read_from_file_works:
  assumes "works k (c # cs)"
  shows "fst (read_from_file k p s) = (if c = CHR ''1'' then 1 else 0)" "writes (snd (read_from_file k p s)) = writes s"
  using assms by (simp_all add: read_from_file_def works_def sys_open_def sys_read_def sys_close_def numeral_2_eq_2)

text \<open>The paths fit the buffer of 50 characters.\<close>

lemma pin_path_fits:
  assumes "length pin \<le> 3" "length attr \<le> 9"
  shows "pin_path pin attr = ''/sys/class/gpio/gpio'' @ pin @ ''/'' @ attr"
  using assms by (simp add: pin_path_def c_truncate_def)

text \<open>
  Both programs close every descriptor and return 0 whatever the kernel answers, so failures are not
  reported. With a working kernel the first writes exactly export, direction, high, low and unexport for pin 60; the second
  exports pin 48, makes it an input, prints 1 if the value file starts with \<^verbatim>\<open>1\<close> and else 0, and unexports it.
\<close>

lemma sysfs_programs:
  "nfds (snd (gpio_out_main k s)) = nfds s \<and> fst (gpio_out_main k s) = 0 \<and>
   nfds (snd (gpio_in_main k s)) = nfds s \<and> snd (fst (gpio_in_main k s)) = 0 \<and>
   (works k (c # cs) \<longrightarrow>
      writes (snd (gpio_out_main k s)) = writes s @
        [(export_path, ''60''), (''/sys/class/gpio/gpio60/direction'', ''out''), (''/sys/class/gpio/gpio60/value'', ''1''),
         (''/sys/class/gpio/gpio60/value'', ''0''), (unexport_path, ''60'')] \<and>
      fst (fst (gpio_in_main k s)) = (if c = CHR ''1'' then 1 else 0) \<and>
      writes (snd (gpio_in_main k s)) = writes s @
        [(export_path, ''48''), (''/sys/class/gpio/gpio48/direction'', ''in''), (unexport_path, ''48'')])"
proof -
  define p where "p = pin_path GPIO_IN_PIN ''value''"
  define r where "r = read_from_file k p (snd (write_to_file k (pin_path GPIO_IN_PIN ''direction'') ''in'' (snd (write_to_file k export_path GPIO_IN_PIN s))))"
  have im: "gpio_in_main k s = ((fst r, 0), snd (write_to_file k unexport_path GPIO_IN_PIN (snd r)))"
    by (simp add: gpio_in_main_def r_def p_def split: prod.split)
  have "nfds (snd r) = nfds s" by (simp add: r_def read_from_file_fds)
  then have "nfds (snd (gpio_in_main k s)) = nfds s" "snd (fst (gpio_in_main k s)) = 0" by (simp_all add: im)
  moreover have "writes (snd (gpio_out_main k s)) = writes s @
        [(export_path, ''60''), (''/sys/class/gpio/gpio60/direction'', ''out''), (''/sys/class/gpio/gpio60/value'', ''1''),
         (''/sys/class/gpio/gpio60/value'', ''0''), (unexport_path, ''60'')]" if "works k (c # cs)"
    by (simp add: gpio_out_main_def Let_def write_to_file_works(2) [OF that] GPIO_OUT_PIN_def pin_path_fits)
  moreover have "fst (fst (gpio_in_main k s)) = (if c = CHR ''1'' then 1 else 0) \<and>
      writes (snd (gpio_in_main k s)) = writes s @
        [(export_path, ''48''), (''/sys/class/gpio/gpio48/direction'', ''in''), (unexport_path, ''48'')]" if "works k (c # cs)"
    by (simp add: im r_def read_from_file_works [OF that] write_to_file_works(2) [OF that]) (simp add: GPIO_IN_PIN_def pin_path_fits)
  ultimately show ?thesis by (simp add: gpio_out_main_def Let_def)
qed

end
