(* ===== verification/Yielding.thy ===== *)
theory Yielding
  imports Transition
begin

text \<open>
  \<^verbatim>\<open>lesson_8/code_examples/03_process_yielding/03_process_yielding.c\<close>: two processes count in shared memory while a
  control process reads commands and finally terminates them. The flag \<^verbatim>\<open>running\<close> is a global variable, so after the forks every
  process has its own. A process is one program (\<^verbatim>\<open>process_a\<close> and \<^verbatim>\<open>process_b\<close> differ in their counter only) with a
  program counter; an increment is a step, and a terminating signal before the handler is installed kills the process.
  The counters are unbounded here, their range is a theorem. Printing and the CPU statistics are not modelled.
\<close>

definition WORK :: nat where "WORK = 10000000"
definition YIELD_EVERY :: nat where "YIELD_EVERY = 1000000"

datatype ypc = YInit | YTop | YLoop nat | YExit
datatype kpc = KRun | KKillA | KKillB | KWaitA | KWaitB | KDone

text \<open>A process with its part of the shared data; \<open>cycles\<close> and \<open>nyields\<close> record completed work cycles and calls of \<^verbatim>\<open>sched_yield\<close>.\<close>

record yproc =
  pc :: ypc
  running :: bool
  pcounter :: nat
  cycles :: nat
  nyields :: nat

record ysys =
  proc_a :: yproc
  proc_b :: yproc
  active_pid :: int
  yielding :: bool
  ctl :: kpc
  ctl_running :: bool

definition handle_signal :: "yproc \<Rightarrow> yproc" where
  "handle_signal p = (if pc p = YInit then p\<lparr>pc := YExit\<rparr> else if pc p = YExit then p else p\<lparr>running := False\<rparr>)"

text \<open>A step of \<^verbatim>\<open>process_a\<close> or \<^verbatim>\<open>process_b\<close>, and whether it sets \<^verbatim>\<open>active_pid\<close>.\<close>

definition process_step :: "bool \<Rightarrow> yproc \<Rightarrow> (yproc \<times> bool) option" where
  "process_step yld p =
     (case pc p of
        YInit \<Rightarrow> Some (p\<lparr>pc := YTop\<rparr>, False)
      | YTop \<Rightarrow> Some (if running p then (p\<lparr>pc := YLoop 0\<rparr>, True) else (p\<lparr>pc := YExit\<rparr>, False))
      | YLoop i \<Rightarrow>
          Some (if i < WORK then
                  (p\<lparr>pc := YLoop (i + 1), pcounter := pcounter p + 1,
                     nyields := (if yld \<and> i mod YIELD_EVERY = 0 then nyields p + 1 else nyields p)\<rparr>, False)
                else (p\<lparr>pc := YTop, cycles := cycles p + 1\<rparr>, False))
      | YExit \<Rightarrow> None)"

definition process_a :: "int \<Rightarrow> ysys \<Rightarrow> ysys option" where
  "process_a pid s =
     map_option (\<lambda>(p, act). s\<lparr>proc_a := p, active_pid := (if act then pid else active_pid s)\<rparr>) (process_step (yielding s) (proc_a s))"

definition process_b :: "int \<Rightarrow> ysys \<Rightarrow> ysys option" where
  "process_b pid s =
     map_option (\<lambda>(p, act). s\<lparr>proc_b := p, active_pid := (if act then pid else active_pid s)\<rparr>) (process_step (yielding s) (proc_b s))"

text \<open>The control process; \<open>input\<close> is what the non-blocking read finds.\<close>

definition control_process :: "char option \<Rightarrow> ysys \<Rightarrow> ysys option" where
  "control_process input s =
     (case ctl s of
        KRun \<Rightarrow>
          (if \<not> ctl_running s then Some (s\<lparr>ctl := KKillA\<rparr>)
           else (case input of
                   None \<Rightarrow> Some s
                 | Some c \<Rightarrow>
                     Some (if c = CHR ''y'' \<or> c = CHR ''Y'' then s\<lparr>yielding := \<not> yielding s\<rparr>
                           else if c = CHR ''q'' \<or> c = CHR ''Q'' then s\<lparr>ctl_running := False\<rparr>
                           else s)))
      | KKillA \<Rightarrow> Some (s\<lparr>proc_a := handle_signal (proc_a s), ctl := KKillB\<rparr>)
      | KKillB \<Rightarrow> Some (s\<lparr>proc_b := handle_signal (proc_b s), ctl := KWaitA\<rparr>)
      | KWaitA \<Rightarrow> (if pc (proc_a s) = YExit then Some (s\<lparr>ctl := KWaitB\<rparr>) else None)
      | KWaitB \<Rightarrow> (if pc (proc_b s) = YExit then Some (s\<lparr>ctl := KDone\<rparr>) else None)
      | KDone \<Rightarrow> None)"

definition new_proc :: yproc where
  "new_proc = \<lparr>pc = YInit, running = True, pcounter = 0, cycles = 0, nyields = 0\<rparr>"

text \<open>\<^verbatim>\<open>main\<close>: an exit code when the memory or a process is missing (the first process is then told to end), or the start.\<close>

definition yield_main :: "bool \<Rightarrow> bool \<Rightarrow> bool \<Rightarrow> (int \<times> yproc option) + ysys" where
  "yield_main mmap_ok fork_a_ok fork_b_ok =
     (if \<not> mmap_ok then Inl (1, None)
      else if \<not> fork_a_ok then Inl (1, None)
      else if \<not> fork_b_ok then Inl (1, Some (handle_signal new_proc))
      else Inr \<lparr>proc_a = new_proc, proc_b = new_proc, active_pid = 0, yielding = False, ctl = KRun, ctl_running = True\<rparr>)"

text \<open>Steps of the three processes with the pids of the children; a signal from outside reaches one of them.\<close>

inductive yield_step :: "int \<Rightarrow> int \<Rightarrow> ysys \<Rightarrow> ysys \<Rightarrow> bool" for pid_a pid_b where
  a: "process_a pid_a s = Some u \<Longrightarrow> yield_step pid_a pid_b s u"
| b: "process_b pid_b s = Some u \<Longrightarrow> yield_step pid_a pid_b s u"
| control: "control_process input s = Some u \<Longrightarrow> yield_step pid_a pid_b s u"
| signal_a: "running (proc_a s) \<Longrightarrow> pc (proc_a s) \<noteq> YExit \<Longrightarrow> yield_step pid_a pid_b s (s\<lparr>proc_a := handle_signal (proc_a s)\<rparr>)"
| signal_b: "running (proc_b s) \<Longrightarrow> pc (proc_b s) \<noteq> YExit \<Longrightarrow> yield_step pid_a pid_b s (s\<lparr>proc_b := handle_signal (proc_b s)\<rparr>)"
| signal_ctl: "ctl_running s \<Longrightarrow> ctl s = KRun \<Longrightarrow> yield_step pid_a pid_b s (s\<lparr>ctl_running := False\<rparr>)"

inductive_cases yield_stepE: "yield_step pid_a pid_b s u"

section \<open>Counters\<close>

definition proc_ok :: "yproc \<Rightarrow> bool" where
  "proc_ok p \<longleftrightarrow> pcounter p = WORK * cycles p + (case pc p of YLoop i \<Rightarrow> i | _ \<Rightarrow> 0) \<and>
     (case pc p of YLoop i \<Rightarrow> i \<le> WORK | _ \<Rightarrow> True)"

definition yield_inv :: "int \<Rightarrow> int \<Rightarrow> ysys \<Rightarrow> bool" where [wf_simps]:
  "yield_inv pid_a pid_b s \<longleftrightarrow> proc_ok (proc_a s) \<and> proc_ok (proc_b s) \<and> active_pid s \<in> {0, pid_a, pid_b} \<and>
     (ctl s \<noteq> KRun \<longrightarrow> \<not> ctl_running s) \<and>
     (ctl s \<in> {KKillB, KWaitA, KWaitB, KDone} \<longrightarrow> \<not> running (proc_a s) \<or> pc (proc_a s) = YExit) \<and>
     (ctl s \<in> {KWaitA, KWaitB, KDone} \<longrightarrow> \<not> running (proc_b s) \<or> pc (proc_b s) = YExit) \<and>
     (ctl s \<in> {KWaitB, KDone} \<longrightarrow> pc (proc_a s) = YExit) \<and> (ctl s = KDone \<longrightarrow> pc (proc_b s) = YExit)"

lemma process_step_ok:
  assumes "process_step y p = Some (q, act)" "proc_ok p"
  shows "proc_ok q" "pc p \<noteq> YExit" "\<not> running p \<Longrightarrow> \<not> running q"
  using assms by (auto simp: process_step_def proc_ok_def split: ypc.splits if_splits)

lemma handle_signal_ok:
  "proc_ok p \<Longrightarrow> proc_ok (handle_signal p)" "\<not> running (handle_signal p) \<or> pc (handle_signal p) = YExit"
  "pc p = YExit \<Longrightarrow> pc (handle_signal p) = YExit"
  by (auto simp: handle_signal_def proc_ok_def split: ypc.splits)

lemma process_a_inv:
  assumes "yield_inv pa pb s" "process_a pa s = Some u"
  shows "yield_inv pa pb u"
proof -
  obtain q act where q: "process_step (yielding s) (proc_a s) = Some (q, act)"
    and u: "u = s\<lparr>proc_a := q, active_pid := (if act then pa else active_pid s)\<rparr>"
    using assms(2) by (auto simp: process_a_def)
  note p = process_step_ok [OF q]
  have ok: "proc_ok (proc_a s)" using assms(1) by (simp add: yield_inv_def)
  show ?thesis using assms(1) p(1) [OF ok] p(2) [OF ok] p(3) [OF ok] by (auto simp: u yield_inv_def)
qed

lemma process_b_inv:
  assumes "yield_inv pa pb s" "process_b pb s = Some u"
  shows "yield_inv pa pb u"
proof -
  obtain q act where q: "process_step (yielding s) (proc_b s) = Some (q, act)"
    and u: "u = s\<lparr>proc_b := q, active_pid := (if act then pb else active_pid s)\<rparr>"
    using assms(2) by (auto simp: process_b_def)
  note p = process_step_ok [OF q]
  have ok: "proc_ok (proc_b s)" using assms(1) by (simp add: yield_inv_def)
  show ?thesis using assms(1) p(1) [OF ok] p(2) [OF ok] p(3) [OF ok] by (auto simp: u yield_inv_def)
qed

lemma control_process_inv:
  assumes "yield_inv pa pb s" "control_process input s = Some u"
  shows "yield_inv pa pb u"
proof (cases "ctl s")
  case KRun
  then show ?thesis using assms by (auto simp: yield_inv_def control_process_def split: option.splits if_splits)
next
  case KKillA
  then have "u = s\<lparr>proc_a := handle_signal (proc_a s), ctl := KKillB\<rparr>" using assms(2) by (simp add: control_process_def)
  then show ?thesis using assms(1) KKillA handle_signal_ok(1,2) [of "proc_a s"] by (simp add: yield_inv_def)
next
  case KKillB
  then have "u = s\<lparr>proc_b := handle_signal (proc_b s), ctl := KWaitA\<rparr>" using assms(2) by (simp add: control_process_def)
  then show ?thesis using assms(1) KKillB handle_signal_ok(1,2) [of "proc_b s"] by (simp add: yield_inv_def)
qed (use assms in \<open>auto simp: control_process_def yield_inv_def split: if_splits\<close>)

lemma yield_step_inv:
  assumes "yield_step pa pb s u" "yield_inv pa pb s"
  shows "yield_inv pa pb u"
  using assms
proof cases
  case signal_a
  then show ?thesis using assms(2) handle_signal_ok [of "proc_a s"] by (auto simp: yield_inv_def)
next
  case signal_b
  then show ?thesis using assms(2) handle_signal_ok [of "proc_b s"] by (auto simp: yield_inv_def)
next
  case signal_ctl
  then show ?thesis using assms(2) by (auto simp: yield_inv_def)
qed (use assms(2) in \<open>auto intro: process_a_inv process_b_inv control_process_inv\<close>)

interpretation yl: invariant_system "\<lambda>s. yield_main True True True = Inr s" "yield_step pa pb" "yield_inv pa pb" for pa pb
proof
  show "yield_inv pa pb s" if "yield_main True True True = Inr s" for s
    using that by (auto simp: yield_main_def yield_inv_def proc_ok_def new_proc_def)
qed (rule yield_step_inv)

section \<open>Shutdown\<close>

definition waiting :: "int \<Rightarrow> int \<Rightarrow> ysys \<Rightarrow> bool" where
  "waiting pa pb s \<longleftrightarrow> yield_inv pa pb s \<and> ctl s \<in> {KWaitA, KWaitB, KDone}"

fun pc_weight :: "ypc \<Rightarrow> nat" where
  "pc_weight YInit = 2"
| "pc_weight YTop = 1"
| "pc_weight (YLoop i) = (WORK - i) + 2"
| "pc_weight YExit = 0"

fun ctl_weight :: "kpc \<Rightarrow> nat" where
  "ctl_weight KWaitA = 2"
| "ctl_weight KWaitB = 1"
| "ctl_weight _ = 0"

definition yield_measure :: "ysys \<Rightarrow> nat" where
  "yield_measure s = pc_weight (pc (proc_a s)) + pc_weight (pc (proc_b s)) + ctl_weight (ctl s)"

lemma process_step_weight:
  assumes "process_step y p = Some (q, act)" "\<not> running p \<or> pc p = YExit" "proc_ok p"
  shows "pc_weight (pc q) < pc_weight (pc p)"
  using assms by (auto simp: process_step_def proc_ok_def split: ypc.splits if_splits)

lemma waiting_step:
  assumes "waiting pa pb s" "yield_step pa pb s u"
  shows "waiting pa pb u" "yield_measure u < yield_measure s"
proof -
  have i: "yield_inv pa pb s" "ctl s \<in> {KWaitA, KWaitB, KDone}" using assms(1) by (auto simp: waiting_def)
  then have p: "proc_ok (proc_a s)" "proc_ok (proc_b s)" "\<not> running (proc_a s) \<or> pc (proc_a s) = YExit" "\<not> running (proc_b s) \<or> pc (proc_b s) = YExit"
    by (auto simp: yield_inv_def)
  have "ctl u \<in> {KWaitA, KWaitB, KDone} \<and> yield_measure u < yield_measure s"
    using assms(2)
  proof cases
    case a
    then obtain q act where "process_step (yielding s) (proc_a s) = Some (q, act)"
      "u = s\<lparr>proc_a := q, active_pid := (if act then pa else active_pid s)\<rparr>" by (auto simp: process_a_def)
    then show ?thesis using process_step_weight p(1,3) i(2) by (auto simp: yield_measure_def)
  next
    case b
    then obtain q act where "process_step (yielding s) (proc_b s) = Some (q, act)"
      "u = s\<lparr>proc_b := q, active_pid := (if act then pb else active_pid s)\<rparr>" by (auto simp: process_b_def)
    then show ?thesis using process_step_weight p(2,4) i(2) by (auto simp: yield_measure_def)
  qed (use i(2) p in \<open>auto simp: control_process_def yield_measure_def yield_inv_def split: if_splits\<close>)
  then show "waiting pa pb u" "yield_measure u < yield_measure s"
    using yield_step_inv [OF assms(2) i(1)] by (auto simp: waiting_def)
qed

lemma waiting_progress:
  assumes "waiting pa pb s" "ctl s \<noteq> KDone"
  shows "\<exists>u. yield_step pa pb s u"
proof -
  have more: "\<exists>r. process_step y p = Some r" if "pc p \<noteq> YExit" for y p
    using that by (auto simp: process_step_def split: ypc.splits)
  have "\<exists>u. process_a pa s = Some u" if "pc (proc_a s) \<noteq> YExit" using more [OF that, of "yielding s"] by (auto simp: process_a_def)
  moreover have "\<exists>u. process_b pb s = Some u" if "pc (proc_b s) \<noteq> YExit" using more [OF that, of "yielding s"] by (auto simp: process_b_def)
  moreover have "\<exists>u. control_process None s = Some u" if "pc (proc_a s) = YExit" "pc (proc_b s) = YExit"
    using that assms by (auto simp: waiting_def control_process_def)
  ultimately show ?thesis by (meson yield_step.a yield_step.b yield_step.control)
qed

interpretation ys: terminating_system "waiting pa pb" "yield_step pa pb" "waiting pa pb" "\<lambda>s. ctl s = KDone" yield_measure for pa pb
  by unfold_locales (auto intro: waiting_step waiting_progress)



text \<open>
  C31. Once the control process waits for its children, every run is bounded (the work that is left in the current
  cycles), it can always be completed, and it only stops when both processes have exited and been waited for.
\<close>

theorem yielding_shutdown:
  assumes "yield_main True True True = Inr s0" "(yield_step pid_a pid_b)\<^sup>*\<^sup>* s0 s" "ctl s = KWaitA"
    and "(yield_step pid_a pid_b ^^ n) s u"
  shows "n \<le> 2 * WORK + 6 \<and> (\<exists>v. (yield_step pid_a pid_b)\<^sup>*\<^sup>* u v \<and> ctl v = KDone) \<and>
    (ctl u = KDone \<longrightarrow> pc (proc_a u) = YExit \<and> pc (proc_b u) = YExit)"
proof -
  have "yield_inv pid_a pid_b s" using yl.reachable_inv [OF assms(1,2)] .
  then have w: "waiting pid_a pid_b s" using assms(3) by (simp add: waiting_def)
  have "pc_weight p \<le> WORK + 2" for p by (cases p) auto
  from this [of "pc (proc_a s)"] this [of "pc (proc_b s)"] have "yield_measure s \<le> 2 * WORK + 6"
    unfolding yield_measure_def assms(3) by simp
  moreover have "waiting pid_a pid_b u" using w assms(4) ys.steps_inv relpowp_imp_rtranclp by metis
  then have "ctl u = KDone \<longrightarrow> pc (proc_a u) = YExit \<and> pc (proc_b u) = YExit" by (auto simp: waiting_def yield_inv_def)
  ultimately show ?thesis using ys.run_from_init [OF w assms(4)] by auto
qed

theorem yielding_shutdown_witness:
  "\<exists>s0 s v. yield_main True True True = Inr s0 \<and> (yield_step 10 11)\<^sup>*\<^sup>* s0 s \<and> ctl s = KWaitA \<and> (yield_step 10 11)\<^sup>*\<^sup>* s v \<and> ctl v = KDone"
proof -
  obtain s0 where s0: "yield_main True True True = Inr s0" by (simp add: yield_main_def)
  let ?p = "new_proc\<lparr>pc := YExit\<rparr>"
  let ?S = "\<lambda>a b k r. \<lparr>proc_a = a, proc_b = b, active_pid = 0, yielding = False, ctl = k, ctl_running = r\<rparr>"
  have e: "s0 = ?S new_proc new_proc KRun True" using s0 by (simp add: yield_main_def)
  have h: "handle_signal new_proc = ?p" by (simp add: handle_signal_def new_proc_def)
  have c: "yield_step 10 11 x y" if "control_process (Some CHR ''q'') x = Some y" for x y using that by (rule yield_step.control)
  have "yield_step 10 11 s0 (?S new_proc new_proc KRun False)" unfolding e by (rule c) (simp add: control_process_def)
  moreover have "yield_step 10 11 (?S new_proc new_proc KRun False) (?S new_proc new_proc KKillA False)"
    by (rule c) (simp add: control_process_def)
  moreover have "yield_step 10 11 (?S new_proc new_proc KKillA False) (?S ?p new_proc KKillB False)"
    by (rule c) (simp add: control_process_def h)
  moreover have "yield_step 10 11 (?S ?p new_proc KKillB False) (?S ?p ?p KWaitA False)"
    by (rule c) (simp add: control_process_def h)
  ultimately have r: "(yield_step 10 11)\<^sup>*\<^sup>* s0 (?S ?p ?p KWaitA False)"
    by (meson converse_rtranclp_into_rtranclp rtranclp.rtrancl_refl)
  then obtain v where "(yield_step 10 11)\<^sup>*\<^sup>* (?S ?p ?p KWaitA False) v" "ctl v = KDone"
    using yielding_shutdown [OF s0 r, of 0 "?S ?p ?p KWaitA False"] by auto
  with s0 r show ?thesis by (intro exI [of _ s0] exI [of _ "?S ?p ?p KWaitA False"] exI [of _ v]) simp
qed

end
