(* ===== verification/EventClients.thy ===== *)
theory EventClients
  imports CString EventServer
begin

text \<open>
  The test clients and \<^verbatim>\<open>main\<close> of \<^verbatim>\<open>lesson_9/code_examples/05_event_driven_server/05_event_driven_server.c\<close>. A client sends
  at most five requests over one connection and waits for an answer after each; the answers of the kernel are given
  by an environment. The trace records what is sent and received, in order. Sleeps and printing are not modelled.
\<close>

definition NUM_CLIENTS :: nat where "NUM_CLIENTS = 10"
definition MAX_REQUESTS_PER_CLIENT :: nat where "MAX_REQUESTS_PER_CLIENT = 5"

datatype recv_answer = Recv_error | Recv_bytes string

record client_env =
  sock_ok :: bool
  pton_ok :: bool
  connect_ok :: bool
  send_ret :: "nat \<Rightarrow> int"
  recv_ans :: "nat \<Rightarrow> recv_answer"

datatype exchange = Sent string | Received string

record client_run =
  trace :: "exchange list"
  sock_open :: bool

definition request_text :: "nat \<Rightarrow> nat \<Rightarrow> string" where
  "request_text client_id request = c_truncate (nat BUFFER_SIZE)
     (''Hello from client '' @ decimal client_id @ '', request '' @ decimal request)"

text \<open>The loop from request \<open>r\<close> on, with \<open>n\<close> requests left.\<close>

primrec client_loop :: "nat \<Rightarrow> client_env \<Rightarrow> nat \<Rightarrow> nat \<Rightarrow> exchange list \<Rightarrow> exchange list" where
  "client_loop 0 env cid r tr = tr"
| "client_loop (Suc n) env cid r tr =
     (let send_buffer = request_text cid r; bytes_sent = send_ret env r
      in if bytes_sent \<le> 0 then tr
         else (let tr1 = tr @ [Sent (take (nat bytes_sent) send_buffer)]
               in case recv_ans env r of
                    Recv_error \<Rightarrow> tr1
                  | Recv_bytes bs \<Rightarrow>
                      (let d = take (nat BUFFER_SIZE - 1) bs
                       in if d = [] then tr1 else client_loop n env cid (r + 1) (tr1 @ [Received (cstr d)]))))"

definition client_thread :: "client_env \<Rightarrow> nat \<Rightarrow> client_run" where
  "client_thread env client_id =
     (if \<not> sock_ok env then \<lparr>trace = [], sock_open = False\<rparr>
      else if \<not> pton_ok env then \<lparr>trace = [], sock_open = False\<rparr>
      else if \<not> connect_ok env then \<lparr>trace = [], sock_open = False\<rparr>
      else \<lparr>trace = client_loop MAX_REQUESTS_PER_CLIENT env client_id 0 [], sock_open = False\<rparr>)"

section \<open>main\<close>

datatype main_error = Null_dereference | Join_uninitialised

text \<open>
  Starting the clients: for each whether \<^verbatim>\<open>malloc\<close> and \<^verbatim>\<open>pthread_create\<close> succeed. The result is the array of thread
  handles, \<open>None\<close> where none was stored, with the ids the started clients got.
\<close>

fun start_clients :: "nat \<Rightarrow> (bool \<times> bool) list \<Rightarrow> main_error + nat option list" where
  "start_clients i [] = Inr []"
| "start_clients i ((malloc_ok, create_ok) # as) =
     (if \<not> malloc_ok then Inl Null_dereference
      else map_sum id (Cons (if create_ok then Some (i + 1) else None)) (start_clients (i + 1) as))"

text \<open>Joining them in order; the ids of the clients joined.\<close>

fun join_clients :: "nat option list \<Rightarrow> main_error + nat list" where
  "join_clients [] = Inr []"
| "join_clients (None # ts) = Inl Join_uninitialised"
| "join_clients (Some i # ts) = map_sum id (Cons i) (join_clients ts)"

text \<open>\<^verbatim>\<open>main\<close>: its exit code, the clients that ran to their end, and the final value of \<^verbatim>\<open>running\<close>.\<close>

definition server_main :: "bool \<Rightarrow> (bool \<times> bool) list \<Rightarrow> main_error + (int \<times> nat list \<times> bool)" where
  "server_main server_ok answers =
     (if \<not> server_ok then Inr (1, [], True)
      else (case start_clients 0 answers of
              Inl e \<Rightarrow> Inl e
            | Inr ts \<Rightarrow> (case join_clients ts of Inl e \<Rightarrow> Inl e | Inr js \<Rightarrow> Inr (0, js, False))))"

section \<open>The exchange\<close>

text \<open>Requests and answers alternate, beginning with a request; the \<open>k\<close>-th request is (a prefix of) its text.\<close>

fun alternating :: "nat \<Rightarrow> nat \<Rightarrow> exchange list \<Rightarrow> bool" where
  "alternating cid r [] \<longleftrightarrow> True"
| "alternating cid r [Sent x] \<longleftrightarrow> (\<exists>k > 0. x = take k (request_text cid r))"
| "alternating cid r (Sent x # Received y # tr) \<longleftrightarrow> (\<exists>k > 0. x = take k (request_text cid r)) \<and> length y < nat BUFFER_SIZE \<and> alternating cid (r + 1) tr"
| "alternating cid r _ \<longleftrightarrow> False"

lemma cstr_length: "length (cstr d) \<le> length d"
  by (simp add: cstr_def length_takeWhile_le)

lemma client_loop_alternating:
  "\<exists>tr'. client_loop n env cid r tr = tr @ tr' \<and> alternating cid r tr' \<and> length tr' \<le> 2 * n"
proof (induction n arbitrary: r tr)
  case (Suc n)
  let ?x = "take (nat (send_ret env r)) (request_text cid r)"
  show ?case
  proof (cases "send_ret env r \<le> 0")
    case True
    then show ?thesis by (intro exI [of _ "[]"]) simp
  next
    case False
    then have k: "\<exists>k > 0. ?x = take k (request_text cid r)" by (intro exI [of _ "nat (send_ret env r)"]) simp
    consider "client_loop (Suc n) env cid r tr = tr @ [Sent ?x]"
      | bs where "recv_ans env r = Recv_bytes bs" "take (nat BUFFER_SIZE - 1) bs \<noteq> []"
    proof (cases "\<exists>bs. recv_ans env r = Recv_bytes bs \<and> take (nat BUFFER_SIZE - 1) bs \<noteq> []")
      case True
      then show thesis using that(2) by blast
    next
      case no: False
      show thesis by (rule that(1)) (use no False in \<open>auto simp: Let_def split: recv_answer.split\<close>)
    qed
    then show ?thesis
    proof cases
      case 1
      then show ?thesis using k by (intro exI [of _ "[Sent ?x]"]) simp
    next
      case (2 bs)
      let ?y = "cstr (take (nat BUFFER_SIZE - 1) bs)"
      have "client_loop (Suc n) env cid r tr = client_loop n env cid (r + 1) (tr @ [Sent ?x, Received ?y])"
        using False 2 by (simp add: Let_def)
      moreover obtain tr' where "client_loop n env cid (r + 1) (tr @ [Sent ?x, Received ?y]) = (tr @ [Sent ?x, Received ?y]) @ tr'"
        "alternating cid (r + 1) tr'" "length tr' \<le> 2 * n" using Suc.IH by blast
      moreover have "length ?y < nat BUFFER_SIZE"
        using cstr_length [of "take (nat BUFFER_SIZE - 1) bs"] by (simp add: BUFFER_SIZE_def)
      ultimately show ?thesis using k by (intro exI [of _ "Sent ?x # Received ?y # tr'"]) simp
    qed
  qed
qed simp

text \<open>A server that echoes each request whole.\<close>

definition echoes :: "client_env \<Rightarrow> nat \<Rightarrow> bool" where
  "echoes env cid \<longleftrightarrow> sock_ok env \<and> pton_ok env \<and> connect_ok env \<and>
     (\<forall>r. send_ret env r = int (length (request_text cid r)) \<and> recv_ans env r = Recv_bytes (request_text cid r))"

lemma request_facts:
  assumes "cid < 10 ^ 9" "r < 10 ^ 9"
  shows "NUL \<notin> set (request_text cid r)" "request_text cid r \<noteq> []" "length (request_text cid r) \<le> 1023"
proof -
  have d: "NUL \<notin> set (decimal n)" for n using decimal_digits [of n] by (auto simp: is_digit_def)
  have "set (request_text cid r) \<subseteq> set (''Hello from client '' @ decimal cid @ '', request '' @ decimal r)"
    unfolding request_text_def c_truncate_def by (rule set_take_subset)
  then show "NUL \<notin> set (request_text cid r)" using d by auto
qed (simp_all add: request_text_def c_truncate_def BUFFER_SIZE_def)

lemma upt_head: "[r..<r + Suc n] = r # [r + 1..<r + 1 + n]"
  by (simp add: upt_conv_Cons del: upt_Suc)

lemma client_loop_echo:
  assumes "echoes env cid" "cid < 10 ^ 9"
  shows "r + n \<le> 10 ^ 9 \<Longrightarrow> client_loop n env cid r tr = tr @ concat (map (\<lambda>k. [Sent (request_text cid k), Received (request_text cid k)]) [r..<r + n])"
proof (induction n arbitrary: r tr)
  case (Suc n)
  note f = request_facts [OF assms(2), of r]
  have e: "send_ret env r = int (length (request_text cid r))" "recv_ans env r = Recv_bytes (request_text cid r)"
    using assms(1) by (auto simp: echoes_def)
  have c: "cstr (request_text cid r) = request_text cid r" using cstr_prefix [of "request_text cid r" "[]"] f Suc.prems by (simp add: cstr_def)
  have "client_loop (Suc n) env cid r tr = client_loop n env cid (r + 1) (tr @ [Sent (request_text cid r), Received (request_text cid r)])"
    using f e c Suc.prems by (simp add: BUFFER_SIZE_def Let_def)
  also have "\<dots> = tr @ [Sent (request_text cid r), Received (request_text cid r)] @
      concat (map (\<lambda>k. [Sent (request_text cid k), Received (request_text cid k)]) [r + 1..<r + 1 + n])"
    using Suc by simp
  finally show ?case by (simp only: upt_head list.map concat.simps append.simps)
qed simp

lemma start_clients_ok:
  "(\<forall>a \<in> set as. a = (True, True)) \<Longrightarrow> start_clients i as = Inr (map Some [i + 1..<i + 1 + length as])"
proof (induction i as rule: start_clients.induct)
  case (2 i m c as)
  then have "start_clients (i + 1) as = Inr (map Some [i + 1 + 1..<i + 1 + 1 + length as])" "m" "c" by auto
  then have "start_clients i ((m, c) # as) = Inr (Some (i + 1) # map Some [i + 1 + 1..<i + 1 + 1 + length as])"
    by (simp del: upt_Suc)
  also have "Some (i + 1) # map Some [i + 1 + 1..<i + 1 + 1 + length as] = map Some [i + 1..<i + 1 + Suc (length as)]"
    by (simp only: upt_head list.map)
  finally show ?case by (simp only: list.size add_0_right add_Suc_right)
qed simp

lemma join_clients_ok: "join_clients (map Some js) = Inr js"
  by (induction js) auto

lemma start_clients_join_fails:
  "fst ` set as \<subseteq> {True} \<Longrightarrow> (True, False) \<in> set as \<Longrightarrow> \<exists>ts. start_clients i as = Inr ts \<and> join_clients ts = Inl Join_uninitialised"
proof (induction i as rule: start_clients.induct)
  case (2 i m c as)
  then have m: "m" by auto
  show ?case
  proof (cases c)
    case True
    then obtain ts where "start_clients (i + 1) as = Inr ts" "join_clients ts = Inl Join_uninitialised" using 2 m by auto
    then show ?thesis using m True by simp
  next
    case False
    obtain ts where "start_clients (i + 1) as = Inr ts"
    proof -
      have "\<exists>ts. start_clients k as = Inr ts" for k using 2(2)
        by (induction k as rule: start_clients.induct) auto
      then show thesis using that by blast
    qed
    then show ?thesis using m False by simp
  qed
qed simp



end
