(* ===== verification/TimersMain.thy ===== *)
theory TimersMain
  imports Timers
begin

text \<open>
  \<^verbatim>\<open>main\<close> of \<^verbatim>\<open>lesson_12/code_examples/01_timer_callback/01_timer_callback.c\<close> together with the timers it starts: it creates three
  timers, waits, deletes two of them, frees the message of the second and cleans up, while the timers expire and
  the callback threads run between its steps.
\<close>

datatype tm_pc = TM_Create1 | TM_Store1 int | TM_Create2 | TM_Create3 | TM_Sleep | TM_Delete2 | TM_Delete3 | TM_Free | TM_Cleanup | TM_Exit

record tm_sys =
  ts :: tsys
  main_at :: tm_pc
  timer2_id :: int
  timer3_id :: int
  freed :: "addr set"

text \<open>The next step of \<^verbatim>\<open>main\<close>, for the addresses of \<^verbatim>\<open>timer1_id\<close> and of the message.\<close>

definition timers_main :: "create_answer \<Rightarrow> addr \<Rightarrow> addr \<Rightarrow> tm_sys \<Rightarrow> tm_sys option" where
  "timers_main a p1 p2 s =
     (case main_at s of
        TM_Create1 \<Rightarrow> (case timer_create_with_callback a Timer1_callback p1 1000 1000 (ts s) of
            (r, u) \<Rightarrow> Some (s\<lparr>ts := u, main_at := TM_Store1 r\<rparr>))
      | TM_Store1 r \<Rightarrow> Some (s\<lparr>ts := (ts s)\<lparr>ids := (ids (ts s))(p1 := r)\<rparr>, main_at := TM_Create2\<rparr>)
      | TM_Create2 \<Rightarrow> (case timer_create_with_callback a Timer2_callback p2 2000 1500 (ts s) of
            (r, u) \<Rightarrow> Some (s\<lparr>ts := u, timer2_id := r, main_at := TM_Create3\<rparr>))
      | TM_Create3 \<Rightarrow> (case timer_create_with_callback a Timer3_callback 0 3000 2000 (ts s) of
            (r, u) \<Rightarrow> Some (s\<lparr>ts := u, timer3_id := r, main_at := TM_Sleep\<rparr>))
      | TM_Sleep \<Rightarrow> Some (s\<lparr>main_at := TM_Delete2\<rparr>)
      | TM_Delete2 \<Rightarrow> Some (s\<lparr>ts := snd (timer_delete_with_callback (timer2_id s) (ts s)), main_at := TM_Delete3\<rparr>)
      | TM_Delete3 \<Rightarrow> Some (s\<lparr>ts := snd (timer_delete_with_callback (timer3_id s) (ts s)), main_at := TM_Free\<rparr>)
      | TM_Free \<Rightarrow> Some (s\<lparr>freed := insert p2 (freed s), main_at := TM_Cleanup\<rparr>)
      | TM_Cleanup \<Rightarrow> Some (s\<lparr>ts := timer_system_cleanup (ts s), main_at := TM_Exit\<rparr>)
      | TM_Exit \<Rightarrow> None)"

inductive tm_step :: "addr \<Rightarrow> addr \<Rightarrow> tm_sys \<Rightarrow> tm_sys \<Rightarrow> bool" for p1 p2 where
  main: "(\<And>tid. timer_create_ret a = Some tid \<Longrightarrow> armed (ts s) tid = None) \<Longrightarrow> timers_main a p1 p2 s = Some u \<Longrightarrow> tm_step p1 p2 s u"
| expire: "armed (ts s) tid = Some k \<Longrightarrow> k_value k \<noteq> zero_ts \<Longrightarrow>
     tm_step p1 p2 s (s\<lparr>ts := timer_handler malloc_ok (k_sival k) (ts s)\<rparr>)"
| call: "k < length (threads (ts s)) \<Longrightarrow> threads (ts s) ! k = Starting i \<Longrightarrow>
     tm_step p1 p2 s (s\<lparr>ts := thread_call i ((ts s)\<lparr>threads := (threads (ts s))[k := Finishing i]\<rparr>)\<rparr>)"
| finish: "k < length (threads (ts s)) \<Longrightarrow> threads (ts s) ! k = Finishing i \<Longrightarrow>
     tm_step p1 p2 s (s\<lparr>ts := thread_end i ((ts s)\<lparr>threads := take k (threads (ts s)) @ drop (Suc k) (threads (ts s))\<rparr>)\<rparr>)"

inductive_cases tm_stepE: "tm_step p1 p2 s u"

definition tm_init :: "tm_sys \<Rightarrow> bool" where
  "tm_init s \<longleftrightarrow> timer_init (ts s) \<and> main_at s = TM_Create1 \<and> freed s = {}"

section \<open>The timers stay consistent\<close>

lemma main_timer_steps:
  assumes "\<And>tid. timer_create_ret a = Some tid \<Longrightarrow> armed (ts s) tid = None" "timers_main a p1 p2 s = Some u"
  shows "timer_step\<^sup>*\<^sup>* (ts s) (ts u)"
proof -
  have create: "timer_step\<^sup>*\<^sup>* (ts s) v" if "timer_create_with_callback a cb d m n (ts s) = (r, v)" for cb d m n r v
    using timer_step.create [of a "ts s" cb d m n] assms(1) that by (metis r_into_rtranclp snd_conv)
  have "timer_step (ts s) (snd (timer_delete_with_callback i (ts s)))" "timer_step (ts s) (timer_system_cleanup (ts s))"
    "timer_step (ts s) ((ts s)\<lparr>ids := (ids (ts s))(p := v)\<rparr>)" for i p v
    by (rule timer_step.delete timer_step.cleanup timer_step.store_id)+
  then show ?thesis using assms(2) create by (auto simp: timers_main_def split: tm_pc.splits prod.splits)
qed

lemma tm_timer_steps: "tm_step p1 p2 s u \<Longrightarrow> timer_step\<^sup>*\<^sup>* (ts s) (ts u)"
proof (induction rule: tm_step.induct)
  case (main a s u)
  then show ?case by (rule main_timer_steps)
next
  case (expire s tid k malloc_ok)
  then show ?case using timer_step.expire [of "ts s" tid k malloc_ok] by auto
next
  case (call k s i)
  then show ?case using timer_step.call [of k "ts s" i] by auto
next
  case (finish k s i)
  then show ?case using timer_step.finish [of k "ts s" i] by auto
qed

definition disarmed :: "tsys \<Rightarrow> bool" where
  "disarmed t \<longleftrightarrow> armed t = Map.empty \<and> timer_lookup (timers t) = Map.empty"

definition tm_inv :: "tm_sys \<Rightarrow> bool" where [wf_simps]:
  "tm_inv s \<longleftrightarrow> timer_inv (ts s) \<and> (main_at s = TM_Exit \<longrightarrow> disarmed (ts s))"

lemma disarmed_inactive: "disarmed t \<Longrightarrow> i < length (timers t) \<Longrightarrow> \<not> active (timers t ! i)"
  by (auto simp: disarmed_def timer_lookup_def fun_eq_iff split: if_splits)

lemma delete_disarmed: "disarmed t \<Longrightarrow> length (timers t) = MAX_TIMERS \<Longrightarrow> snd (timer_delete_with_callback i t) = t"
proof (cases "i < 0 \<or> i \<ge> int MAX_TIMERS")
  case False
  assume "disarmed t" "length (timers t) = MAX_TIMERS"
  then have "\<not> active (timers t ! nat i)" using False by (intro disarmed_inactive) auto
  with False show ?thesis by (simp add: timer_delete_with_callback_def)
qed (simp add: timer_delete_with_callback_def)

lemma call_disarmed:
  assumes "disarmed t" "length (timers t) = MAX_TIMERS"
  shows "disarmed (thread_call i t)"
proof -
  have d: "disarmed (t\<lparr>called := c, count1 := n\<rparr>)" "length (timers (t\<lparr>called := c, count1 := n\<rparr>)) = MAX_TIMERS" for c n
    using assms by (simp_all add: disarmed_def)
  have d1: "disarmed (t\<lparr>called := c\<rparr>)" for c using assms by (simp add: disarmed_def)
  have "disarmed (run_callback cb x (t\<lparr>called := c\<rparr>))" for cb x c
    using delete_disarmed [OF d(1,2)] d(1) d1 by (cases cb) (simp_all add: timer1_callback_def Let_def)
  then show ?thesis using assms(1) by (auto simp: thread_call_def Let_def split: option.split)
qed

lemma tm_step_inv:
  assumes "tm_step p1 p2 s u" "tm_inv s"
  shows "tm_inv u"
proof -
  have i: "timer_inv (ts u)" using timer.steps_inv [OF tm_timer_steps [OF assms(1)]] assms(2) by (simp add: tm_inv_def)
  have len: "length (timers (ts s)) = MAX_TIMERS" using assms(2) timer_invD(1) by (simp add: tm_inv_def)
  have "disarmed (ts u)" if "main_at u = TM_Exit"
    using assms(1)
  proof cases
    case (main a)
    then have "ts u = timer_system_cleanup (ts s)" using that by (auto simp: timers_main_def split: tm_pc.splits prod.splits)
    then show ?thesis using cleanup_disarms [of "ts s"] assms(2) by (simp add: disarmed_def tm_inv_def)
  next
    case (expire tid k m)
    then show ?thesis using that assms(2) by (auto simp: tm_inv_def disarmed_def)
  next
    case (call k i)
    have "disarmed ((ts s)\<lparr>threads := (threads (ts s))[k := Finishing i]\<rparr>)" using call that assms(2) by (simp add: tm_inv_def disarmed_def)
    then show ?thesis using call_disarmed [of "(ts s)\<lparr>threads := (threads (ts s))[k := Finishing i]\<rparr>"] len call by simp
  next
    case (finish k i)
    then have "disarmed (ts s)" using that assms(2) by (simp add: tm_inv_def)
    then have na: "\<not> active (timers (ts s) ! j)" if "j < length (timers (ts s))" for j using that by (rule disarmed_inactive)
    have "\<not> active ((timers (ts s))[i := (timers (ts s) ! i)\<lparr>thread_running := False\<rparr>] ! j)" if "j < length (timers (ts s))" for j
      using na [OF that] na [of i] that by (cases "j = i") auto
    then have "timer_lookup ((timers (ts s))[i := (timers (ts s) ! i)\<lparr>thread_running := False\<rparr>]) = Map.empty"
      by (auto simp: timer_lookup_def fun_eq_iff)
    then show ?thesis using \<open>disarmed (ts s)\<close> finish by (simp add: disarmed_def thread_end_def)
  qed
  with i show ?thesis by (simp add: tm_inv_def)
qed

interpretation tm: invariant_system tm_init "tm_step p1 p2" tm_inv for p1 p2
proof
  show "tm_inv s" if "tm_init s" for s
    using that timer.inv_init by (simp add: tm_init_def tm_inv_def)
qed (rule tm_step_inv)

section \<open>The freed message\<close>

text \<open>Creation succeeds in the first free slot when the kernel calls do.\<close>

definition ok_answer :: "int \<Rightarrow> create_answer" where
  "ok_answer tid = \<lparr>sigaction_ok = True, timer_create_ret = Some tid, settime_ok = True\<rparr>"

lemma create_ok:
  assumes "timer_inv s" "i < MAX_TIMERS" "timer_lookup (timers s) i = None" "\<And>j. j < i \<Longrightarrow> timer_lookup (timers s) j \<noteq> None"
  shows "\<exists>u. timer_create_with_callback (ok_answer tid) cb d m n s = (int i, u) \<and> timer_lookup (timers u) = (timer_lookup (timers s))(i \<mapsto> (Some cb, d)) \<and>
    armed u = (armed s)(tid \<mapsto> \<lparr>k_sival = int i, k_value = ms_to_timespec m, k_interval = ms_to_timespec n\<rparr>) \<and> threads u = threads s"
proof -
  have inv1: "timer_inv (init_once s)" using init_once_inv [OF assms(1)] by (simp add: init_once_def)
  note L = init_once_lookup [OF assms(1)] and len = timer_invD(1) [OF inv1] timer_invD(1) [OF assms(1)]
  have act: "active (timers (init_once s) ! j) \<longleftrightarrow> timer_lookup (timers s) j \<noteq> None" if "j < MAX_TIMERS" for j
    using that len L [THEN fun_cong, of j] by (auto simp: timer_lookup_def split: if_splits)
  have thr: "threads (init_once s) = threads s" by (simp add: init_once_def timer_system_init_def)
  have "timer_alloc (Some cb, d) (timers (init_once s)) \<noteq> None"
    using timer_alloc_None [of "(Some cb, d)" "timers (init_once s)"] assms(2,3) L len by auto
  then have nonneg: "fst (timer_create_with_callback (ok_answer tid) cb d m n s) \<noteq> -1"
    by (auto simp: timer_create_with_callback_def ok_answer_def init_once_def Let_def)
  show ?thesis
  proof (cases rule: timer_create_cases [of "ok_answer tid" cb d m n s])
    case (created k tid' t)
    have k: "k < MAX_TIMERS" using created(3) len by simp
    have kn: "timer_lookup (timers s) k = None" using created(4) act [OF k] by blast
    have "timer_lookup (timers s) j \<noteq> None" if "j < k" for j using created(5) [OF that] act [of j] that k by simp
    then have "k = i" using kn k assms(2-4) by (metis linorder_neqE_nat)
    have "timer_lookup ((timers (init_once s))[k := t]) = (timer_lookup (timers (init_once s)))(k \<mapsto> (Some cb, d))"
      using created(3-9) len by (auto simp: timer_lookup_def fun_eq_iff nth_list_update)
    then show ?thesis using created(1,2) L thr \<open>k = i\<close> by (simp add: ok_answer_def)
  qed (use nonneg in auto)
qed

lemma ms_nonzero: "ms_to_timespec 2000 \<noteq> zero_ts"
proof
  assume "ms_to_timespec 2000 = zero_ts"
  then have "uint ((2000 :: u64) div 1000) = 0" by (simp add: ms_to_timespec_def zero_ts_def)
  then show False by simp
qed

text \<open>\<^verbatim>\<open>main\<close> after the three creations, all of them successful.\<close>

lemma three_timers_run:
  assumes "tm_init s0"
  shows "\<exists>s. (tm_step p1 p2)\<^sup>*\<^sup>* s0 s \<and> main_at s = TM_Sleep \<and> timer2_id s = 1 \<and> timer3_id s = 2 \<and> threads (ts s) = [] \<and>
    timer_lookup (timers (ts s)) 1 = Some (Some Timer2_callback, p2) \<and>
    armed (ts s) 2 = Some \<lparr>k_sival = 1, k_value = ms_to_timespec 2000, k_interval = ms_to_timespec 1500\<rparr>"
proof -
  let ?R = "(tm_step p1 p2)\<^sup>*\<^sup>*"
  have I: "timer_inv (ts s)" if "?R s0 s" for s using tm.reachable_inv [OF assms that] by (simp add: tm_inv_def)
  have M: "?R s0 u" if "?R s0 s" "timers_main (ok_answer tid) p1 p2 s = Some u" "armed (ts s) tid = None" for s u tid
  proof -
    have "tm_step p1 p2 s u" using that(2,3) by (intro tm_step.main [of "ok_answer tid"]) (auto simp: ok_answer_def)
    with that(1) show ?thesis by (rule rtranclp.rtrancl_into_rtrancl)
  qed
  have z: "main_at s0 = TM_Create1" "timer_lookup (timers (ts s0)) = Map.empty" "armed (ts s0) = Map.empty" "threads (ts s0) = []"
    using assms by (auto simp: tm_init_def timer_init_def timer_lookup_def fun_eq_iff)
  have pos: "0 < MAX_TIMERS" "1 < MAX_TIMERS" "2 < MAX_TIMERS" by (simp_all add: MAX_TIMERS_def)
  obtain t1 where t1: "timer_create_with_callback (ok_answer 1) Timer1_callback p1 1000 1000 (ts s0) = (0, t1)"
    "timer_lookup (timers t1) = [0 \<mapsto> (Some Timer1_callback, p1)]" "\<forall>x. x \<noteq> 1 \<longrightarrow> armed t1 x = None" "threads t1 = []"
    using create_ok [OF I [OF rtranclp.rtrancl_refl] pos(1), of 1 Timer1_callback p1 1000 1000] z by auto
  have a1: "armed t1 2 = None" using t1(3) by simp
  define s1 where "s1 = s0\<lparr>ts := t1, main_at := TM_Store1 0\<rparr>"
  have r1: "?R s0 s1" by (rule M [OF rtranclp.rtrancl_refl, of 1]) (simp_all add: timers_main_def z t1(1) s1_def)
  define s2 where "s2 = s1\<lparr>ts := t1\<lparr>ids := (ids t1)(p1 := 0)\<rparr>, main_at := TM_Create2\<rparr>"
  have r2: "?R s0 s2" by (rule M [OF r1, of 2]) (simp_all add: timers_main_def s1_def s2_def a1)
  obtain t3 where t3: "timer_create_with_callback (ok_answer 2) Timer2_callback p2 2000 1500 (ts s2) = (1, t3)"
    "timer_lookup (timers t3) 1 = Some (Some Timer2_callback, p2)" "timer_lookup (timers t3) 0 \<noteq> None" "timer_lookup (timers t3) 2 = None"
    "armed t3 2 = Some \<lparr>k_sival = 1, k_value = ms_to_timespec 2000, k_interval = ms_to_timespec 1500\<rparr>" "\<forall>x. x \<noteq> 1 \<and> x \<noteq> 2 \<longrightarrow> armed t3 x = None" "threads t3 = []"
    using create_ok [OF I [OF r2] pos(2), of 2 Timer2_callback p2 2000 1500] t1 by (auto simp: s2_def)
  have a3: "armed t3 3 = None" using t3(6) by simp
  define s3 where "s3 = s2\<lparr>ts := t3, timer2_id := 1, main_at := TM_Create3\<rparr>"
  have r3: "?R s0 s3" by (rule M [OF r2, of 2]) (use t3(1) a1 in \<open>simp_all add: timers_main_def s2_def s3_def\<close>)
  obtain t4 where t4: "timer_create_with_callback (ok_answer 3) Timer3_callback 0 3000 2000 (ts s3) = (2, t4)"
    "timer_lookup (timers t4) 1 = Some (Some Timer2_callback, p2)" "armed t4 2 = armed t3 2" "threads t4 = []"
  proof -
    have "timer_lookup (timers (ts s3)) j \<noteq> None" if "j < 2" for j
      using that t3(2,3) by (cases "j = 0") (auto simp: s3_def less_2_cases_iff)
    from create_ok [OF I [OF r3] pos(3) _ this, of 3 Timer3_callback 0 3000 2000] show thesis using that t3 by (auto simp: s3_def)
  qed
  define s4 where "s4 = s3\<lparr>ts := t4, timer3_id := 2, main_at := TM_Sleep\<rparr>"
  have r4: "?R s0 s4" by (rule M [OF r3, of 3]) (use t4(1) a3 in \<open>simp_all add: timers_main_def s3_def s4_def\<close>)
  show ?thesis using r4 t4 t3(5) by (intro exI [of _ s4]) (simp add: s4_def s3_def)
qed

text \<open>A run in which the second timer expires, and its thread is still to call the callback when \<^verbatim>\<open>main\<close> has freed the message.\<close>

lemma freed_message_run:
  assumes "tm_init s0"
  shows "\<exists>s i. (tm_step p1 p2)\<^sup>*\<^sup>* s0 s \<and> p2 \<in> freed s \<and> main_at s = TM_Cleanup \<and> threads (ts s) = [Starting i] \<and>
    callback (timers (ts s) ! i) = Some Timer2_callback \<and> user_data (timers (ts s) ! i) = p2"
proof -
  let ?R = "(tm_step p1 p2)\<^sup>*\<^sup>*"
  obtain s4 where r4: "?R s0 s4" and s4: "main_at s4 = TM_Sleep" "timer2_id s4 = 1" "timer3_id s4 = 2" "threads (ts s4) = []"
    "timer_lookup (timers (ts s4)) 1 = Some (Some Timer2_callback, p2)"
    "armed (ts s4) 2 = Some \<lparr>k_sival = 1, k_value = ms_to_timespec 2000, k_interval = ms_to_timespec 1500\<rparr>"
    using three_timers_run [OF assms, of p1 p2] by blast
  define t4 where "t4 = ts s4"
  have pos: "1 < MAX_TIMERS" by (simp add: MAX_TIMERS_def)
  have "timer_inv t4" using tm.reachable_inv [OF assms r4] by (simp add: tm_inv_def t4_def)
  have len: "length (timers t4) = MAX_TIMERS" using timer_invD(1) \<open>timer_inv t4\<close> by blast
  have l4: "active (timers t4 ! 1)" "callback (timers t4 ! 1) = Some Timer2_callback" "user_data (timers t4 ! 1) = p2"
    using s4(5) by (auto simp: t4_def timer_lookup_def split: if_splits)
  define t5 where "t5 = timer_handler True 1 t4"
  have t5: "threads t5 = [Starting 1]" "length (timers t5) = MAX_TIMERS" "callback (timers t5 ! 1) = Some Timer2_callback" "user_data (timers t5 ! 1) = p2"
    using timer_handler_active [OF pos l4(1), of True] l4 s4(4) len pos by (auto simp: t5_def t4_def Let_def)
  define s5 where "s5 = s4\<lparr>ts := t5\<rparr>"
  have "tm_step p1 p2 s4 s5"
    using tm_step.expire [of s4 2 _ p1 p2 True] s4(6) ms_nonzero by (simp add: s5_def t5_def t4_def)
  then have r5: "?R s0 s5" using r4 by (simp add: rtranclp.rtrancl_into_rtrancl)
  have N: "?R s0 v" if "?R s0 u" "timers_main \<lparr>sigaction_ok = True, timer_create_ret = None, settime_ok = True\<rparr> p1 p2 u = Some v" for u v
    by (rule rtranclp.rtrancl_into_rtrancl [OF that(1)]) (rule tm_step.main [OF _ that(2)], simp)
  define s6 where "s6 = s5\<lparr>main_at := TM_Delete2\<rparr>"
  have r6: "?R s0 s6" by (rule N [OF r5]) (simp add: timers_main_def s5_def s4 s6_def)
  define t7 where "t7 = snd (timer_delete_with_callback 1 t5)"
  define s7 where "s7 = s6\<lparr>ts := t7, main_at := TM_Delete3\<rparr>"
  have r7: "?R s0 s7" by (rule N [OF r6]) (simp add: timers_main_def s6_def s5_def s4 s7_def t7_def)
  define t8 where "t8 = snd (timer_delete_with_callback 2 t7)"
  define s8 where "s8 = s7\<lparr>ts := t8, main_at := TM_Free\<rparr>"
  have r8: "?R s0 s8" by (rule N [OF r7]) (simp add: timers_main_def s7_def s6_def s5_def s4 s8_def t8_def)
  define s9 where "s9 = s8\<lparr>freed := insert p2 (freed s8), main_at := TM_Cleanup\<rparr>"
  have r9: "?R s0 s9" by (rule N [OF r8]) (simp add: timers_main_def s8_def s9_def)
  have d: "callback (timers (snd (timer_delete_with_callback i t)) ! 1) = callback (timers t ! 1) \<and>
      user_data (timers (snd (timer_delete_with_callback i t)) ! 1) = user_data (timers t ! 1) \<and>
      threads (snd (timer_delete_with_callback i t)) = threads t \<and> length (timers (snd (timer_delete_with_callback i t))) = length (timers t)"
    if "length (timers t) = MAX_TIMERS" for i t
    using that pos by (cases "nat i = 1") (auto simp: timer_delete_with_callback_def Let_def)
  have "threads t8 = [Starting 1]" "callback (timers t8 ! 1) = Some Timer2_callback" "user_data (timers t8 ! 1) = p2"
    using d [of t5 1] d [of t7 2] t5 by (simp_all add: t8_def t7_def)
  with r9 show ?thesis by (intro exI [of _ s9] exI [of _ 1]) (simp add: s9_def s8_def)
qed



end
