(* ===== verification/EventLoop.thy ===== *)
theory EventLoop
  imports Prelude
begin

text \<open>
  The event loop of \<^verbatim>\<open>lesson_9/code_examples/01_event_loop/01_event_loop.c\<close>: once per second the tasks whose interval has passed since
  their last run are run, in the order of the array. The log holds the task numbers and times that are printed.
\<close>

record loop_task =
  task_no :: int
  interval :: int
  last_run :: int

definition run_task :: "loop_task \<Rightarrow> int \<Rightarrow> loop_task \<times> (int \<times> int)" where
  "run_task task current_time = (task\<lparr>last_run := current_time\<rparr>, (task_no task, current_time))"

text \<open>The inner loop over the tasks at one time.\<close>

primrec check_tasks :: "int \<Rightarrow> loop_task list \<Rightarrow> loop_task list \<times> (int \<times> int) list" where
  "check_tasks time_elapsed [] = ([], [])"
| "check_tasks time_elapsed (t # ts) =
     (let (ts', log) = check_tasks time_elapsed ts
      in if time_elapsed - last_run t \<ge> interval t
         then (let (t', entry) = run_task t time_elapsed in (t' # ts', entry # log))
         else (t # ts', log))"

function event_loop :: "int \<Rightarrow> loop_task list \<Rightarrow> (int \<times> int) list \<Rightarrow> (int \<times> int) list" where
  "event_loop time_elapsed tasks log =
     (if time_elapsed < 20 then
        (let (tasks', l) = check_tasks time_elapsed tasks in event_loop (time_elapsed + 1) tasks' (log @ l))
      else log)"
  by auto
termination
  by (relation "measure (\<lambda>(t, tasks, log). nat (20 - t))") auto

declare event_loop.simps [simp del]

definition loop_main :: "(int \<times> int) list" where
  "loop_main = event_loop 0
     [\<lparr>task_no = 1, interval = 2, last_run = 0\<rparr>, \<lparr>task_no = 2, interval = 5, last_run = 0\<rparr>, \<lparr>task_no = 3, interval = 3, last_run = 0\<rparr>] []"

section \<open>The schedule\<close>

text \<open>The specification: at every positive time the tasks whose interval divides it.\<close>

definition due :: "loop_task list \<Rightarrow> int \<Rightarrow> (int \<times> int) list" where
  "due tasks t = map (\<lambda>x. (task_no x, t)) (filter (\<lambda>x. 0 < t \<and> interval x dvd t) tasks)"

text \<open>When time \<open>t\<close> is checked, the last run was at the last multiple of the interval before \<open>t\<close>.\<close>

definition up_to_date :: "int \<Rightarrow> loop_task \<Rightarrow> bool" where
  "up_to_date t x \<longleftrightarrow> 0 < interval x \<and> last_run x = (if t = 0 then 0 else (t - 1) div interval x * interval x)"

lemma due_iff:
  assumes "up_to_date t x" "0 \<le> t"
  shows "interval x \<le> t - last_run x \<longleftrightarrow> 0 < t \<and> interval x dvd t"
proof (cases "t = 0")
  case True
  then show ?thesis using assms by (simp add: up_to_date_def)
next
  case False
  let ?p = "interval x"
  have p: "0 < ?p" "0 < t" using assms False by (auto simp: up_to_date_def)
  have l: "t - last_run x = (t - 1) mod ?p + 1"
    using assms(1) False by (simp add: up_to_date_def minus_div_mult_eq_mod [symmetric])
  have b: "0 \<le> (t - 1) mod ?p" "(t - 1) mod ?p < ?p" using p by simp_all
  have "?p dvd t \<longleftrightarrow> ?p dvd (t - 1) mod ?p + 1" by (simp add: dvd_eq_mod_eq_0 mod_add_left_eq)
  also have "\<dots> \<longleftrightarrow> (t - 1) mod ?p + 1 = ?p"
  proof
    assume "?p dvd (t - 1) mod ?p + 1"
    then have "?p \<le> (t - 1) mod ?p + 1" using b(1) by (intro zdvd_imp_le) linarith+
    then show "(t - 1) mod ?p + 1 = ?p" using b(2) by linarith
  qed simp
  finally have "?p dvd t \<longleftrightarrow> (t - 1) mod ?p + 1 = ?p" .
  then show ?thesis using l b(2) p(2) by linarith
qed

lemma up_to_date_next:
  assumes "up_to_date t x" "0 \<le> t"
  shows "up_to_date (t + 1) (if interval x \<le> t - last_run x then x\<lparr>last_run := t\<rparr> else x)"
proof (cases "interval x \<le> t - last_run x")
  case True
  then have "interval x dvd t" using due_iff [OF assms] by simp
  then show ?thesis using True assms by (simp add: up_to_date_def)
next
  case False
  show ?thesis
  proof (cases "t = 0")
    case True
    then show ?thesis using False assms by (simp add: up_to_date_def)
  next
    case t: False
    have p: "0 < interval x" using assms by (simp add: up_to_date_def)
    have nd: "\<not> interval x dvd t" using False t assms due_iff [OF assms] by auto
    have "t div interval x = (t - 1) div interval x"
    proof -
      have "(t - 1) mod interval x + 1 < interval x" using False assms t by (simp add: up_to_date_def minus_div_mult_eq_mod [symmetric])
      moreover have "t = interval x * ((t - 1) div interval x) + ((t - 1) mod interval x + 1)"
        using mult_div_mod_eq [of "interval x" "t - 1"] by linarith
      ultimately show ?thesis using p by (metis Euclidean_Rings.pos_mod_sign add_nonneg_nonneg int_div_pos_eq less_eq_int_code(1) zero_less_one_class.zero_le_one)
    qed
    then show ?thesis using False t assms by (simp add: up_to_date_def)
  qed
qed

lemma check_tasks_due:
  assumes "0 \<le> t" "\<forall>x \<in> set tasks. up_to_date t x"
  shows "snd (check_tasks t tasks) = due tasks t" "\<forall>x \<in> set (fst (check_tasks t tasks)). up_to_date (t + 1) x"
    "map (\<lambda>x. (task_no x, interval x)) (fst (check_tasks t tasks)) = map (\<lambda>x. (task_no x, interval x)) tasks"
  using assms
proof (induction tasks)
  case (Cons x xs)
  obtain ys l where c: "check_tasks t xs = (ys, l)" by fastforce
  note d = due_iff [of t x] up_to_date_next [of t x]
  { case 1 then show ?case using Cons d by (auto simp: c due_def run_task_def) }
  { case 2 then show ?case using Cons d by (auto simp: c run_task_def split: if_splits) }
  { case 3 then show ?case using Cons by (auto simp: c run_task_def) }
qed (simp_all add: due_def)

lemma due_cong: "map (\<lambda>x. (task_no x, interval x)) xs = map (\<lambda>x. (task_no x, interval x)) ys \<Longrightarrow> due xs t = due ys t"
proof (induction xs arbitrary: ys)
  case (Cons x xs)
  then obtain y zs where "ys = y # zs" "task_no x = task_no y" "interval x = interval y"
    "map (\<lambda>x. (task_no x, interval x)) xs = map (\<lambda>x. (task_no x, interval x)) zs" by (cases ys) auto
  with Cons.IH show ?case by (auto simp: due_def)
qed (simp add: due_def)

text \<open>
  The loop runs every task exactly at the positive multiples of its interval below 20 seconds, at each time in the order of
  the array, for any set of tasks with positive intervals that start at time 0.
\<close>

lemma event_loop_schedule:
  assumes "\<forall>x \<in> set tasks. 0 < interval x \<and> last_run x = 0"
  shows "event_loop 0 tasks [] = concat (map (due tasks) [0..19])"
proof -
  have "event_loop t ts log = log @ concat (map (due tasks) [t..19])"
    if "0 \<le> t" "\<forall>x \<in> set ts. up_to_date t x" "map (\<lambda>x. (task_no x, interval x)) ts = map (\<lambda>x. (task_no x, interval x)) tasks" for t ts log
    using that
  proof (induction t ts log rule: event_loop.induct)
    case (1 t ts log)
    show ?case
    proof (cases "t < 20")
      case False
      then show ?thesis by (simp add: event_loop.simps [of t])
    next
      case True
      obtain ts' l where c: "check_tasks t ts = (ts', l)" by fastforce
      note k = check_tasks_due [OF 1(2,3), unfolded c fst_conv snd_conv]
      have "event_loop t ts log = event_loop (t + 1) ts' (log @ l)" using True by (simp add: event_loop.simps [of t] c)
      also have "\<dots> = (log @ l) @ concat (map (due tasks) [t + 1..19])"
        using 1(1) [OF True c [symmetric] refl] 1(2,4) k by simp
      also have "l = due tasks t" using k(1) due_cong [OF 1(4)] by simp
      finally show ?thesis using True by (simp add: upto_rec1)
    qed
  qed
  moreover have "\<forall>x \<in> set tasks. up_to_date 0 x" using assms by (simp add: up_to_date_def)
  ultimately show ?thesis by simp
qed

end
