(* ===== verification/FifoDemo_System.thy ===== *)
theory FifoDemo_System
  imports FifoDemo Transition
begin

text \<open>
  The two processes of \<^verbatim>\<open>lesson_5/code_examples/03_epoll_multi_buffer_fds\<close>: how they open the FIFOs, their epoll loops and
  their exits, with every interleaving of their system calls. Opening a FIFO for writing waits for a reader,
  opening it for reading with \<^verbatim>\<open>O_NONBLOCK\<close> does not; writing to a FIFO nobody has open for reading raises
  \<^verbatim>\<open>SIGPIPE\<close>, which ends the process, so the branch for a failing \<^verbatim>\<open>writev\<close> is never taken. The \<^verbatim>\<open>close\<close> calls before an exit are one step. A hang-up is reported by epoll with or without \<^verbatim>\<open>EPOLLIN\<close> depending on the kernel. The
  results show what the composition guarantees (no byte is lost or reordered, opening does not deadlock while the
  writer lives) and what it does not: the receiver never returns, and it is stuck for good when the writer left before the
  response FIFOs were open on both sides.
\<close>

record fenv =
  w_open_ok :: "nat \<Rightarrow> bool"
  w_resp_ok :: "nat \<Rightarrow> bool"
  w_epoll_ok :: bool
  r_open_ok :: "nat \<Rightarrow> bool"
  r_resp_ok :: "nat \<Rightarrow> bool"
  fopen_ok :: bool
  r_epoll_ok :: bool
  r_ctl_ok :: "nat \<Rightarrow> bool"
  poll_err :: bool
  eof_in :: bool
  cap :: nat
  stamp :: "nat \<Rightarrow> string"

text \<open>What \<^verbatim>\<open>epoll_wait\<close> answers: the ready descriptors, the end of the timeout, an interruption or an error.\<close>

datatype poll_ans = P_ready "nat list" | P_timeout | P_eintr | P_error

text \<open>The process has closed its FIFOs.\<close>

fun w_gone :: "wpc \<Rightarrow> bool" where
  "w_gone (WExit b) = True"
| "w_gone WKilled = True"
| "w_gone _ = False"

fun r_gone :: "rpc \<Rightarrow> bool" where
  "r_gone RWait = True"
| "r_gone (RExit b) = True"
| "r_gone RKilled = True"
| "r_gone _ = False"

text \<open>A registered FIFO is ready when it holds data or when its writing process has closed it.\<close>

definition w_ready :: "fifos \<Rightarrow> nat \<Rightarrow> bool" where
  "w_ready s f \<longleftrightarrow> f \<in> w_reg s \<and> (resp s f \<noteq> [] \<or> r_gone (rp s))"

definition r_ready :: "fifos \<Rightarrow> nat \<Rightarrow> bool" where
  "r_ready s f \<longleftrightarrow> f \<in> r_reg s \<and> (fifo s f \<noteq> [] \<or> w_gone (wp s))"

text \<open>The events of ready descriptors, with the flag \<^verbatim>\<open>EPOLLIN\<close>.\<close>

definition events :: "fenv \<Rightarrow> (nat \<Rightarrow> string) \<Rightarrow> nat list \<Rightarrow> (nat \<times> bool) list" where
  "events env q fds = map (\<lambda>f. (f, q f \<noteq> [] \<or> eof_in env)) fds"

text \<open>The end of a process closes its descriptors.\<close>

definition w_end :: "wpc \<Rightarrow> fifos \<Rightarrow> fifos" where
  "w_end p s = s\<lparr>fifo_w := {}, resp_r := {}, w_reg := {}, wp := p\<rparr>"

definition r_end :: "rpc \<Rightarrow> fifos \<Rightarrow> fifos" where
  "r_end p s = s\<lparr>fifo_r := {}, resp_w := {}, r_reg := {}, rp := p\<rparr>"

definition writev_fifo :: "fenv \<Rightarrow> nat \<Rightarrow> string \<Rightarrow> wpc \<Rightarrow> fifos \<Rightarrow> fifos option" where
  "writev_fifo env f d next s =
     (if f \<notin> fifo_r s then Some (w_end WKilled s)
      else if length (fifo s f) + length d \<le> cap env then
        Some (s\<lparr>fifo := (fifo s)(f := fifo s f @ d), sent := (sent s)(f := sent s f @ d), wp := next\<rparr>)
      else None)"

definition writev_resp :: "fenv \<Rightarrow> nat \<Rightarrow> string \<Rightarrow> rpc \<Rightarrow> fifos \<Rightarrow> fifos option" where
  "writev_resp env f d next s =
     (if f \<notin> resp_r s then Some (r_end RKilled s)
      else if length (resp s f) + length d \<le> cap env then Some (s\<lparr>resp := (resp s)(f := resp s f @ d), rp := next\<rparr>)
      else None)"

definition writer_step :: "fenv \<Rightarrow> poll_ans \<Rightarrow> char list \<Rightarrow> char list \<Rightarrow> fifos \<Rightarrow> fifos option" where
  "writer_step env ans ts_buf msg_buf s =
     (case wp s of
        WOpen1 \<Rightarrow>
          (if \<not> w_open_ok env 1 then Some (s\<lparr>wp := WOpen2 False\<rparr>)
           else if 1 \<in> fifo_r s then Some (s\<lparr>fifo_w := insert 1 (fifo_w s), wp := WOpen2 True\<rparr>) else None)
      | WOpen2 ok1 \<Rightarrow>
          (if \<not> w_open_ok env 2 then Some (w_end (WExit False) s)
           else if 2 \<in> fifo_r s then
             Some (if ok1 then s\<lparr>fifo_w := insert 2 (fifo_w s), wp := WResp1\<rparr> else w_end (WExit False) s)
           else None)
      | WResp1 \<Rightarrow>
          Some (if w_resp_ok env 1 then s\<lparr>resp_r := insert 1 (resp_r s), wp := WResp2 True\<rparr> else s\<lparr>wp := WResp2 False\<rparr>)
      | WResp2 ok1 \<Rightarrow>
          Some (if ok1 \<and> w_resp_ok env 2 then s\<lparr>resp_r := insert 2 (resp_r s), wp := WEpoll\<rparr> else w_end (WExit False) s)
      | WEpoll \<Rightarrow> Some (if w_epoll_ok env then s\<lparr>w_reg := {1, 2}, wp := WLoop\<rparr> else w_end (WExit False) s)
      | WLoop \<Rightarrow>
          (case input s of
             [] \<Rightarrow> Some (s\<lparr>wp := WClose\<rparr>)
           | line # lines \<Rightarrow>
               (case writer_line (stamp env (nmsg s)) line of
                  None \<Rightarrow> Some (s\<lparr>input := lines, wp := WClose\<rparr>)
                | Some d \<Rightarrow> Some (s\<lparr>input := lines, nmsg := nmsg s + 1, wp := WSend1 d\<rparr>)))
      | WSend1 d \<Rightarrow> writev_fifo env 1 d (WSend2 d) s
      | WSend2 d \<Rightarrow> writev_fifo env 2 d WPoll s
      | WPoll \<Rightarrow>
          (case ans of
             P_ready fds \<Rightarrow>
               (if fds \<noteq> [] \<and> distinct fds \<and> list_all (w_ready s) fds
                then Some (s\<lparr>wp := WRead (events env (resp s) fds)\<rparr>) else None)
           | P_timeout \<Rightarrow> (if w_ready s 1 \<or> w_ready s 2 then None else Some (s\<lparr>wp := WLoop\<rparr>))
           | P_eintr \<Rightarrow> Some (s\<lparr>wp := WLoop\<rparr>)
           | P_error \<Rightarrow> (if poll_err env then Some (s\<lparr>wp := WClose\<rparr>) else None))
      | WRead [] \<Rightarrow> Some (s\<lparr>wp := WLoop\<rparr>)
      | WRead ((f, pollin) # rest) \<Rightarrow>
          Some (if pollin then writer_response ts_buf msg_buf f rest s else s\<lparr>wp := WRead rest\<rparr>)
      | WClose \<Rightarrow> Some (w_end (WExit True) s)
      | WExit ok \<Rightarrow> None
      | WKilled \<Rightarrow> None)"

definition receiver_step :: "fenv \<Rightarrow> poll_ans \<Rightarrow> char list \<Rightarrow> char list \<Rightarrow> fifos \<Rightarrow> fifos option" where
  "receiver_step env ans ts_buf msg_buf s =
     (case rp s of
        ROpen1 \<Rightarrow>
          Some (if r_open_ok env 1 then s\<lparr>fifo_r := insert 1 (fifo_r s), rp := ROpen2 True\<rparr> else s\<lparr>rp := ROpen2 False\<rparr>)
      | ROpen2 ok1 \<Rightarrow>
          Some (if ok1 \<and> r_open_ok env 2 then s\<lparr>fifo_r := insert 2 (fifo_r s), rp := RResp1\<rparr> else r_end (RExit False) s)
      | RResp1 \<Rightarrow>
          (if \<not> r_resp_ok env 1 then Some (s\<lparr>rp := RResp2 False\<rparr>)
           else if 1 \<in> resp_r s then Some (s\<lparr>resp_w := insert 1 (resp_w s), rp := RResp2 True\<rparr>) else None)
      | RResp2 ok1 \<Rightarrow>
          (if \<not> r_resp_ok env 2 then Some (r_end (RExit False) s)
           else if 2 \<in> resp_r s then
             Some (if ok1 then s\<lparr>resp_w := insert 2 (resp_w s), rp := RFopen\<rparr> else r_end (RExit False) s)
           else None)
      | RFopen \<Rightarrow> Some (if fopen_ok env then s\<lparr>rp := REpoll\<rparr> else r_end (RExit False) s)
      | REpoll \<Rightarrow>
          Some (if r_epoll_ok env then s\<lparr>r_reg := set (filter (r_ctl_ok env) [1, 2]), rp := RPoll\<rparr> else r_end (RExit False) s)
      | RPoll \<Rightarrow>
          (case ans of
             P_ready fds \<Rightarrow>
               (if fds \<noteq> [] \<and> distinct fds \<and> list_all (r_ready s) fds
                then Some (s\<lparr>rp := RRead (events env (fifo s) fds)\<rparr>) else None)
           | P_timeout \<Rightarrow> None
           | P_eintr \<Rightarrow> Some s
           | P_error \<Rightarrow> (if poll_err env then Some (s\<lparr>rp := RClose\<rparr>) else None))
      | RRead [] \<Rightarrow> Some (s\<lparr>rp := RPoll\<rparr>)
      | RRead ((f, pollin) # rest) \<Rightarrow>
          Some (if pollin then receiver_event ts_buf msg_buf f rest s else s\<lparr>rp := RRead rest\<rparr>)
      | REcho f d rest \<Rightarrow> writev_resp env f d (RRead rest) s
      | RClose \<Rightarrow> Some (r_end RWait s)
      | RWait \<Rightarrow> (if w_gone (wp s) then Some (s\<lparr>rp := RExit True\<rparr>) else None)
      | RExit ok \<Rightarrow> None
      | RKilled \<Rightarrow> None)"

text \<open>The state after \<^verbatim>\<open>create_fifos\<close>, whose result \<^verbatim>\<open>main\<close> ignores, and \<^verbatim>\<open>fork\<close>.\<close>

definition demo_main :: "bool \<Rightarrow> string list \<Rightarrow> bool + fifos" where
  "demo_main fork_ok lines =
     (if \<not> fork_ok then Inl False
      else Inr \<lparr>fifo = \<lambda>_. [], resp = \<lambda>_. [], fifo_w = {}, fifo_r = {}, resp_w = {}, resp_r = {}, w_reg = {}, r_reg = {},
                input = lines, nmsg = 0, received_log = [], shown = [], wp = WOpen1, rp = ROpen1,
                sent = \<lambda>_. [], got = \<lambda>_. []\<rparr>)"

inductive demo_step :: "fenv \<Rightarrow> fifos \<Rightarrow> fifos \<Rightarrow> bool" for env where
  writer: "writer_step env ans ts_buf msg_buf s = Some t \<Longrightarrow> length ts_buf = 32 \<Longrightarrow> length msg_buf = BUF_SIZE \<Longrightarrow> demo_step env s t"
| receiver: "receiver_step env ans ts_buf msg_buf s = Some t \<Longrightarrow> length ts_buf = 32 \<Longrightarrow> length msg_buf = BUF_SIZE \<Longrightarrow> demo_step env s t"


section \<open>No byte is lost or reordered\<close>

lemma readv2_split:
  assumes "readv2 ts_buf msg_buf q = (n, ts, msg, left)"
  shows "take n q @ left = q" "0 < n \<longleftrightarrow> q \<noteq> []" "length left \<le> length q"
  using assms by (auto simp: readv2_def Let_def BUF_SIZE_def min_def)

definition stream_inv :: "fenv \<Rightarrow> fifos \<Rightarrow> bool" where
  "stream_inv env s \<longleftrightarrow> (\<forall>f. got s f @ fifo s f = sent s f \<and> length (fifo s f) \<le> cap env \<and> length (resp s f) \<le> cap env) \<and>
     (\<not> poll_err env \<longrightarrow> rp s \<notin> {RClose, RWait, RExit True})"

lemma stream_inv_cong:
  assumes "stream_inv env s" "fifo t = fifo s" "resp t = resp s" "sent t = sent s" "got t = got s" "rp t = rp s"
  shows "stream_inv env t"
  using assms by (simp add: stream_inv_def)

lemma stream_inv_rp:
  assumes "stream_inv env s" "fifo t = fifo s" "resp t = resp s" "sent t = sent s" "got t = got s"
    "\<not> poll_err env \<Longrightarrow> rp t \<notin> {RClose, RWait, RExit True}"
  shows "stream_inv env t"
  using assms by (simp add: stream_inv_def)

lemma writer_response_stream:
  assumes "stream_inv env s"
  shows "stream_inv env (writer_response ts_buf msg_buf f rest s)"
proof -
  obtain n ts msg left where r: "readv2 ts_buf msg_buf (resp s f) = (n, ts, msg, left)" by (metis surj_pair)
  from readv2_split(3) [OF r] assms have "length left \<le> cap env" by (auto simp: stream_inv_def intro: le_trans)
  with assms show ?thesis by (simp add: writer_response_def r stream_inv_def)
qed

lemma receiver_event_stream:
  assumes "stream_inv env s"
  shows "stream_inv env (receiver_event ts_buf msg_buf f rest s)"
proof -
  obtain n ts msg left where r: "readv2 ts_buf msg_buf (fifo s f) = (n, ts, msg, left)" by (metis surj_pair)
  from readv2_split(3) [OF r] assms have "length left \<le> cap env" by (auto simp: stream_inv_def intro: le_trans)
  with assms readv2_split(1) [OF r] show ?thesis by (simp add: receiver_event_def r stream_inv_def)
qed

lemma writer_step_stream:
  assumes "stream_inv env s" "writer_step env ans ts_buf msg_buf s = Some t"
  shows "stream_inv env t"
proof (cases "wp s")
  case (WSend1 d)
  then show ?thesis using assms
    by (auto simp: writer_step_def writev_fifo_def w_end_def stream_inv_def split: if_splits)
next
  case (WSend2 d)
  then show ?thesis using assms
    by (auto simp: writer_step_def writev_fifo_def w_end_def stream_inv_def split: if_splits)
next
  case (WRead fs)
  then show ?thesis using assms writer_response_stream [OF assms(1)]
    by (auto simp: writer_step_def split: list.splits if_splits prod.splits intro: stream_inv_cong)
qed (use assms in \<open>auto simp: writer_step_def w_end_def split: if_splits list.splits option.splits poll_ans.splits intro: stream_inv_cong\<close>)

lemma receiver_step_stream:
  assumes "stream_inv env s" "receiver_step env ans ts_buf msg_buf s = Some t"
  shows "stream_inv env t"
proof (cases "rp s")
  case (REcho f d rest)
  then show ?thesis using assms
    by (auto simp: receiver_step_def writev_resp_def r_end_def stream_inv_def split: if_splits)
next
  case (RRead fs)
  then show ?thesis using assms receiver_event_stream [OF assms(1)]
    by (auto simp: receiver_step_def split: list.splits if_splits prod.splits intro: stream_inv_rp)
next
  case RClose
  then show ?thesis using assms by (auto simp: receiver_step_def r_end_def stream_inv_def)
next
  case RWait
  then show ?thesis using assms by (auto simp: receiver_step_def r_end_def stream_inv_def split: if_splits)
qed (use assms in \<open>auto simp: receiver_step_def r_end_def split: if_splits poll_ans.splits intro: stream_inv_rp\<close>)

interpretation fd: invariant_system "\<lambda>s. \<exists>lines. demo_main True lines = Inr s" "demo_step env" "stream_inv env" for env
proof
  show "stream_inv env s" if "\<exists>lines. demo_main True lines = Inr s" for s
    using that by (auto simp: demo_main_def stream_inv_def)
  show "stream_inv env t" if "stream_inv env s" "demo_step env s t" for s t
    using that(2,1) by cases (auto intro: writer_step_stream receiver_step_stream)
qed


section \<open>Opening the FIFOs\<close>

definition calls_ok :: "fenv \<Rightarrow> bool" where
  "calls_ok env \<longleftrightarrow> (\<forall>f \<in> {1, 2}. w_open_ok env f \<and> w_resp_ok env f \<and> r_open_ok env f \<and> r_resp_ok env f) \<and> w_epoll_ok env"

fun at_open :: "rpc \<Rightarrow> bool" where
  "at_open ROpen1 = True"
| "at_open (ROpen2 b) = True"
| "at_open RResp1 = True"
| "at_open (RResp2 b) = True"
| "at_open _ = False"

fun fifo_ends :: "rpc \<Rightarrow> nat set" where
  "fifo_ends ROpen1 = {}"
| "fifo_ends (ROpen2 b) = {1}"
| "fifo_ends _ = {1, 2}"

fun resp_ends :: "wpc \<Rightarrow> nat set" where
  "resp_ends WOpen1 = {}"
| "resp_ends (WOpen2 b) = {}"
| "resp_ends WResp1 = {}"
| "resp_ends (WResp2 b) = {1}"
| "resp_ends _ = {1, 2}"

fun w_first_ok :: "wpc \<Rightarrow> bool" where
  "w_first_ok (WOpen2 b) = b"
| "w_first_ok (WResp2 b) = b"
| "w_first_ok _ = True"

fun r_first_ok :: "rpc \<Rightarrow> bool" where
  "r_first_ok (ROpen2 b) = b"
| "r_first_ok (RResp2 b) = b"
| "r_first_ok _ = True"

text \<open>
  While the receiver opens its FIFOs no response exists, the writer reads none, and each side has opened what its position says.
\<close>

definition open_inv :: "fifos \<Rightarrow> bool" where
  "open_inv s \<longleftrightarrow> at_open (rp s) \<longrightarrow>
     fifo_ends (rp s) \<subseteq> fifo_r s \<and> w_first_ok (wp s) \<and> r_first_ok (rp s) \<and> resp s = (\<lambda>_. []) \<and> (\<forall>fs. wp s \<noteq> WRead fs) \<and>
     (w_gone (wp s) \<or> resp_ends (wp s) \<subseteq> resp_r s)"

lemma open_invD:
  assumes "open_inv s" "at_open (rp s)"
  shows "fifo_ends (rp s) \<subseteq> fifo_r s" "w_first_ok (wp s)" "r_first_ok (rp s)" "resp s = (\<lambda>_. [])" "\<And>fs. wp s \<noteq> WRead fs"
    "w_gone (wp s) \<or> resp_ends (wp s) \<subseteq> resp_r s"
  using assms by (auto simp: open_inv_def)

lemma calls_okD:
  assumes "calls_ok env"
  shows "w_open_ok env 1" "w_open_ok env 2" "w_resp_ok env 1" "w_resp_ok env 2" "r_open_ok env 1" "r_open_ok env 2"
    "r_resp_ok env 1" "r_resp_ok env 2" "w_epoll_ok env"
  using assms by (simp_all add: calls_ok_def)

lemma writer_response_rp: "rp (writer_response ts_buf msg_buf f rest s) = rp s"
  by (simp add: writer_response_def Let_def split: prod.split)

lemma receiver_event_rp: "\<not> at_open (rp (receiver_event ts_buf msg_buf f rest s))"
  by (simp add: receiver_event_def Let_def split: prod.split)

lemma writer_step_rp:
  assumes "writer_step env ans ts_buf msg_buf s = Some t"
  shows "rp t = rp s"
proof (cases "wp s")
  case (WRead fs)
  then show ?thesis using assms
    by (cases fs) (auto simp: writer_step_def writer_response_rp split: prod.splits if_splits)
qed (use assms in \<open>auto simp: writer_step_def w_end_def writev_fifo_def split: if_splits list.splits option.splits poll_ans.splits\<close>)

lemma receiver_step_at_open:
  assumes "receiver_step env ans ts_buf msg_buf s = Some t" "\<not> at_open (rp s)"
  shows "\<not> at_open (rp t)"
proof (cases "rp s")
  case (RRead fs)
  then show ?thesis using assms
    by (cases fs) (auto simp: receiver_step_def receiver_event_rp split: prod.splits if_splits)
qed (use assms in \<open>auto simp: receiver_step_def r_end_def writev_resp_def split: if_splits poll_ans.splits\<close>)

lemma writer_step_open:
  assumes "calls_ok env" "open_inv s" "writer_step env ans ts_buf msg_buf s = Some t"
  shows "open_inv t"
proof (cases "at_open (rp s)")
  case False
  with writer_step_rp [OF assms(3)] show ?thesis by (simp add: open_inv_def)
next
  case True
  have nr: "\<not> w_ready s f" for f
    using True assms(2) by (cases "rp s") (auto simp: w_ready_def open_inv_def)
  note i = open_invD [OF assms(2) True] and ok = calls_okD [OF assms(1)]
  show ?thesis
  proof (cases "wp s")
    case WPoll
    then show ?thesis using i nr assms(3)
      by (cases ans) (auto simp: writer_step_def open_inv_def list_all_iff neq_Nil_conv split: if_splits)
  qed (use i ok assms(3) in \<open>auto simp: writer_step_def w_end_def writev_fifo_def open_inv_def
      split: if_splits list.splits option.splits\<close>)
qed

lemma receiver_step_open:
  assumes "calls_ok env" "open_inv s" "receiver_step env ans ts_buf msg_buf s = Some t"
  shows "open_inv t"
proof (cases "at_open (rp s)")
  case False
  with receiver_step_at_open [OF assms(3)] show ?thesis by (simp add: open_inv_def)
next
  case True
  from open_invD [OF assms(2) True] calls_okD [OF assms(1)] True assms(3) show ?thesis
    by (cases "rp s") (auto simp: receiver_step_def r_end_def open_inv_def split: if_splits)
qed

text \<open>While the receiver opens its FIFOs the system only gets stuck after the writer has gone.\<close>

lemma open_progress:
  assumes ok: "calls_ok env" and inv: "open_inv s" and op: "at_open (rp s)" and stuck: "\<And>t. \<not> demo_step env s t"
  shows "w_gone (wp s)"
proof (rule ccontr)
  assume alive: "\<not> w_gone (wp s)"
  let ?b = "replicate 32 NUL" and ?m = "replicate BUF_SIZE NUL"
  have w: "writer_step env P_eintr ?b ?m s = None"
    using stuck demo_step.writer [of env P_eintr ?b ?m s] by (cases "writer_step env P_eintr ?b ?m s") auto
  have r: "receiver_step env P_eintr ?b ?m s = None"
    using stuck demo_step.receiver [of env P_eintr ?b ?m s] by (cases "receiver_step env P_eintr ?b ?m s") auto
  from r op inv alive ok have "rp s = RResp1 \<or> (\<exists>b. rp s = RResp2 b)" "resp_ends (wp s) \<noteq> {1, 2}"
    by (cases "rp s"; auto simp: receiver_step_def open_inv_def calls_ok_def split: if_splits)+
  with w inv op ok show False
    by (cases "wp s") (auto simp: writer_step_def open_inv_def calls_ok_def split: if_splits)
qed

interpretation fo: invariant_system "\<lambda>s. calls_ok env \<and> (\<exists>lines. demo_main True lines = Inr s)" "demo_step env"
  "\<lambda>s. calls_ok env \<and> open_inv s" for env
proof
  show "calls_ok env \<and> open_inv s" if "calls_ok env \<and> (\<exists>lines. demo_main True lines = Inr s)" for s
    using that by (auto simp: demo_main_def open_inv_def)
  show "calls_ok env \<and> open_inv t" if "calls_ok env \<and> open_inv s" "demo_step env s t" for s t
    using that(2,1) by cases (auto intro: writer_step_open receiver_step_open)
qed

section \<open>A run in which the writer leaves early\<close>

text \<open>Steps of the writer (\<open>True\<close>) and the receiver that depend on no answer of epoll and no buffer.\<close>

fun demo_exec :: "fenv \<Rightarrow> bool list \<Rightarrow> fifos \<Rightarrow> fifos option" where
  "demo_exec env [] s = Some s"
| "demo_exec env (w # ws) s =
     (case (if w then writer_step else receiver_step) env P_timeout (replicate 32 NUL) (replicate BUF_SIZE NUL) s of
        None \<Rightarrow> None | Some t \<Rightarrow> demo_exec env ws t)"

lemma demo_exec_steps: "demo_exec env ws s = Some t \<Longrightarrow> (demo_step env)\<^sup>*\<^sup>* s t"
proof (induction ws arbitrary: s)
  case (Cons w ws)
  then obtain u where u: "(if w then writer_step else receiver_step) env P_timeout (replicate 32 NUL) (replicate BUF_SIZE NUL) s = Some u"
    "demo_exec env ws u = Some t" by (auto split: option.splits)
  then have "demo_step env s u"
    by (cases w) (auto intro: demo_step.writer [of env P_timeout "replicate 32 NUL" "replicate BUF_SIZE NUL"]
        demo_step.receiver [of env P_timeout "replicate 32 NUL" "replicate BUF_SIZE NUL"])
  then show ?case using Cons.IH [OF u(2)] by (rule converse_rtranclp_into_rtranclp)
qed simp

lemma early_exit_run:
  assumes "calls_ok env"
  shows "\<exists>s u. demo_main True [''exit''] = Inr s \<and> (demo_step env)\<^sup>*\<^sup>* s u \<and> wp u = WExit True \<and> rp u = RResp1 \<and> (\<forall>v. \<not> demo_step env u v)"
proof -
  obtain s where s: "demo_main True [''exit''] = Inr s" by (simp add: demo_main_def)
  then have s_eq: "s = projr (demo_main True [''exit''])" by simp
  let ?ws = "[False, False, True, True, True, True, True, True, True]"
  have "\<exists>u. demo_exec env ?ws s = Some u \<and> wp u = WExit True \<and> rp u = RResp1 \<and> resp_r u = {}"
    unfolding s_eq using calls_okD [OF assms]
    by (simp add: demo_main_def writer_step_def receiver_step_def writer_line_def chop_newline_def w_end_def)
  then obtain u where e: "demo_exec env ?ws s = Some u" "wp u = WExit True" "rp u = RResp1" "resp_r u = {}" by blast
  have "\<not> demo_step env u v" for v
    using e assms by (auto simp: demo_step.simps writer_step_def receiver_step_def calls_ok_def)
  with s e demo_exec_steps [OF e(1)] show ?thesis by blast
qed



end
