(* ===== verification/Daemons.thy ===== *)
theory Daemons
  imports Slots
begin

text \<open>
  The daemons of lesson 7, \<^verbatim>\<open>04_deamon_example.c\<close> and \<^verbatim>\<open>06_data_collection_deamon.c\<close>: the process is detached by \<^verbatim>\<open>fork\<close>,
  \<^verbatim>\<open>setsid\<close> and the redirection of the standard descriptors, then a loop logs until a signal ends it. The descriptor
  table is an array of open files, in which \<^verbatim>\<open>open\<close> takes the lowest free entry (the table of \<open>Slots\<close>).
\<close>

datatype sig = SIGHUP | SIGTERM | SIGCHLD
datatype disposition = Sig_default | Sig_ignore | Sig_handler
datatype fork_ans = Fork_fail | Fork_parent | Fork_child nat

record dproc =
  pid :: nat
  sid :: nat
  cwd :: string
  mask :: nat
  fds :: "string option list"
  disp :: "sig \<Rightarrow> disposition"
  syslog :: "string list"

text \<open>A process that has ended, with success or not, or one that goes on.\<close>

datatype outcome = Exit bool dproc | Running dproc

definition open_null :: "bool \<Rightarrow> string option list \<Rightarrow> string option list" where
  "open_null ok tab =
     (if ok then (case array_alloc ''/dev/null'' tab of None \<Rightarrow> tab | Some (i, tab') \<Rightarrow> tab') else tab)"

definition redirect :: "bool \<times> bool \<times> bool \<Rightarrow> string option list \<Rightarrow> string option list" where
  "redirect oks tab =
     (case oks of (a, b, c) \<Rightarrow> open_null c (open_null b (open_null a (tab[0 := None, 1 := None, 2 := None]))))"

section \<open>The example daemon\<close>

definition log_line :: "string \<Rightarrow> dproc \<Rightarrow> dproc" where
  "log_line l s = s\<lparr>syslog := syslog s @ [l]\<rparr>"

definition signal_handler :: "sig \<Rightarrow> dproc \<Rightarrow> outcome" where
  "signal_handler sg s =
     (case sg of
        SIGHUP \<Rightarrow> Running (log_line ''Daemon received SIGHUP. Reloading configuration.'' s)
      | SIGTERM \<Rightarrow> Exit True (log_line ''Daemon received SIGTERM. Terminating.'' s)
      | SIGCHLD \<Rightarrow> Running s)"

text \<open>The arrival of a signal: the default action of \<^verbatim>\<open>SIGHUP\<close> and \<^verbatim>\<open>SIGTERM\<close> ends the process, that of \<^verbatim>\<open>SIGCHLD\<close> does nothing.\<close>

definition deliver :: "sig \<Rightarrow> dproc \<Rightarrow> outcome" where
  "deliver sg s =
     (case disp s sg of
        Sig_handler \<Rightarrow> signal_handler sg s
      | Sig_ignore \<Rightarrow> Running s
      | Sig_default \<Rightarrow> if sg = SIGCHLD then Running s else Exit False s)"

definition daemon_start :: "fork_ans \<Rightarrow> bool \<Rightarrow> fork_ans \<Rightarrow> bool \<times> bool \<times> bool \<Rightarrow> dproc \<Rightarrow> outcome" where
  "daemon_start fork1 setsid_ok fork2 oks s =
     (case fork1 of
        Fork_fail \<Rightarrow> Exit False s
      | Fork_parent \<Rightarrow> Exit True s
      | Fork_child p1 \<Rightarrow>
          (let s1 = s\<lparr>pid := p1\<rparr>
           in if \<not> setsid_ok then Exit False s1
              else
                (let s2 = s1\<lparr>sid := pid s1, disp := (disp s1)(SIGCHLD := Sig_ignore, SIGHUP := Sig_handler, SIGTERM := Sig_handler)\<rparr>
                 in case fork2 of
                      Fork_fail \<Rightarrow> Exit False s2
                    | Fork_parent \<Rightarrow> Exit True s2
                    | Fork_child p2 \<Rightarrow>
                        Running (log_line ''Daemon started''
                          (s2\<lparr>pid := p2, cwd := ''/'', mask := 0, fds := redirect oks (fds s2)\<rparr>)))))"

text \<open>The loop of the daemon: a minute has passed (\<open>None\<close>), or a signal arrives.\<close>

fun daemon_loop :: "sig option list \<Rightarrow> dproc \<Rightarrow> outcome" where
  "daemon_loop [] s = Running s"
| "daemon_loop (None # es) s = daemon_loop es (log_line ''Daemon is running...'' s)"
| "daemon_loop (Some sg # es) s =
     (case deliver sg s of Exit b t \<Rightarrow> Exit b t | Running t \<Rightarrow> daemon_loop es t)"

section \<open>The temperature daemon\<close>

text \<open>
  What reading the temperature file gives: it does not open, it holds a number, or it holds none, which leaves the variable
  with the value it happened to have.
\<close>

datatype temp_ans = T_noopen | T_value int | T_unparsed int

definition read_cpu_temp :: "temp_ans \<Rightarrow> int" where
  "read_cpu_temp a =
     (case a of T_noopen \<Rightarrow> -1 | T_value t \<Rightarrow> t sdiv 1000 | T_unparsed t \<Rightarrow> t sdiv 1000)"

record tproc = dproc +
  run_flag :: bool
  temp_log :: "int list"
  warned :: "int list"
  log_open :: bool

definition temp_signal_handler :: "sig \<Rightarrow> tproc \<Rightarrow> tproc" where
  "temp_signal_handler sg s =
     (if sg = SIGTERM then s\<lparr>syslog := syslog s @ [''Temperature daemon terminating''], run_flag := False\<rparr> else s)"

datatype toutcome = TExit bool tproc | TRunning tproc

definition temp_start :: "fork_ans \<Rightarrow> bool \<Rightarrow> bool \<times> bool \<times> bool \<Rightarrow> bool \<Rightarrow> tproc \<Rightarrow> toutcome" where
  "temp_start fork1 setsid_ok oks fopen_ok s =
     (case fork1 of
        Fork_fail \<Rightarrow> TExit False s
      | Fork_parent \<Rightarrow> TExit True s
      | Fork_child p1 \<Rightarrow>
          (let s1 = s\<lparr>pid := p1\<rparr>
           in if \<not> setsid_ok then TExit False s1
              else
                (let s2 = s1\<lparr>sid := pid s1, disp := (disp s1)(SIGTERM := Sig_handler), cwd := ''/'', mask := 0,
                             fds := redirect oks (fds s1), syslog := syslog s1 @ [''Temperature monitoring daemon started'']\<rparr>
                 in if \<not> fopen_ok then TExit False (s2\<lparr>syslog := syslog s2 @ [''Failed to open log file'']\<rparr>)
                    else TRunning (s2\<lparr>log_open := True\<rparr>))))"

definition record_temp :: "temp_ans \<Rightarrow> tproc \<Rightarrow> tproc" where
  "record_temp a s =
     (let temp = read_cpu_temp a;
          s0 = (if a = T_noopen then s\<lparr>syslog := syslog s @ [''Failed to open temperature file'']\<rparr> else s)
      in if temp \<ge> 0 then
           (let s1 = s0\<lparr>temp_log := temp_log s0 @ [temp]\<rparr>
            in if temp > 70 then s1\<lparr>warned := warned s1 @ [temp]\<rparr> else s1)
         else s0)"

text \<open>The loop; each element is a reading and whether \<^verbatim>\<open>SIGTERM\<close> arrives before the next test of \<^verbatim>\<open>running\<close>.\<close>

fun temp_loop :: "(temp_ans \<times> bool) list \<Rightarrow> tproc \<Rightarrow> toutcome" where
  "temp_loop rs s =
     (if \<not> run_flag s then TExit True (s\<lparr>log_open := False\<rparr>)
      else case rs of
             [] \<Rightarrow> TRunning s
           | (a, stop) # rest \<Rightarrow>
               (let s1 = record_temp a s in temp_loop rest (if stop then temp_signal_handler SIGTERM s1 else s1)))"

declare temp_loop.simps [simp del]

section \<open>Redirection\<close>

lemma three_entries:
  assumes "3 \<le> length tab"
  obtains a b c rest where "tab = a # b # c # rest"
  using assms by (auto simp: numeral_3_eq_3 Suc_le_length_iff)

lemma redirect_three:
  assumes "3 \<le> length tab"
  shows "redirect (True, True, True) tab = replicate 3 (Some ''/dev/null'') @ drop 3 tab"
proof -
  obtain a b c rest where t: "tab = a # b # c # rest" using three_entries [OF assms] .
  show ?thesis
    by (simp add: t redirect_def open_null_def array_alloc_def numeral_3_eq_3 numeral_2_eq_2)
qed

text \<open>The results of the three calls are not tested: when the first fails, standard error stays closed.\<close>

lemma redirect_first_fails:
  assumes "3 \<le> length tab"
  shows "redirect (False, True, True) tab = [Some ''/dev/null'', Some ''/dev/null'', None] @ drop 3 tab"
proof -
  obtain a b c rest where t: "tab = a # b # c # rest" using three_entries [OF assms] .
  show ?thesis
    by (simp add: t redirect_def open_null_def array_alloc_def numeral_3_eq_3 numeral_2_eq_2)
qed

lemma daemon_start_Running:
  "daemon_start fork1 setsid_ok fork2 oks s = Running t \<longleftrightarrow>
     (\<exists>p1 p2. fork1 = Fork_child p1 \<and> fork2 = Fork_child p2 \<and> setsid_ok \<and>
        t = s\<lparr>pid := p2, sid := p1, cwd := ''/'', mask := 0, fds := redirect oks (fds s), syslog := syslog s @ [''Daemon started''],
              disp := (disp s)(SIGCHLD := Sig_ignore, SIGHUP := Sig_handler, SIGTERM := Sig_handler)\<rparr>)"
  by (auto simp: daemon_start_def log_line_def Let_def split: fork_ans.splits)

section \<open>The loops\<close>

definition handles :: "dproc \<Rightarrow> bool" where
  "handles s \<longleftrightarrow> disp s SIGCHLD = Sig_ignore \<and> disp s SIGHUP = Sig_handler \<and> disp s SIGTERM = Sig_handler"

fun event_text :: "sig option \<Rightarrow> string list" where
  "event_text None = [''Daemon is running...'']"
| "event_text (Some SIGHUP) = [''Daemon received SIGHUP. Reloading configuration.'']"
| "event_text (Some SIGTERM) = [''Daemon received SIGTERM. Terminating.'']"
| "event_text (Some SIGCHLD) = []"

text \<open>The events up to the first termination.\<close>

fun until_term :: "sig option list \<Rightarrow> sig option list" where
  "until_term [] = []"
| "until_term (e # es) = (if e = Some SIGTERM then [e] else e # until_term es)"

lemma daemon_loop_effect:
  assumes "handles s"
  shows "daemon_loop es s = (if Some SIGTERM \<in> set es then Exit True else Running)
    (s\<lparr>syslog := syslog s @ concat (map event_text (until_term es))\<rparr>)"
  using assms
proof (induction es s rule: daemon_loop.induct)
  case (3 sg es s)
  then show ?case by (cases sg) (auto simp: deliver_def signal_handler_def log_line_def handles_def)
qed (auto simp: log_line_def handles_def)

fun readings :: "(temp_ans \<times> bool) list \<Rightarrow> temp_ans list" where
  "readings [] = []"
| "readings ((a, stop) # rest) = (if stop then [a] else a # readings rest)"

lemma record_temp_effect:
  "temp_log (record_temp a s) = temp_log s @ filter (\<lambda>t. 0 \<le> t) [read_cpu_temp a]"
  "warned (record_temp a s) = warned s @ filter (\<lambda>t. 70 < t) [read_cpu_temp a]"
  "run_flag (record_temp a s) = run_flag s" "log_open (record_temp a s) = log_open s"
  by (auto simp: record_temp_def Let_def)

lemma temp_loop_effect:
  assumes "run_flag s"
  shows "\<exists>t. temp_loop rs s = (if \<exists>a. (a, True) \<in> set rs then TExit True t else TRunning t) \<and>
    temp_log t = temp_log s @ filter (\<lambda>t. 0 \<le> t) (map read_cpu_temp (readings rs)) \<and>
    warned t = warned s @ filter (\<lambda>t. 70 < t) (map read_cpu_temp (readings rs)) \<and>
    ((\<exists>a. (a, True) \<in> set rs) \<longrightarrow> \<not> log_open t)"
  using assms
proof (induction rs arbitrary: s)
  case Nil
  then show ?case by (simp add: temp_loop.simps)
next
  case (Cons r rs)
  obtain a stop where r: "r = (a, stop)" by (cases r)
  let ?s = "record_temp a s"
  show ?case
  proof (cases "stop")
    case True
    have "temp_loop (r # rs) s = TExit True ((temp_signal_handler SIGTERM ?s)\<lparr>log_open := False\<rparr>)"
      using Cons.prems True by (simp add: r temp_loop.simps [of "(a, True) # rs"] temp_loop.simps [of rs] temp_signal_handler_def Let_def)
    with True show ?thesis
      by (intro exI [of _ "(temp_signal_handler SIGTERM ?s)\<lparr>log_open := False\<rparr>"])
        (auto simp: r temp_signal_handler_def record_temp_effect)
  next
    case False
    have l: "temp_loop (r # rs) s = temp_loop rs ?s" using Cons.prems False by (simp add: r temp_loop.simps [of "(a, False) # rs"] Let_def)
    have "run_flag ?s" using Cons.prems by (simp add: record_temp_effect)
    from Cons.IH [OF this] False show ?thesis unfolding l by (auto simp: r record_temp_effect)
  qed
qed

text \<open>
  C32. The daemon that goes on is the grandchild of the process that was started, in a session of its first child which it does
  not lead, in the root directory, with descriptors 0 to 2 on \<^verbatim>\<open>/dev/null\<close> and every other descriptor as it was. It
  logs every minute and every \<^verbatim>\<open>SIGHUP\<close> and ends exactly at the first \<^verbatim>\<open>SIGTERM\<close>. The temperature daemon logs exactly the
  readings that are not negative, warns of those above 70, and ends with its file closed after the iteration
  in which \<^verbatim>\<open>SIGTERM\<close> arrives.
\<close>

theorem daemons_detach_and_log:
  assumes "3 \<le> length (fds s)" "daemon_start (Fork_child p1) True (Fork_child p2) (True, True, True) s = Running t" "p1 \<noteq> p2"
    and "run_flag u"
  shows "sid t = p1 \<and> pid t \<noteq> sid t \<and> cwd t = ''/'' \<and> fds t = replicate 3 (Some ''/dev/null'') @ drop 3 (fds s) \<and>
    daemon_loop es t = (if Some SIGTERM \<in> set es then Exit True else Running)
      (t\<lparr>syslog := syslog t @ concat (map event_text (until_term es))\<rparr>) \<and>
    (\<exists>v. temp_loop rs u = (if \<exists>a. (a, True) \<in> set rs then TExit True v else TRunning v) \<and>
       temp_log v = temp_log u @ filter (\<lambda>x. 0 \<le> x) (map read_cpu_temp (readings rs)) \<and>
       warned v = warned u @ filter (\<lambda>x. 70 < x) (map read_cpu_temp (readings rs)) \<and>
       ((\<exists>a. (a, True) \<in> set rs) \<longrightarrow> \<not> log_open v))"
proof -
  from assms(2) have t: "t = s\<lparr>pid := p2, sid := p1, cwd := ''/'', mask := 0, fds := redirect (True, True, True) (fds s),
      syslog := syslog s @ [''Daemon started''],
      disp := (disp s)(SIGCHLD := Sig_ignore, SIGHUP := Sig_handler, SIGTERM := Sig_handler)\<rparr>"
    by (auto simp: daemon_start_Running)
  have "handles t" by (simp add: t handles_def)
  from daemon_loop_effect [OF this, of es] temp_loop_effect [OF assms(4), of rs] assms(3) show ?thesis
    by (simp add: t redirect_three [OF assms(1)])
qed

theorem daemons_detach_and_log_witness:
  "\<exists>t. daemon_start (Fork_child 10) True (Fork_child 11) (True, True, True)
      \<lparr>pid = 9, sid = 1, cwd = ''/home'', mask = 18, fds = replicate 4 (Some ''tty''), disp = \<lambda>_. Sig_default, syslog = []\<rparr> = Running t \<and>
     fds t = [Some ''/dev/null'', Some ''/dev/null'', Some ''/dev/null'', Some ''tty''] \<and>
     daemon_loop [None, Some SIGTERM, None] t = Exit True (t\<lparr>syslog := syslog t @ [''Daemon is running...'', ''Daemon received SIGTERM. Terminating.'']\<rparr>)"
proof -
  let ?s = "\<lparr>pid = 9, sid = 1, cwd = ''/home'', mask = 18, fds = replicate 4 (Some ''tty''), disp = \<lambda>_. Sig_default, syslog = []\<rparr>"
  let ?u = "dproc.extend ?s \<lparr>run_flag = True, temp_log = [], warned = [], log_open = True\<rparr>"
  obtain t where t: "daemon_start (Fork_child 10) True (Fork_child 11) (True, True, True) ?s = Running t"
    by (simp add: daemon_start_def)
  have h: "3 \<le> length (fds ?s)" "(10::nat) \<noteq> 11" "run_flag ?u" by (simp_all add: dproc.extend_def)
  from daemons_detach_and_log [OF h(1) t h(2,3), of "[None, Some SIGTERM, None]"] t show ?thesis
    by (simp add: numeral_3_eq_3 numeral_eq_Suc)
qed

end
