(* ===== verification/ThreadTerm.thy ===== *)
theory ThreadTerm
  imports Transition
begin

text \<open>
  \<^verbatim>\<open>lesson_9/code_examples/09_thread_term\<close>: one thread returns a heap block, one passes a block to \<^verbatim>\<open>pthread_exit\<close>, one loops
  until it is cancelled; \<^verbatim>\<open>main\<close> cancels it, joins all three and frees the blocks. Cancellation is deferred: a pending request is
  acted on at a cancellation point (\<^verbatim>\<open>sleep\<close>, and \<^verbatim>\<open>printf\<close>, which may be one), where the cleanup handlers pushed so far run.
  The creation of the threads is assumed to succeed; \<^verbatim>\<open>malloc\<close> may fail, and the threads use its result unchecked.
\<close>

datatype result = Block nat | Canceled

datatype tpc = T_New | T_Start | T_Alloc | T_Loop | T_Ended result

datatype mpc = M_Create nat | M_Cancel | M_Join nat | M_Use nat result | M_Return

record tt_sys =
  thr :: "tpc list"
  cancel_req :: bool
  heap :: "nat \<rightharpoonup> int"
  handlers :: "string list"
  printed :: "int option list"
  crashed :: bool
  mp :: mpc

definition cleanup_handler :: "string \<Rightarrow> tt_sys \<Rightarrow> tt_sys" where
  "cleanup_handler arg s = s\<lparr>handlers := handlers s @ [arg]\<rparr>"

text \<open>\<^verbatim>\<open>int* result = malloc(sizeof(int)); *result = v\<close>; the block of thread \<open>i\<close> has address \<open>i\<close>.\<close>

definition alloc_result :: "bool \<Rightarrow> nat \<Rightarrow> int \<Rightarrow> tt_sys \<Rightarrow> tt_sys" where
  "alloc_result ok i v s = (if ok then s\<lparr>heap := (heap s)(i \<mapsto> v)\<rparr> else s\<lparr>crashed := True\<rparr>)"

definition thread_return :: "(nat \<Rightarrow> bool) \<Rightarrow> tt_sys \<Rightarrow> tt_sys option" where
  "thread_return malloc_ok s =
     (case thr s ! 0 of
        T_Start \<Rightarrow> Some (alloc_result (malloc_ok 0) 0 42 (s\<lparr>thr := (thr s)[0 := T_Alloc]\<rparr>))
      | T_Alloc \<Rightarrow> Some (s\<lparr>thr := (thr s)[0 := T_Ended (Block 0)]\<rparr>)
      | _ \<Rightarrow> None)"

text \<open>\<^verbatim>\<open>pthread_exit\<close> runs the handler that was pushed.\<close>

definition thread_exit :: "(nat \<Rightarrow> bool) \<Rightarrow> tt_sys \<Rightarrow> tt_sys option" where
  "thread_exit malloc_ok s =
     (case thr s ! 1 of
        T_Start \<Rightarrow> Some (alloc_result (malloc_ok 1) 1 100 (s\<lparr>thr := (thr s)[1 := T_Alloc]\<rparr>))
      | T_Alloc \<Rightarrow> Some (cleanup_handler ''Exit thread cleanup'' (s\<lparr>thr := (thr s)[1 := T_Ended (Block 1)]\<rparr>))
      | _ \<Rightarrow> None)"

text \<open>
  \<open>T_Start\<close> is before the handler is pushed, where the only cancellation point is a \<^verbatim>\<open>printf\<close> (\<open>early\<close>: it acts on a pending request).
  An iteration of the loop without a pending request changes nothing and is a step only when \<open>idle\<close> is set.
\<close>

definition thread_to_cancel :: "bool \<Rightarrow> bool \<Rightarrow> tt_sys \<Rightarrow> tt_sys option" where
  "thread_to_cancel idle early s =
     (case thr s ! 2 of
        T_Start \<Rightarrow> Some (s\<lparr>thr := (thr s)[2 := (if cancel_req s \<and> early then T_Ended Canceled else T_Loop)]\<rparr>)
      | T_Loop \<Rightarrow>
          (if cancel_req s then
             Some (cleanup_handler ''Cancelled thread cleanup'' (s\<lparr>thr := (thr s)[2 := T_Ended Canceled]\<rparr>))
           else if idle then Some s else None)
      | _ \<Rightarrow> None)"

definition term_main :: "tt_sys \<Rightarrow> tt_sys option" where
  "term_main s =
     (case mp s of
        M_Create i \<Rightarrow> Some (s\<lparr>thr := (thr s)[i := T_Start], mp := (if i < 2 then M_Create (i + 1) else M_Cancel)\<rparr>)
      | M_Cancel \<Rightarrow> Some (s\<lparr>cancel_req := True, mp := M_Join 0\<rparr>)
      | M_Join i \<Rightarrow> (case thr s ! i of T_Ended r \<Rightarrow> Some (s\<lparr>mp := M_Use i r\<rparr>) | _ \<Rightarrow> None)
      | M_Use i r \<Rightarrow>
          (if i < 2 then
             (case r of
                Block b \<Rightarrow>
                  (case heap s b of
                     None \<Rightarrow> Some (s\<lparr>crashed := True, mp := M_Return\<rparr>)
                   | Some v \<Rightarrow> Some (s\<lparr>printed := printed s @ [Some v], heap := (heap s)(b := None), mp := M_Join (i + 1)\<rparr>))
              | Canceled \<Rightarrow> Some (s\<lparr>crashed := True, mp := M_Return\<rparr>))
           else Some (s\<lparr>printed := (if r = Canceled then printed s @ [None] else printed s), mp := M_Return\<rparr>))
      | M_Return \<Rightarrow> None)"

definition term_start :: tt_sys where
  "term_start = \<lparr>thr = [T_New, T_New, T_New], cancel_req = False, heap = Map.empty, handlers = [], printed = [],
     crashed = False, mp = M_Create 0\<rparr>"

text \<open>A crash ends the process.\<close>

inductive term_step :: "(nat \<Rightarrow> bool) \<Rightarrow> bool \<Rightarrow> tt_sys \<Rightarrow> tt_sys \<Rightarrow> bool" for ok idle where
  main: "\<not> crashed s \<Longrightarrow> term_main s = Some t \<Longrightarrow> term_step ok idle s t"
| ret: "\<not> crashed s \<Longrightarrow> thread_return ok s = Some t \<Longrightarrow> term_step ok idle s t"
| exit: "\<not> crashed s \<Longrightarrow> thread_exit ok s = Some t \<Longrightarrow> term_step ok idle s t"
| cancel: "\<not> crashed s \<Longrightarrow> thread_to_cancel idle early s = Some t \<Longrightarrow> term_step ok idle s t"

section \<open>The invariant\<close>

fun created :: "mpc \<Rightarrow> nat" where
  "created (M_Create i) = i"
| "created _ = 3"

fun joined :: "mpc \<Rightarrow> nat" where
  "joined (M_Create i) = 0"
| "joined M_Cancel = 0"
| "joined (M_Join i) = i"
| "joined (M_Use i r) = i"
| "joined M_Return = 3"

fun pc_ok :: "nat \<Rightarrow> tpc \<Rightarrow> bool" where
  "pc_ok i (T_Ended r) = (r = (if i < 2 then Block i else Canceled))"
| "pc_ok i T_Alloc = (i < 2)"
| "pc_ok i T_Loop = (i = 2)"
| "pc_ok i _ = True"

fun holds_block :: "tpc \<Rightarrow> bool" where
  "holds_block T_Alloc = True"
| "holds_block (T_Ended r) = True"
| "holds_block _ = False"

fun ended :: "tpc \<Rightarrow> bool" where
  "ended (T_Ended r) = True"
| "ended _ = False"

fun main_ok :: "tpc list \<Rightarrow> mpc \<Rightarrow> bool" where
  "main_ok ps (M_Create i) = (i < 3)"
| "main_ok ps (M_Join i) = (i < 3)"
| "main_ok ps (M_Use i r) = (i < 3 \<and> ps ! i = T_Ended r)"
| "main_ok ps _ = True"

fun cancelled :: "mpc \<Rightarrow> bool" where
  "cancelled (M_Create i) = False"
| "cancelled M_Cancel = False"
| "cancelled _ = True"

text \<open>
  While \<^verbatim>\<open>malloc\<close> succeeds: the block of a thread is allocated from its \<^verbatim>\<open>malloc\<close> until \<^verbatim>\<open>main\<close> has joined the thread, and each handler
  ran at most once, that of the second thread exactly when the thread has ended.
\<close>

definition threads_inv :: "tt_sys \<Rightarrow> tpc \<Rightarrow> tpc \<Rightarrow> tpc \<Rightarrow> bool" where
  "threads_inv s a b c \<longleftrightarrow> thr s = [a, b, c] \<and> pc_ok 0 a \<and> pc_ok 1 b \<and> pc_ok 2 c \<and>
     (a = T_New \<longleftrightarrow> created (mp s) = 0) \<and> (b = T_New \<longleftrightarrow> created (mp s) \<le> 1) \<and> (c = T_New \<longleftrightarrow> created (mp s) \<le> 2) \<and>
     (0 < joined (mp s) \<longrightarrow> ended a) \<and> (1 < joined (mp s) \<longrightarrow> ended b) \<and> (2 < joined (mp s) \<longrightarrow> ended c) \<and>
     heap s 0 = (if joined (mp s) = 0 \<and> holds_block a then Some 42 else None) \<and>
     heap s 1 = (if joined (mp s) \<le> 1 \<and> holds_block b then Some 100 else None) \<and> (\<forall>i > 1. heap s i = None) \<and>
     count_list (handlers s) ''Exit thread cleanup'' = (if ended b then 1 else 0) \<and>
     count_list (handlers s) ''Cancelled thread cleanup'' \<le> (if ended c then 1 else 0)"

definition term_inv :: "tt_sys \<Rightarrow> bool" where
  "term_inv s \<longleftrightarrow> \<not> crashed s \<and> main_ok (thr s) (mp s) \<and> (cancel_req s \<longleftrightarrow> cancelled (mp s)) \<and>
     printed s = take (joined (mp s)) [Some 42, Some 100, None] \<and> (\<exists>a b c. threads_inv s a b c)"

lemma threads_invD:
  assumes "threads_inv s a b c"
  shows "pc_ok 0 a" "pc_ok 1 b" "pc_ok 2 c" "a = T_New \<longleftrightarrow> created (mp s) = 0" "b = T_New \<longleftrightarrow> created (mp s) \<le> 1"
    "c = T_New \<longleftrightarrow> created (mp s) \<le> 2" "0 < joined (mp s) \<longrightarrow> ended a" "1 < joined (mp s) \<longrightarrow> ended b" "2 < joined (mp s) \<longrightarrow> ended c"
    "heap s 0 = (if joined (mp s) = 0 \<and> holds_block a then Some 42 else None)"
    "heap s 1 = (if joined (mp s) \<le> 1 \<and> holds_block b then Some 100 else None)" "\<And>i. i > 1 \<Longrightarrow> heap s i = None"
    "count_list (handlers s) ''Exit thread cleanup'' = (if ended b then 1 else 0)"
    "count_list (handlers s) ''Cancelled thread cleanup'' \<le> (if ended c then 1 else 0)"
  using assms by (simp_all add: threads_inv_def)

lemma term_invI:
  assumes "threads_inv s a b c" "\<not> crashed s" "main_ok (thr s) (mp s)" "cancel_req s \<longleftrightarrow> cancelled (mp s)"
    "printed s = take (joined (mp s)) [Some 42, Some 100, None]"
  shows "term_inv s"
  using assms by (auto simp: term_inv_def)

lemma term_invE:
  assumes "term_inv s"
  obtains a b c where "threads_inv s a b c" "thr s = [a, b, c]" "\<not> crashed s" "main_ok [a, b, c] (mp s)"
    "cancel_req s \<longleftrightarrow> cancelled (mp s)" "printed s = take (joined (mp s)) [Some 42, Some 100, None]"
proof -
  from assms obtain a b c where "threads_inv s a b c" by (auto simp: term_inv_def)
  moreover then have "thr s = [a, b, c]" by (simp add: threads_inv_def)
  ultimately show thesis using that assms by (simp add: term_inv_def)
qed

lemma term_start_inv: "term_inv term_start"
  by (rule term_invI [of _ T_New T_New T_New]) (simp_all add: threads_inv_def term_start_def)

lemma main_ok_update: "main_ok ps p \<Longrightarrow> \<not> ended (ps ! i) \<Longrightarrow> main_ok (ps[i := q]) p"
  by (cases p) (auto, metis ended.simps(1) nth_list_update_neq)

lemma term_inv_return:
  assumes "term_inv s" "ok 0" "thread_return ok s = Some t"
  shows "term_inv t"
proof -
  obtain a b c where i: "threads_inv s a b c" "thr s = [a, b, c]" "\<not> crashed s" "main_ok [a, b, c] (mp s)"
    "cancel_req s \<longleftrightarrow> cancelled (mp s)" "printed s = take (joined (mp s)) [Some 42, Some 100, None]"
    using term_invE [OF assms(1)] .
  note j = threads_invD [OF i(1)]
  have mo: "main_ok [q, b, c] (mp s)" if "\<not> ended a" for q
    using main_ok_update [OF i(4), of 0 q] that by simp
  show ?thesis
  proof (cases a)
    case T_Start
    then have t: "t = s\<lparr>thr := [T_Alloc, b, c], heap := (heap s)(0 \<mapsto> 42)\<rparr>"
      using assms(2,3) i(2) by (simp add: thread_return_def alloc_result_def)
    show ?thesis using T_Start i mo j
      by (intro term_invI [of _ T_Alloc b c]; simp only: t) (simp_all add: threads_inv_def)
  next
    case T_Alloc
    then have t: "t = s\<lparr>thr := [T_Ended (Block 0), b, c]\<rparr>" using assms(3) i(2) by (simp add: thread_return_def)
    show ?thesis using T_Alloc i mo j
      by (intro term_invI [of _ "T_Ended (Block 0)" b c]; simp only: t) (simp_all add: threads_inv_def)
  qed (use assms(3) i(2) in \<open>simp_all add: thread_return_def\<close>)
qed

lemma term_inv_exit:
  assumes "term_inv s" "ok 1" "thread_exit ok s = Some t"
  shows "term_inv t"
proof -
  obtain a b c where i: "threads_inv s a b c" "thr s = [a, b, c]" "\<not> crashed s" "main_ok [a, b, c] (mp s)"
    "cancel_req s \<longleftrightarrow> cancelled (mp s)" "printed s = take (joined (mp s)) [Some 42, Some 100, None]"
    using term_invE [OF assms(1)] .
  note j = threads_invD [OF i(1)]
  have mo: "main_ok [a, q, c] (mp s)" if "\<not> ended b" for q
    using main_ok_update [OF i(4), of 1 q] that by simp
  show ?thesis
  proof (cases b)
    case T_Start
    then have t: "t = s\<lparr>thr := [a, T_Alloc, c], heap := (heap s)(1 \<mapsto> 100)\<rparr>"
      using assms(2,3) i(2) by (simp add: thread_exit_def alloc_result_def)
    show ?thesis using T_Start i mo j
      by (intro term_invI [of _ a T_Alloc c]; simp only: t) (simp_all add: threads_inv_def)
  next
    case T_Alloc
    then have t: "t = s\<lparr>thr := [a, T_Ended (Block 1), c], handlers := handlers s @ [''Exit thread cleanup'']\<rparr>"
      using assms(3) i(2) by (simp add: thread_exit_def cleanup_handler_def)
    show ?thesis using T_Alloc i mo j
      by (intro term_invI [of _ a "T_Ended (Block 1)" c]; simp only: t) (simp_all add: threads_inv_def)
  qed (use assms(3) i(2) in \<open>simp_all add: thread_exit_def\<close>)
qed

lemma term_inv_cancel:
  assumes "term_inv s" "thread_to_cancel idle early s = Some t"
  shows "term_inv t"
proof -
  obtain a b c where i: "threads_inv s a b c" "thr s = [a, b, c]" "\<not> crashed s" "main_ok [a, b, c] (mp s)"
    "cancel_req s \<longleftrightarrow> cancelled (mp s)" "printed s = take (joined (mp s)) [Some 42, Some 100, None]"
    using term_invE [OF assms(1)] .
  note j = threads_invD [OF i(1)]
  have mo: "main_ok [a, b, q] (mp s)" if "\<not> ended c" for q
    using main_ok_update [OF i(4), of 2 q] that by simp
  show ?thesis
  proof (cases c)
    case T_Start
    let ?c = "if cancel_req s \<and> early then T_Ended Canceled else T_Loop"
    have t: "t = s\<lparr>thr := [a, b, ?c]\<rparr>" using T_Start assms(2) i(2) by (simp add: thread_to_cancel_def)
    show ?thesis using T_Start i mo j
      by (intro term_invI [of _ a b ?c]; simp only: t) (simp_all add: threads_inv_def)
  next
    case T_Loop
    show ?thesis
    proof (cases "cancel_req s")
      case True
      then have t: "t = s\<lparr>thr := [a, b, T_Ended Canceled], handlers := handlers s @ [''Cancelled thread cleanup'']\<rparr>"
        using T_Loop assms(2) i(2) by (simp add: thread_to_cancel_def cleanup_handler_def)
      show ?thesis using T_Loop i mo j
        by (intro term_invI [of _ a b "T_Ended Canceled"]; simp only: t) (simp_all add: threads_inv_def)
    next
      case False
      then have "t = s" using T_Loop assms(2) i(2) by (simp add: thread_to_cancel_def split: if_splits)
      with assms(1) show ?thesis by simp
    qed
  qed (use assms(2) i(2) in \<open>simp_all add: thread_to_cancel_def\<close>)
qed

lemma term_inv_create:
  assumes "term_inv s" "term_main s = Some t" and M_Create: "mp s = M_Create k"
  shows "term_inv t"
proof -
  obtain a b c where i: "threads_inv s a b c" "thr s = [a, b, c]" "\<not> crashed s" "main_ok [a, b, c] (mp s)"
    "cancel_req s \<longleftrightarrow> cancelled (mp s)" "printed s = take (joined (mp s)) [Some 42, Some 100, None]"
    using term_invE [OF assms(1)] .
  note j = threads_invD [OF i(1)]
  have "k < 3" using i(4) M_Create by simp
  then consider "k = 0" | "k = 1" | "k = 2" by linarith
  then show ?thesis
  proof cases
    case 1
    then have t: "t = s\<lparr>thr := [T_Start, b, c], mp := M_Create 1\<rparr>" using M_Create assms(2) i(2) by (simp add: term_main_def)
    show ?thesis using 1 M_Create i j by (intro term_invI [of _ T_Start b c]; simp only: t) (simp_all add: threads_inv_def)
  next
    case 2
    then have t: "t = s\<lparr>thr := [a, T_Start, c], mp := M_Create 2\<rparr>"
      using M_Create assms(2) i(2) by (simp add: term_main_def numeral_2_eq_2)
    show ?thesis using 2 M_Create i j by (intro term_invI [of _ a T_Start c]; simp only: t) (simp_all add: threads_inv_def)
  next
    case 3
    then have t: "t = s\<lparr>thr := [a, b, T_Start], mp := M_Cancel\<rparr>" using M_Create assms(2) i(2) by (simp add: term_main_def)
    show ?thesis using 3 M_Create i j by (intro term_invI [of _ a b T_Start]; simp only: t) (simp_all add: threads_inv_def)
  qed
qed

lemma term_inv_use:
  assumes "term_inv s" "term_main s = Some t" and M_Use: "mp s = M_Use k r"
  shows "term_inv t"
proof -
  obtain a b c where i: "threads_inv s a b c" "thr s = [a, b, c]" "\<not> crashed s" "main_ok [a, b, c] (mp s)"
    "cancel_req s \<longleftrightarrow> cancelled (mp s)" "printed s = take (joined (mp s)) [Some 42, Some 100, None]"
    using term_invE [OF assms(1)] .
  note j = threads_invD [OF i(1)]
  have k3: "k < 3" and k2: "[a, b, c] ! k = T_Ended r" using i(4) M_Use by simp_all
  from k3 consider "k = 0" | "k = 1" | "k = 2" by linarith
  then show ?thesis
  proof cases
    case 1
    with k2 j(1) have r: "a = T_Ended (Block 0)" "r = Block 0" by simp_all
    then have t: "t = s\<lparr>printed := [Some 42], heap := (heap s)(0 := None), mp := M_Join 1\<rparr>"
      using 1 M_Use i(6) j(10) assms(2) by (simp add: term_main_def)
    show ?thesis using 1 r M_Use i j by (intro term_invI [of _ a b c]; simp only: t) (simp_all add: threads_inv_def)
  next
    case 2
    with k2 j(2) have r: "b = T_Ended (Block 1)" "r = Block 1" by simp_all
    then have t: "t = s\<lparr>printed := [Some 42, Some 100], heap := (heap s)(1 := None), mp := M_Join 2\<rparr>"
      using 2 M_Use i(6) j(11) assms(2) by (simp add: term_main_def numeral_2_eq_2)
    show ?thesis using 2 r M_Use i j by (intro term_invI [of _ a b c]; simp only: t) (simp_all add: threads_inv_def)
  next
    case 3
    with k2 j(3) have r: "c = T_Ended Canceled" "r = Canceled" by simp_all
    then have t: "t = s\<lparr>printed := [Some 42, Some 100, None], mp := M_Return\<rparr>"
      using 3 M_Use i(6) assms(2) by (simp add: term_main_def)
    show ?thesis using 3 r M_Use i j by (intro term_invI [of _ a b c]; simp only: t) (simp_all add: threads_inv_def)
  qed
qed

lemma term_inv_main:
  assumes "term_inv s" "term_main s = Some t"
  shows "term_inv t"
proof -
  obtain a b c where i: "threads_inv s a b c" "thr s = [a, b, c]" "\<not> crashed s" "main_ok [a, b, c] (mp s)"
    "cancel_req s \<longleftrightarrow> cancelled (mp s)" "printed s = take (joined (mp s)) [Some 42, Some 100, None]"
    using term_invE [OF assms(1)] .
  note j = threads_invD [OF i(1)]
  show ?thesis
  proof (cases "mp s")
    case (M_Create k)
    then show ?thesis by (rule term_inv_create [OF assms])
  next
    case M_Cancel
    then have t: "t = s\<lparr>cancel_req := True, mp := M_Join 0\<rparr>" using assms(2) by (simp add: term_main_def)
    show ?thesis using M_Cancel i j by (intro term_invI [of _ a b c]; simp only: t) (simp_all add: threads_inv_def)
  next
    case (M_Join k)
    then obtain r where r: "[a, b, c] ! k = T_Ended r" and t: "t = s\<lparr>mp := M_Use k r\<rparr>"
      using assms(2) i(2) by (auto simp: term_main_def split: tpc.splits)
    show ?thesis using M_Join r i j by (intro term_invI [of _ a b c]; simp only: t) (simp_all add: threads_inv_def)
  next
    case (M_Use k r)
    then show ?thesis by (rule term_inv_use [OF assms])
  qed (use assms(2) in \<open>simp add: term_main_def\<close>)
qed

lemma term_step_inv:
  assumes "term_step ok idle s t" "ok 0" "ok 1" "term_inv s"
  shows "term_inv t"
  using assms(1)
proof cases
  case main
  then show ?thesis using term_inv_main [OF assms(4)] by blast
next
  case ret
  then show ?thesis using term_inv_return [where ok = ok, OF assms(4,2)] by blast
next
  case exit
  then show ?thesis using term_inv_exit [where ok = ok, OF assms(4,3)] by blast
next
  case (cancel early)
  then show ?thesis using term_inv_cancel [OF assms(4)] by blast
qed

section \<open>Termination\<close>

fun t_weight :: "tpc \<Rightarrow> nat" where
  "t_weight T_New = 3"
| "t_weight T_Start = 2"
| "t_weight T_Alloc = 1"
| "t_weight T_Loop = 1"
| "t_weight (T_Ended r) = 0"

fun m_weight :: "mpc \<Rightarrow> nat" where
  "m_weight (M_Create i) = 20 - i"
| "m_weight M_Cancel = 10"
| "m_weight (M_Join i) = 8 - 2 * i"
| "m_weight (M_Use i r) = 7 - 2 * i"
| "m_weight M_Return = 0"

definition term_measure :: "tt_sys \<Rightarrow> nat" where
  "term_measure s = sum_list (map t_weight (thr s)) + m_weight (mp s)"

lemma weight_update:
  assumes "i < length ps" "t_weight q < t_weight (ps ! i)"
  shows "sum_list (map t_weight (ps[i := q])) < sum_list (map t_weight ps)"
  using sum_list_map_update [OF assms(1), of t_weight q] assms(2) by simp

lemma term_step_measure:
  assumes "term_inv s" "term_step ok False s t"
  shows "term_measure t < term_measure s"
proof -
  obtain a b c where i: "threads_inv s a b c" "thr s = [a, b, c]" "main_ok [a, b, c] (mp s)" using term_invE [OF assms(1)] .
  note j = threads_invD [OF i(1)]
  from assms(2) show ?thesis
  proof cases
    case main
    show ?thesis
    proof (cases "mp s")
      case (M_Create k)
      then have "k < 3" "t_weight T_Start < t_weight ([a, b, c] ! k)" using i(3) j(4-6) by (auto simp: nth_Cons' split: if_splits)
      with weight_update [of k "[a, b, c]" T_Start] M_Create main i(2) show ?thesis
        by (auto simp: term_measure_def term_main_def)
    qed (use main i in \<open>auto simp: term_measure_def term_main_def split: tpc.splits if_splits result.splits option.splits\<close>)
  next
    case ret
    then show ?thesis using i(2)
      by (auto simp: thread_return_def alloc_result_def term_measure_def split: tpc.splits)
  next
    case exit
    then show ?thesis using i(2)
      by (auto simp: thread_exit_def alloc_result_def cleanup_handler_def term_measure_def split: tpc.splits)
  next
    case (cancel early)
    then show ?thesis using i(2)
      by (auto simp: thread_to_cancel_def cleanup_handler_def term_measure_def split: tpc.splits if_splits)
  qed
qed

lemma term_progress:
  assumes "term_inv s" "mp s \<noteq> M_Return"
  shows "\<exists>t. term_step ok False s t"
proof (rule ccontr)
  assume "\<nexists>t. term_step ok False s t"
  moreover have nc: "\<not> crashed s" using assms(1) by (simp add: term_inv_def)
  ultimately have n: "term_main s = None" "thread_return ok s = None" "thread_exit ok s = None" "thread_to_cancel False False s = None"
    by (meson term_step.intros not_None_eq)+
  obtain a b c where i: "threads_inv s a b c" "thr s = [a, b, c]" "main_ok [a, b, c] (mp s)" "cancel_req s \<longleftrightarrow> cancelled (mp s)"
    using term_invE [OF assms(1)] .
  note j = threads_invD [OF i(1)]
  from n(1) assms(2) obtain k where k: "mp s = M_Join k" "\<not> ended (thr s ! k)"
    by (cases "mp s") (auto simp: term_main_def split: tpc.splits if_splits result.splits option.splits)
  then have "k < 3" using i(3) by simp
  then consider "k = 0" | "k = 1" | "k = 2" by linarith
  then show False
    using k i(2,4) j(1-6) n(2-4)
    by cases (auto simp: thread_return_def thread_exit_def thread_to_cancel_def split: tpc.splits)
qed

interpretation tr: terminating_system "\<lambda>s. s = term_start \<and> ok 0 \<and> ok 1" "term_step ok False" "\<lambda>s. term_inv s \<and> ok 0 \<and> ok 1"
  "\<lambda>s. mp s = M_Return" term_measure for ok
  by unfold_locales (use term_start_inv term_step_inv term_progress term_step_measure in blast)+

interpretation ti: invariant_system "\<lambda>s. s = term_start \<and> ok 0 \<and> ok 1" "term_step ok idle" "\<lambda>s. term_inv s \<and> ok 0 \<and> ok 1" for ok idle
  by unfold_locales (use term_start_inv term_step_inv in blast)+



end
