(* ===== verification/ProcTable.thy ===== *)
theory ProcTable
  imports Transition
begin

text \<open>
  What the process examples use of the kernel: a table of processes with parent links, in which an exited process stays as
  a zombie until its parent waits for it, an orphan is passed on to a reaper (process 1), and \<^verbatim>\<open>SIGCHLD\<close> is
  pending until its handler runs. A program is a term with the calls of the source in their order; every process runs
  its own copy, with its own copy of the global variable, and the processes are interleaved.
\<close>

datatype cause = Exited nat | Killed

text \<open>
  \<open>Fork\<close> has the branches of a failure, the child and the parent. \<open>Thread v\<close> creates a thread that prints the global
  variable, assigns \<open>v\<close> to it and prints it again, and joins the thread.
\<close>

datatype prog =
    Fork prog prog prog
  | Exit nat
  | Wait prog
  | Wait_pid prog
  | Kill_parent prog
  | Kill_child prog
  | Sleep prog
  | Assign int prog
  | Thread int prog
  | Show_var prog
  | Show_status prog
  | Show_ppid prog
  | Sigaction prog prog

datatype line = Var int | Status "cause option" | Ppid nat

record proc =
  code :: prog
  ppid :: nat
  child :: nat
  gvar :: int
  status :: "cause option"
  sigchld :: bool
  pend :: bool
  in_handler :: bool

datatype slot = Live proc | Zombie nat cause

record ptab =
  tab :: "nat \<Rightarrow> slot option"
  next_pid :: nat
  printed :: "(nat \<times> line) list"
  hit_reaper :: bool

definition REAPER :: nat where "REAPER = 1"
definition ROOT :: nat where "ROOT = 2"

definition start :: "prog \<Rightarrow> int \<Rightarrow> ptab" where
  "start c v = \<lparr>tab = [ROOT \<mapsto> Live \<lparr>code = c, ppid = REAPER, child = 0, gvar = v, status = None,
       sigchld = False, pend = False, in_handler = False\<rparr>], next_pid = 3, printed = [], hit_reaper = False\<rparr>"

fun parent_of :: "slot \<Rightarrow> nat" where
  "parent_of (Live a) = ppid a"
| "parent_of (Zombie r c) = r"

fun reparent :: "nat \<Rightarrow> slot \<Rightarrow> slot" where
  "reparent p (Live a) = (if ppid a = p then Live (a\<lparr>ppid := REAPER\<rparr>) else Live a)"
| "reparent p (Zombie r c) = (if r = p then Zombie REAPER c else Zombie r c)"

text \<open>\<^verbatim>\<open>SIGCHLD\<close> becomes pending when a handler is installed; else its default action ignores it.\<close>

definition notify :: "nat \<Rightarrow> (nat \<Rightarrow> slot option) \<Rightarrow> nat \<Rightarrow> slot option" where
  "notify r t = (case t r of Some (Live b) \<Rightarrow> t(r \<mapsto> Live (b\<lparr>pend := pend b \<or> sigchld b\<rparr>)) | _ \<Rightarrow> t)"

definition die :: "nat \<Rightarrow> cause \<Rightarrow> ptab \<Rightarrow> ptab" where
  "die p c s =
     (case tab s p of
        Some (Live a) \<Rightarrow>
          s\<lparr>tab := notify (ppid a) (\<lambda>q. if q = p then Some (Zombie (ppid a) c) else map_option (reparent p) (tab s q))\<rparr>
      | _ \<Rightarrow> s)"

text \<open>\<^verbatim>\<open>kill(q, SIGTERM)\<close> with the default action.\<close>

definition sigterm :: "nat \<Rightarrow> ptab \<Rightarrow> ptab" where
  "sigterm q s = (if q = REAPER then s\<lparr>hit_reaper := True\<rparr> else die q Killed s)"

definition children :: "ptab \<Rightarrow> nat \<Rightarrow> nat set" where
  "children s p = {q. \<exists>x. tab s q = Some x \<and> parent_of x = p}"

definition zombies_of :: "ptab \<Rightarrow> nat \<Rightarrow> nat set" where
  "zombies_of s p = {q. \<exists>c. tab s q = Some (Zombie p c)}"

definition runs :: "ptab \<Rightarrow> nat \<Rightarrow> proc \<Rightarrow> bool" where
  "runs s p a \<longleftrightarrow> tab s p = Some (Live a) \<and> \<not> in_handler a"

definition goto :: "nat \<Rightarrow> proc \<Rightarrow> ptab \<Rightarrow> ptab" where
  "goto p a s = s\<lparr>tab := (tab s)(p \<mapsto> Live a)\<rparr>"

definition spawn :: "proc \<Rightarrow> ptab \<Rightarrow> ptab" where
  "spawn b s = s\<lparr>tab := (tab s)(next_pid s \<mapsto> Live b), next_pid := Suc (next_pid s)\<rparr>"

definition reap :: "nat \<Rightarrow> ptab \<Rightarrow> ptab" where
  "reap q s = s\<lparr>tab := (tab s)(q := None)\<rparr>"

definition put :: "nat \<Rightarrow> line \<Rightarrow> ptab \<Rightarrow> ptab" where
  "put p l s = s\<lparr>printed := printed s @ [(p, l)]\<rparr>"

text \<open>With \<open>ok\<close> every \<^verbatim>\<open>fork\<close>, \<^verbatim>\<open>pthread_create\<close> and \<^verbatim>\<open>sigaction\<close> succeeds.\<close>

inductive pstep :: "bool \<Rightarrow> ptab \<Rightarrow> ptab \<Rightarrow> bool" for ok where
  fork: "runs s p a \<Longrightarrow> code a = Fork f c k \<Longrightarrow>
     pstep ok s (spawn (a\<lparr>code := c, ppid := p, child := 0, pend := False\<rparr>) (goto p (a\<lparr>code := k, child := next_pid s\<rparr>) s))"
| fork_fail: "\<not> ok \<Longrightarrow> runs s p a \<Longrightarrow> code a = Fork f c k \<Longrightarrow> pstep ok s (goto p (a\<lparr>code := f\<rparr>) s)"
| exit: "runs s p a \<Longrightarrow> code a = Exit n \<Longrightarrow> pstep ok s (die p (Exited n) s)"
| wait: "runs s p a \<Longrightarrow> code a = Wait k \<Longrightarrow> tab s q = Some (Zombie p c) \<Longrightarrow>
     pstep ok s (reap q (goto p (a\<lparr>code := k, status := Some c\<rparr>) s))"
| wait_none: "runs s p a \<Longrightarrow> code a = Wait k \<Longrightarrow> children s p = {} \<Longrightarrow> pstep ok s (goto p (a\<lparr>code := k\<rparr>) s)"
| wait_pid: "runs s p a \<Longrightarrow> code a = Wait_pid k \<Longrightarrow> tab s (child a) = Some (Zombie p c) \<Longrightarrow>
     pstep ok s (reap (child a) (goto p (a\<lparr>code := k, status := Some c\<rparr>) s))"
| wait_pid_none: "runs s p a \<Longrightarrow> code a = Wait_pid k \<Longrightarrow> child a \<notin> children s p \<Longrightarrow> pstep ok s (goto p (a\<lparr>code := k\<rparr>) s)"
| kill_parent: "runs s p a \<Longrightarrow> code a = Kill_parent k \<Longrightarrow> pstep ok s (sigterm (ppid a) (goto p (a\<lparr>code := k\<rparr>) s))"
| kill_child: "runs s p a \<Longrightarrow> code a = Kill_child k \<Longrightarrow> pstep ok s (sigterm (child a) (goto p (a\<lparr>code := k\<rparr>) s))"
| sleep: "runs s p a \<Longrightarrow> code a = Sleep k \<Longrightarrow> pstep ok s (goto p (a\<lparr>code := k\<rparr>) s)"
| assign: "runs s p a \<Longrightarrow> code a = Assign v k \<Longrightarrow> pstep ok s (goto p (a\<lparr>code := k, gvar := v\<rparr>) s)"
| thread: "runs s p a \<Longrightarrow> code a = Thread v k \<Longrightarrow>
     pstep ok s (put p (Var v) (put p (Var (gvar a)) (goto p (a\<lparr>code := k, gvar := v\<rparr>) s)))"
| thread_fail: "\<not> ok \<Longrightarrow> runs s p a \<Longrightarrow> code a = Thread v k \<Longrightarrow> pstep ok s (goto p (a\<lparr>code := Exit 1\<rparr>) s)"
| show_var: "runs s p a \<Longrightarrow> code a = Show_var k \<Longrightarrow> pstep ok s (put p (Var (gvar a)) (goto p (a\<lparr>code := k\<rparr>) s))"
| show_status: "runs s p a \<Longrightarrow> code a = Show_status k \<Longrightarrow> pstep ok s (put p (Status (status a)) (goto p (a\<lparr>code := k\<rparr>) s))"
| show_ppid: "runs s p a \<Longrightarrow> code a = Show_ppid k \<Longrightarrow> pstep ok s (put p (Ppid (ppid a)) (goto p (a\<lparr>code := k\<rparr>) s))"
| sigaction: "runs s p a \<Longrightarrow> code a = Sigaction f k \<Longrightarrow> pstep ok s (goto p (a\<lparr>code := k, sigchld := True\<rparr>) s)"
| sigaction_fail: "\<not> ok \<Longrightarrow> runs s p a \<Longrightarrow> code a = Sigaction f k \<Longrightarrow> pstep ok s (goto p (a\<lparr>code := f\<rparr>) s)"
| handle_sigchld: "runs s p a \<Longrightarrow> pend a \<Longrightarrow> pstep ok s (goto p (a\<lparr>pend := False, in_handler := True\<rparr>) s)"
| handler_reap: "tab s p = Some (Live a) \<Longrightarrow> in_handler a \<Longrightarrow> tab s q = Some (Zombie p c) \<Longrightarrow>
     pstep ok s (reap q s)"
| handler_return: "tab s p = Some (Live a) \<Longrightarrow> in_handler a \<Longrightarrow> zombies_of s p = {} \<Longrightarrow>
     pstep ok s (goto p (a\<lparr>in_handler := False\<rparr>) s)"
| reaper: "tab s q = Some (Zombie REAPER c) \<Longrightarrow> pstep ok s (reap q s)"


section \<open>The process tree\<close>

text \<open>Two views of the table: which processes are alive, and who the parent of an entry is.\<close>

definition alive :: "ptab \<Rightarrow> nat \<Rightarrow> bool" where
  "alive s p \<longleftrightarrow> (\<exists>a. tab s p = Some (Live a))"

definition par :: "ptab \<Rightarrow> nat \<Rightarrow> nat option" where
  "par s q = map_option parent_of (tab s q)"

lemma children_par: "children s p = {q. par s q = Some p}"
  by (auto simp: children_def par_def)

lemma view_goto:
  assumes "tab s p = Some (Live a)" "ppid a' = ppid a"
  shows "alive (goto p a' s) = alive s" "par (goto p a' s) = par s"
  using assms by (auto simp: alive_def par_def goto_def fun_eq_iff)

lemma view_put [simp]: "alive (put p l s) = alive s" "par (put p l s) = par s" "tab (put p l s) = tab s" "next_pid (put p l s) = next_pid s"
  by (simp_all add: alive_def par_def put_def fun_eq_iff)

lemma view_reap:
  assumes "tab s q = Some (Zombie r c)"
  shows "alive (reap q s) = alive s" "par (reap q s) = (par s)(q := None)"
  using assms by (auto simp: alive_def par_def reap_def fun_eq_iff)

lemma view_spawn: "alive (spawn b s) = (alive s)(next_pid s := True)" "par (spawn b s) = (par s)(next_pid s \<mapsto> ppid b)"
  by (auto simp: alive_def par_def spawn_def fun_eq_iff)

lemma next_pid_simps [simp]: "next_pid (goto p a s) = next_pid s" "next_pid (reap q s) = next_pid s" "next_pid (spawn b s) = Suc (next_pid s)"
  by (simp_all add: goto_def reap_def spawn_def)

lemma parent_of_reparent: "parent_of (reparent p x) = (if parent_of x = p then REAPER else parent_of x)"
  by (cases x) auto

lemma notify_tab:
  "notify r t q = map_option (\<lambda>x. case x of Live b \<Rightarrow> Live (if q = r then b\<lparr>pend := pend b \<or> sigchld b\<rparr> else b) | Zombie n c \<Rightarrow> Zombie n c) (t q)"
  by (cases "t q"; cases "the (t q)"; cases "q = r") (auto simp: notify_def split: option.splits slot.splits)

lemma die_tab:
  assumes "tab s p = Some (Live a)"
  shows "tab (die p c s) = notify (ppid a) (\<lambda>q. if q = p then Some (Zombie (ppid a) c) else map_option (reparent p) (tab s q))"
    "next_pid (die p c s) = next_pid s" "printed (die p c s) = printed s"
  using assms by (simp_all add: die_def)

lemma die_Live:
  assumes "tab s p = Some (Live a)"
  shows "tab (die p c s) q = Some (Live b) \<longleftrightarrow> q \<noteq> p \<and> (\<exists>b'. tab s q = Some (Live b') \<and>
    b = b'\<lparr>ppid := (if ppid b' = p then REAPER else ppid b'), pend := pend b' \<or> (q = ppid a \<and> sigchld b')\<rparr>)"
  by (cases "tab s q"; cases "the (tab s q)") (auto simp: die_tab [OF assms] notify_tab)

lemma die_Zombie:
  assumes "tab s p = Some (Live a)"
  shows "tab (die p c s) q = Some (Zombie r e) \<longleftrightarrow> (if q = p then r = ppid a \<and> e = c
    else \<exists>r'. tab s q = Some (Zombie r' e) \<and> r = (if r' = p then REAPER else r'))"
  by (cases "tab s q"; cases "the (tab s q)") (auto simp: die_tab [OF assms] notify_tab)

lemma die_dead: "\<not> alive s p \<Longrightarrow> die p c s = s"
  by (auto simp: alive_def die_def split: option.splits slot.splits)

lemma next_pid_die [simp]: "next_pid (die p c s) = next_pid s"
  by (auto simp: die_def split: option.splits slot.splits)

lemma view_die:
  assumes "tab s p = Some (Live a)" "ppid a \<noteq> p"
  shows "alive (die p c s) = (alive s)(p := False)"
    "par (die p c s) = (\<lambda>q. if par s q = Some p then Some REAPER else par s q)"
proof -
  show "alive (die p c s) = (alive s)(p := False)"
  proof
    fix q
    show "alive (die p c s) q = ((alive s)(p := False)) q"
      by (cases "tab s q"; cases "the (tab s q)") (auto simp: alive_def die_tab [OF assms(1)] notify_tab)
  qed
  show "par (die p c s) = (\<lambda>q. if par s q = Some p then Some REAPER else par s q)"
  proof
    fix q
    show "par (die p c s) q = (if par s q = Some p then Some REAPER else par s q)"
      using assms by (cases "tab s q"; cases "the (tab s q)") (auto simp: par_def die_tab [OF assms(1)] notify_tab)
  qed
qed

text \<open>Every process has a process identifier below the next one, and its parent is older and alive, or the reaper.\<close>

definition tree_inv :: "ptab \<Rightarrow> bool" where
  "tree_inv s \<longleftrightarrow> ROOT < next_pid s \<and>
     (\<forall>q r. par s q = Some r \<longrightarrow> ROOT \<le> q \<and> q < next_pid s \<and> r < q \<and> (r = REAPER \<or> alive s r))"

lemma tree_invD:
  assumes "tree_inv s" "tab s q = Some x"
  shows "ROOT \<le> q" "q < next_pid s" "parent_of x < q" "parent_of x = REAPER \<or> alive s (parent_of x)"
  using assms by (auto simp: tree_inv_def par_def)

lemma tree_fresh: "tree_inv s \<Longrightarrow> next_pid s \<le> q \<Longrightarrow> tab s q = None"
  by (cases "tab s q") (auto dest: tree_invD)

lemma alive_par: "alive s p \<Longrightarrow> \<exists>r. par s p = Some r"
  by (auto simp: alive_def par_def)

lemma tree_goto [inv_intros]:
  "tree_inv s \<Longrightarrow> tab s p = Some (Live a) \<Longrightarrow> ppid a' = ppid a \<Longrightarrow> tree_inv (goto p a' s)"
  by (simp add: tree_inv_def view_goto)

lemma tree_put [inv_intros]: "tree_inv s \<Longrightarrow> tree_inv (put p l s)"
  by (simp add: tree_inv_def)

lemma tree_reap [inv_intros]: "tree_inv s \<Longrightarrow> tab s q = Some (Zombie r c) \<Longrightarrow> tree_inv (reap q s)"
  by (auto simp: tree_inv_def view_reap)

lemma tree_spawn [inv_intros]: "tree_inv s \<Longrightarrow> alive s (ppid b) \<Longrightarrow> tree_inv (spawn b s)"
  using alive_par [of s "ppid b"] by (fastforce simp: tree_inv_def view_spawn)

lemma tree_die [inv_intros]:
  assumes "tree_inv s"
  shows "tree_inv (die p c s)"
proof (cases "alive s p")
  case True
  then obtain a where a: "tab s p = Some (Live a)" by (auto simp: alive_def)
  with tree_invD(3) [OF assms a] have "ppid a \<noteq> p" by auto
  note v = view_die [OF a this, of c]
  show ?thesis unfolding tree_inv_def v
  proof (intro conjI allI impI)
    fix q r
    assume r: "(if par s q = Some p then Some REAPER else par s q) = Some r"
    then obtain r' where q: "par s q = Some r'" by (auto split: if_splits)
    show 2: "ROOT \<le> q" and "q < next_pid (die p c s)" using assms q by (auto simp: tree_inv_def)
    show "r < q"
    proof (cases "r' = p")
      case True
      then show ?thesis using q r 2 by (simp add: REAPER_def ROOT_def)
    next
      case False
      then show ?thesis using assms q r by (simp add: tree_inv_def)
    qed
    show "r = REAPER \<or> ((alive s)(p := False)) r"
      using assms q r by (auto simp: tree_inv_def REAPER_def ROOT_def split: if_splits)
  qed (use assms in \<open>simp add: tree_inv_def\<close>)
qed (use assms in \<open>simp add: die_dead\<close>)


lemma alive_runs: "runs s p a \<Longrightarrow> alive s p"
  by (auto simp: runs_def alive_def)

lemma tree_sigterm [inv_intros]: "tree_inv s \<Longrightarrow> tree_inv (sigterm q s)"
  by (auto simp: sigterm_def intro: inv_intros) (simp add: tree_inv_def alive_def par_def)

lemma goto_other: "q \<noteq> p \<Longrightarrow> tab (goto p a s) q = tab s q" "tab (goto p a s) p = Some (Live a)"
  by (simp_all add: goto_def)

lemma tree_step:
  assumes "pstep ok s t" "tree_inv s"
  shows "tree_inv t"
  using assms
proof cases
  case (fork p a f c k)
  then have "alive (goto p (a\<lparr>code := k, child := next_pid s\<rparr>) s) p" by (simp add: alive_def goto_def)
  with fork assms(2) show ?thesis by (auto simp: runs_def intro!: inv_intros)
next
  case (wait p a k q c)
  then have "q \<noteq> p" by (auto simp: runs_def)
  with wait assms(2) show ?thesis by (auto simp: runs_def goto_other intro!: inv_intros)
next
  case (wait_pid p a k c)
  then have "child a \<noteq> p" by (auto simp: runs_def)
  with wait_pid assms(2) show ?thesis by (auto simp: runs_def goto_other intro!: inv_intros)
qed (auto simp: runs_def intro!: inv_intros)

lemma tree_start: "tree_inv (start c v)"
  by (auto simp: tree_inv_def start_def par_def alive_def ROOT_def REAPER_def split: if_splits)

interpretation pt: invariant_system "\<lambda>s. \<exists>c v. s = start c v" "pstep ok" tree_inv for ok
  by unfold_locales (auto intro: tree_start tree_step)


section \<open>The handler of \<^verbatim>\<open>SIGCHLD\<close>\<close>

text \<open>No handler is installed in what is left of the program.\<close>

primrec plain :: "prog \<Rightarrow> bool" where
  "plain (Fork f c k) = (plain f \<and> plain c \<and> plain k)"
| "plain (Exit n) = True"
| "plain (Wait k) = plain k"
| "plain (Wait_pid k) = plain k"
| "plain (Kill_parent k) = plain k"
| "plain (Kill_child k) = plain k"
| "plain (Sleep k) = plain k"
| "plain (Assign v k) = plain k"
| "plain (Thread v k) = plain k"
| "plain (Show_var k) = plain k"
| "plain (Show_status k) = plain k"
| "plain (Show_ppid k) = plain k"
| "plain (Sigaction f k) = False"

text \<open>A process with a handler whose children include a zombie has the signal pending or is in the handler.\<close>

definition reap_inv :: "ptab \<Rightarrow> bool" where
  "reap_inv s \<longleftrightarrow> (\<forall>p a. tab s p = Some (Live a) \<longrightarrow>
     plain (code a) \<and> (sigchld a \<and> zombies_of s p \<noteq> {} \<longrightarrow> pend a \<or> in_handler a))"

lemma reap_invD:
  assumes "reap_inv s" "tab s p = Some (Live a)"
  shows "plain (code a)" "sigchld a \<Longrightarrow> zombies_of s p \<noteq> {} \<Longrightarrow> pend a \<or> in_handler a"
  using assms by (auto simp: reap_inv_def)

lemma zombies_of_goto: "tab s p = Some (Live a) \<Longrightarrow> zombies_of (goto p a' s) = zombies_of s"
  by (auto simp: zombies_of_def goto_def fun_eq_iff)

lemma zombies_of_put [simp]: "zombies_of (put p l s) = zombies_of s"
  by (simp add: zombies_of_def fun_eq_iff)

lemma zombies_of_reap: "zombies_of (reap q s) p \<subseteq> zombies_of s p"
  by (auto simp: zombies_of_def reap_def split: if_splits)

lemma reap_goto:
  assumes "reap_inv s" "tab s p = Some (Live a)" "plain (code a')"
    "sigchld a' \<and> zombies_of s p \<noteq> {} \<longrightarrow> pend a' \<or> in_handler a'"
  shows "reap_inv (goto p a' s)"
  using assms unfolding reap_inv_def zombies_of_goto [OF assms(2)] by (auto simp: goto_def)

lemma reap_code:
  assumes "reap_inv s" "runs s p a" "plain (code a) \<Longrightarrow> plain (code a')" "sigchld a' = sigchld a" "pend a' = pend a" "in_handler a' = in_handler a"
  shows "reap_inv (goto p a' s)"
proof -
  have a: "tab s p = Some (Live a)" using assms(2) by (simp add: runs_def)
  show ?thesis using reap_invD [OF assms(1) a] assms(3-6) by (intro reap_goto [OF assms(1) a]) auto
qed

lemma reap_put: "reap_inv s \<Longrightarrow> reap_inv (put p l s)"
  by (simp add: reap_inv_def)

lemma reap_reap: "reap_inv s \<Longrightarrow> reap_inv (reap q s)"
  using zombies_of_reap [of q s] by (fastforce simp: reap_inv_def reap_def)

lemma reap_spawn:
  assumes "reap_inv s" "tree_inv s" "plain (code b)"
  shows "reap_inv (spawn b s)"
proof -
  have z: "zombies_of (spawn b s) p = zombies_of s p" for p
    using tree_fresh [OF assms(2), of "next_pid s"] by (auto simp: zombies_of_def spawn_def)
  have "zombies_of s (next_pid s) = {}"
    using tree_invD(2,3) [OF assms(2)] by (fastforce simp: zombies_of_def)
  with assms(1,3) show ?thesis unfolding reap_inv_def z by (auto simp: spawn_def)
qed

lemma reap_die:
  assumes "reap_inv s" "tree_inv s"
  shows "reap_inv (die p c s)"
proof (cases "alive s p")
  case True
  then obtain a where a: "tab s p = Some (Live a)" by (auto simp: alive_def)
  have z: "zombies_of (die p c s) q \<subseteq> (if q = ppid a then insert p (zombies_of s q) else zombies_of s q)" if "q \<noteq> REAPER" for q
    using that by (auto simp: zombies_of_def die_Zombie [OF a] split: if_splits)
  show ?thesis unfolding reap_inv_def
  proof (intro allI impI)
    fix q b
    assume b: "tab (die p c s) q = Some (Live b)"
    then obtain b' where b': "tab s q = Some (Live b')" "code b = code b'" "sigchld b = sigchld b'" "in_handler b = in_handler b'"
      "pend b \<longleftrightarrow> pend b' \<or> (q = ppid a \<and> sigchld b')"
      by (auto simp: die_Live [OF a])
    have "q \<noteq> REAPER" using tree_invD(1) [OF assms(2) b'(1)] by (auto simp: ROOT_def REAPER_def)
    from z [OF this] reap_invD [OF assms(1) b'(1)] b'(2-5)
    show "plain (code b) \<and> (sigchld b \<and> zombies_of (die p c s) q \<noteq> {} \<longrightarrow> pend b \<or> in_handler b)"
      by (auto split: if_splits)
  qed
qed (use assms in \<open>simp add: die_dead\<close>)


lemma reap_sigterm: "reap_inv s \<Longrightarrow> tree_inv s \<Longrightarrow> reap_inv (sigterm q s)"
  using reap_die [of s q Killed] by (simp add: sigterm_def) (simp add: reap_inv_def zombies_of_def)

lemma reap_step:
  assumes "pstep ok s t" "tree_inv s" "reap_inv s"
  shows "reap_inv t"
  using assms(1)
proof cases
  case (fork p a f c k)
  let ?s = "goto p (a\<lparr>code := k, child := next_pid s\<rparr>) s"
  have a: "tab s p = Some (Live a)" using fork by (simp add: runs_def)
  have "reap_inv ?s" using fork(3) by (intro reap_code [OF assms(3) fork(2)]) auto
  moreover have "tree_inv ?s" by (rule tree_goto [OF assms(2) a]) simp
  ultimately show ?thesis using reap_invD(1) [OF assms(3) a] fork(1,3) by (auto intro: reap_spawn)
next
  case (kill_parent p a k)
  have "reap_inv (goto p (a\<lparr>code := k\<rparr>) s)" using kill_parent(3) by (intro reap_code [OF assms(3) kill_parent(2)]) auto
  moreover have "tree_inv (goto p (a\<lparr>code := k\<rparr>) s)" using kill_parent(2) by (intro tree_goto [OF assms(2)]) (auto simp: runs_def)
  ultimately show ?thesis using kill_parent(1) by (simp add: reap_sigterm)
next
  case (kill_child p a k)
  have "reap_inv (goto p (a\<lparr>code := k\<rparr>) s)" using kill_child(3) by (intro reap_code [OF assms(3) kill_child(2)]) auto
  moreover have "tree_inv (goto p (a\<lparr>code := k\<rparr>) s)" using kill_child(2) by (intro tree_goto [OF assms(2)]) (auto simp: runs_def)
  ultimately show ?thesis using kill_child(1) by (simp add: reap_sigterm)
next
  case (sigaction p a f k)
  then show ?thesis using reap_invD(1) [OF assms(3), of p a] by (simp add: runs_def)
next
  case (handle_sigchld p a)
  then show ?thesis using reap_invD(1) [OF assms(3), of p a] by (auto simp: runs_def intro!: reap_goto [OF assms(3)])
next
  case (handler_return p a)
  then show ?thesis using reap_invD(1) [OF assms(3), of p a] by (auto intro!: reap_goto [OF assms(3)])
qed (use assms(2,3) in \<open>auto intro: reap_reap reap_die intro!: reap_put reap_code [OF assms(3)]\<close>)

lemma finite_zombies: "tree_inv s \<Longrightarrow> finite (zombies_of s p)"
  by (rule finite_subset [of _ "{..<next_pid s}"]) (auto simp: zombies_of_def dest: tree_invD(2))

text \<open>The loop of the handler ends, and it leaves no zombie.\<close>

lemma handler_completes:
  assumes "tree_inv s" "tab s p = Some (Live a)" "in_handler a"
  shows "\<exists>t. (pstep ok)\<^sup>*\<^sup>* s t \<and> zombies_of t p = {} \<and> tab t p = Some (Live (a\<lparr>in_handler := False\<rparr>))"
  using assms
proof (induction "card (zombies_of s p)" arbitrary: s)
  case 0
  then have z: "zombies_of s p = {}" using finite_zombies by auto
  with 0 have "pstep ok s (goto p (a\<lparr>in_handler := False\<rparr>) s)" by (intro pstep.handler_return)
  moreover have "zombies_of (goto p (a\<lparr>in_handler := False\<rparr>) s) p = {}" using z by (simp add: zombies_of_goto [OF 0(3)])
  ultimately show ?case
    by (intro exI [of _ "goto p (a\<lparr>in_handler := False\<rparr>) s"]) (auto simp: goto_other)
next
  case (Suc n)
  then obtain q where q: "q \<in> zombies_of s p" by (metis card.empty empty_iff equals0I nat.distinct(1))
  then obtain c where c: "tab s q = Some (Zombie p c)" by (auto simp: zombies_of_def)
  have st: "pstep ok s (reap q s)" using Suc.prems(2,3) c by (rule pstep.handler_reap)
  have "zombies_of (reap q s) p = zombies_of s p - {q}" by (auto simp: zombies_of_def reap_def split: if_splits)
  then have n: "n = card (zombies_of (reap q s) p)" using Suc.hyps(2) q finite_zombies [OF Suc.prems(1)] by simp
  have "tab (reap q s) p = Some (Live a)" using Suc.prems(2) c by (auto simp: reap_def)
  from Suc.hyps(1) [OF n tree_reap [OF Suc.prems(1) c] this Suc.prems(3)] st show ?case
    by (meson converse_rtranclp_into_rtranclp)
qed

lemma pending_handled:
  assumes "tree_inv s" "tab s p = Some (Live a)" "pend a \<or> in_handler a"
  shows "\<exists>t b. (pstep ok)\<^sup>*\<^sup>* s t \<and> zombies_of t p = {} \<and> tab t p = Some (Live b)"
proof (cases "in_handler a")
  case True
  from handler_completes [OF assms(1,2) this, of ok] show ?thesis by blast
next
  case False
  let ?a = "a\<lparr>pend := False, in_handler := True\<rparr>"
  have st: "pstep ok s (goto p ?a s)" using False assms by (intro pstep.handle_sigchld) (auto simp: runs_def)
  have "tab (goto p ?a s) p = Some (Live ?a)" by (simp add: goto_def)
  from handler_completes [OF tree_step [OF st assms(1)] this, of ok] st show ?thesis
    by (auto intro: converse_rtranclp_into_rtranclp)
qed

end
