(* ===== verification/Processes.thy ===== *)
theory Processes
  imports ProcTable
begin

text \<open>
  The process examples: \<^verbatim>\<open>lesson_7\<close> (\<^verbatim>\<open>00_proc_term\<close>, \<^verbatim>\<open>01_proc_wait\<close>, \<^verbatim>\<open>02_zombies\<close>, \<^verbatim>\<open>03_zombies_demo\<close>, \<^verbatim>\<open>05_reparenting\<close>),
  \<^verbatim>\<open>lesson_6/02_fork_term\<close>, \<^verbatim>\<open>lesson_2/00_process_vs_thread\<close> and \<^verbatim>\<open>lesson_9/00_process_vs_thread\<close>, as programs over the process table.
  Messages that print only constants and process identifiers of the moment are left out; \<open>Show_status\<close> stands for the tests of the
  status after a wait and the message of the branch taken.
\<close>

definition fork_term :: prog where
  "fork_term = Fork (Exit 1) (Show_ppid (Sleep (Exit 42))) (Wait_pid (Show_status (Exit 0)))"

definition proc_wait :: prog where
  "proc_wait = Fork (Exit 1) (Sleep (Exit 42)) (Wait (Show_status (Exit 0)))"

definition process_vs_thread :: prog where
  "process_vs_thread =
     Show_var (Fork (Exit 1)
       (Assign 200 (Show_var (Show_ppid (Exit 0))))
       (Wait (Show_var (Assign 100 (Show_var (Thread 300 (Show_var (Exit 0))))))))"

definition proc_term :: prog where
  "proc_term = Fork (Exit 1) (Kill_parent (Sleep (Exit 0))) (Sleep (Kill_child (Exit 0)))"

primrec fork_children :: "nat \<Rightarrow> prog \<Rightarrow> prog" where
  "fork_children 0 k = k"
| "fork_children (Suc n) k = Fork (Exit 1) (Sleep (Exit 0)) (fork_children n k)"

primrec sleeps :: "nat \<Rightarrow> prog \<Rightarrow> prog" where
  "sleeps 0 k = k"
| "sleeps (Suc n) k = Sleep (sleeps n k)"

definition zombies_main :: prog where
  "zombies_main = Sigaction (Exit 1) (fork_children 5 (sleeps 10 (Exit 0)))"

definition zombies_demo :: prog where
  "zombies_demo = Fork (Exit 1) (Exit 0) (Sleep (Exit 0))"

definition reparenting :: prog where
  "reparenting = Fork (Exit 1) (Show_ppid (Sleep (Show_ppid (Sleep (Exit 0))))) (Exit 0)"

definition create_process :: prog where
  "create_process = Fork (Exit 1) (Exit 0) (Exit 0)"

section \<open>A parent that waits for its child\<close>

text \<open>A child that ends with status \<open>n\<close> and creates nothing.\<close>

fun leaf :: "nat \<Rightarrow> prog \<Rightarrow> bool" where
  "leaf n (Exit m) = (m = n)"
| "leaf n (Sleep k) = leaf n k"
| "leaf n (Assign v k) = leaf n k"
| "leaf n (Show_var k) = leaf n k"
| "leaf n (Show_status k) = leaf n k"
| "leaf n (Show_ppid k) = leaf n k"
| "leaf n _ = False"

text \<open>A parent that has at most one child at a time and waits for it before it ends; \<open>h\<close>: there is a child.\<close>

fun waits :: "nat \<Rightarrow> bool \<Rightarrow> prog \<Rightarrow> bool" where
  "waits n h (Fork f c k) = (\<not> h \<and> leaf n c \<and> waits n True k)"
| "waits n h (Exit m) = (\<not> h)"
| "waits n h (Wait k) = (h \<and> waits n False k)"
| "waits n h (Wait_pid k) = (h \<and> waits n False k)"
| "waits n h (Sleep k) = waits n h k"
| "waits n h (Assign v k) = waits n h k"
| "waits n h (Thread v k) = waits n h k"
| "waits n h (Show_var k) = waits n h k"
| "waits n h (Show_status k) = waits n h k"
| "waits n h (Show_ppid k) = waits n h k"
| "waits n h _ = False"

text \<open>What the parent still prints, given its variable and the status it got.\<close>

fun expected :: "nat \<Rightarrow> prog \<Rightarrow> int \<Rightarrow> cause option \<Rightarrow> line list" where
  "expected n (Fork f c k) v st = expected n k v st"
| "expected n (Wait k) v st = expected n k v (Some (Exited n))"
| "expected n (Wait_pid k) v st = expected n k v (Some (Exited n))"
| "expected n (Sleep k) v st = expected n k v st"
| "expected n (Assign x k) v st = expected n k x st"
| "expected n (Thread x k) v st = Var v # Var x # expected n k x st"
| "expected n (Show_var k) v st = Var v # expected n k v st"
| "expected n (Show_status k) v st = Status st # expected n k v st"
| "expected n (Show_ppid k) v st = Ppid REAPER # expected n k v st"
| "expected n _ v st = []"

definition root_out :: "ptab \<Rightarrow> line list" where
  "root_out s = map snd (filter (\<lambda>x. fst x = ROOT) (printed s))"

definition quiet :: "proc \<Rightarrow> bool" where
  "quiet a \<longleftrightarrow> \<not> sigchld a \<and> \<not> pend a \<and> \<not> in_handler a"

fun child_ok :: "nat \<Rightarrow> slot \<Rightarrow> bool" where
  "child_ok n (Live b) = (leaf n (code b) \<and> ppid b = ROOT \<and> quiet b)"
| "child_ok n (Zombie r c) = (r = ROOT \<and> c = Exited n)"

text \<open>The table of a live parent without or with a child.\<close>

fun shape :: "proc \<Rightarrow> slot option \<Rightarrow> nat \<Rightarrow> slot option" where
  "shape a None = [ROOT \<mapsto> Live a]"
| "shape a (Some x) = [ROOT \<mapsto> Live a, child a \<mapsto> x]"

fun child_inv :: "nat \<Rightarrow> proc \<Rightarrow> nat \<Rightarrow> slot option \<Rightarrow> bool" where
  "child_inv n a m None = True"
| "child_inv n a m (Some x) = (child_ok n x \<and> ROOT < child a \<and> child a < m)"

definition root_live :: "nat \<Rightarrow> line list \<Rightarrow> ptab \<Rightarrow> proc \<Rightarrow> slot option \<Rightarrow> bool" where
  "root_live n out s a x \<longleftrightarrow> tab s = shape a x \<and> child_inv n a (next_pid s) x \<and> ROOT < next_pid s \<and>
     ppid a = REAPER \<and> quiet a \<and> waits n (x \<noteq> None) (code a) \<and> root_out s @ expected n (code a) (gvar a) (status a) = out"

definition root_gone :: "line list \<Rightarrow> ptab \<Rightarrow> bool" where
  "root_gone out s \<longleftrightarrow> (tab s = Map.empty \<or> (\<exists>c. tab s = [ROOT \<mapsto> Zombie REAPER c])) \<and> root_out s = out"

definition wait_inv :: "nat \<Rightarrow> line list \<Rightarrow> ptab \<Rightarrow> bool" where
  "wait_inv n out s \<longleftrightarrow> (\<exists>a x. root_live n out s a x) \<or> root_gone out s"

lemma root_out_simps [simp]:
  "root_out (goto p a s) = root_out s" "root_out (reap q s) = root_out s" "root_out (spawn b s) = root_out s"
  "root_out (put p l s) = root_out s @ (if p = ROOT then [l] else [])" "root_out (die p c s) = root_out s"
  by (auto simp: root_out_def goto_def reap_def spawn_def put_def die_def split: option.splits slot.splits)

lemma tab_simps [simp]:
  "tab (goto p a s) = (tab s)(p \<mapsto> Live a)" "tab (reap q s) = (tab s)(q := None)" "tab (spawn b s) = (tab s)(next_pid s \<mapsto> Live b)"
  by (simp_all add: goto_def reap_def spawn_def)

lemma shape_root [simp]: "x \<noteq> None \<Longrightarrow> child a \<noteq> ROOT \<Longrightarrow> shape a x ROOT = Some (Live a)" "shape a None ROOT = Some (Live a)"
  by (cases x; simp)+

lemma shape_goto: "child a' = child a \<Longrightarrow> (x \<noteq> None \<Longrightarrow> child a \<noteq> ROOT) \<Longrightarrow> (shape a x)(ROOT \<mapsto> Live a') = shape a' x"
  by (cases x) (auto simp: fun_upd_twist)

text \<open>A step of the parent that creates and waits for nothing, and a step of the child.\<close>

lemma root_moves:
  assumes "root_live n out s a x" "tab t = (tab s)(ROOT \<mapsto> Live a')" "next_pid t = next_pid s" "ppid a' = ppid a" "child a' = child a"
    "quiet a'" "waits n (x \<noteq> None) (code a')" "root_out t @ expected n (code a') (gvar a') (status a') = out"
  shows "wait_inv n out t"
proof -
  have "x \<noteq> None \<Longrightarrow> child a \<noteq> ROOT" using assms(1) by (cases x) (auto simp: root_live_def)
  then have "root_live n out t a' x"
    using assms shape_goto [of a' a x] by (cases x) (auto simp: root_live_def)
  then show ?thesis by (auto simp: wait_inv_def)
qed

lemma child_moves:
  assumes "root_live n out s a (Some x)" "tab t = (tab s)(child a \<mapsto> y)" "next_pid t = next_pid s" "child_ok n y" "root_out t = root_out s"
  shows "wait_inv n out t"
proof -
  have "root_live n out t a (Some y)" using assms by (auto simp: root_live_def)
  then show ?thesis by (auto simp: wait_inv_def)
qed

lemma root_reaps:
  assumes "root_live n out s a (Some x)" "tab t = (tab s)(ROOT \<mapsto> Live a', child a := None)" "next_pid t = next_pid s" "ppid a' = ppid a"
    "quiet a'" "waits n False (code a')" "root_out t @ expected n (code a') (gvar a') (status a') = out"
  shows "wait_inv n out t"
proof -
  have "child a \<noteq> ROOT" using assms(1) by (auto simp: root_live_def)
  then have "root_live n out t a' None" using assms by (auto simp: root_live_def fun_upd_twist)
  then show ?thesis by (auto simp: wait_inv_def)
qed


lemma root_forks:
  assumes "root_live n out s a None" "tab t = (tab s)(ROOT \<mapsto> Live a', next_pid s \<mapsto> Live b)" "next_pid t = Suc (next_pid s)" "ppid a' = ppid a"
    "child a' = next_pid s" "quiet a'" "child_ok n (Live b)" "waits n True (code a')" "root_out t @ expected n (code a') (gvar a') (status a') = out"
  shows "wait_inv n out t"
proof -
  have "root_live n out t a' (Some (Live b))" using assms by (auto simp: root_live_def)
  then show ?thesis by (auto simp: wait_inv_def)
qed

lemma child_dies:
  assumes "root_live n out s a (Some (Live b))"
  shows "tab (die (child a) c s) = (tab s)(child a \<mapsto> Zombie ROOT c)"
proof -
  have s: "tab s = [ROOT \<mapsto> Live a, child a \<mapsto> Live b]" "child a \<noteq> ROOT" "child a \<noteq> REAPER" "ppid b = ROOT" "\<not> sigchld a" "ppid a = REAPER"
    using assms by (auto simp: root_live_def quiet_def ROOT_def REAPER_def)
  have b: "tab s (child a) = Some (Live b)" using s by simp
  show ?thesis
    unfolding die_tab(1) [OF b] using s by (auto simp: fun_eq_iff notify_tab)
qed

lemma root_dies:
  assumes "root_live n out s a None"
  shows "tab (die ROOT c s) = [ROOT \<mapsto> Zombie REAPER c]"
proof -
  have s: "tab s = [ROOT \<mapsto> Live a]" "ppid a = REAPER" using assms by (auto simp: root_live_def)
  then have a: "tab s ROOT = Some (Live a)" by simp
  show ?thesis unfolding die_tab(1) [OF a] using s by (auto simp: fun_eq_iff notify_tab ROOT_def REAPER_def)
qed

lemma runs_cases:
  assumes "root_live n out s a x" "tab s p = Some (Live b)"
  obtains "p = ROOT" "b = a" | "x = Some (Live b)" "p = child a" "p \<noteq> ROOT" "leaf n (code b)" "ppid b = ROOT" "quiet b"
  using assms by (cases x) (auto simp: root_live_def split: if_splits)

lemma zombie_cases:
  assumes "root_live n out s a x" "tab s q = Some (Zombie r c)"
  shows "x = Some (Zombie ROOT (Exited n))" "q = child a" "r = ROOT" "c = Exited n"
  using assms by (cases x; auto simp: root_live_def split: if_splits)+

lemma quiet_simps [simp]: "quiet (a\<lparr>code := k\<rparr>) = quiet a" "quiet (a\<lparr>status := st\<rparr>) = quiet a" "quiet (a\<lparr>gvar := v\<rparr>) = quiet a"
  "quiet (a\<lparr>child := q\<rparr>) = quiet a"
  by (simp_all add: quiet_def)

text \<open>A step of the parent or the child that only changes its own state and prints.\<close>

lemma code_step:
  assumes r: "root_live n out s a x" and b: "runs s p b" and t: "tab t = (tab s)(p \<mapsto> Live b')" "next_pid t = next_pid s"
    and same: "ppid b' = ppid b" "child b' = child b" "quiet b' = quiet b"
    and leaf: "leaf n (code b) \<Longrightarrow> leaf n (code b')" "p \<noteq> ROOT \<Longrightarrow> root_out t = root_out s"
    and root: "p = ROOT \<Longrightarrow> waits n (x \<noteq> None) (code b) \<Longrightarrow>
      waits n (x \<noteq> None) (code b') \<and> root_out t @ expected n (code b') (gvar b') (status b') = root_out s @ expected n (code b) (gvar b) (status b)"
  shows "wait_inv n out t"
proof -
  have bb: "tab s p = Some (Live b)" using b by (simp add: runs_def)
  show ?thesis
  proof (rule runs_cases [OF r bb])
    assume p: "p = ROOT" "b = a"
    have "quiet a" "waits n (x \<noteq> None) (code a)" "root_out s @ expected n (code a) (gvar a) (status a) = out"
      using r by (auto simp: root_live_def)
    with root p same t show ?thesis by (intro root_moves [OF r, of t b']) auto
  next
    assume p: "x = Some (Live b)" "p = child a" "p \<noteq> ROOT" "leaf n (code b)" "ppid b = ROOT" "quiet b"
    from r p(1) have "root_live n out s a (Some (Live b))" by simp
    with p leaf same t show ?thesis by (intro child_moves [of n out s a "Live b" t "Live b'"]) auto
  qed
qed

lemma has_child:
  assumes "root_live n out s a x" "x \<noteq> None"
  shows "child a \<in> children s ROOT"
proof -
  from assms obtain y where "x = Some y" "child_ok n y" "tab s (child a) = Some y" by (cases x) (auto simp: root_live_def)
  then show ?thesis by (cases y) (auto simp: children_def)
qed

text \<open>A process whose code is not that of a child is the parent.\<close>

lemma runs_root:
  assumes "root_live n out s a x" "runs s p b" "\<not> leaf n (code b)"
  shows "p = ROOT" "b = a" "waits n (x \<noteq> None) (code b)" "quiet a" "root_out s @ expected n (code a) (gvar a) (status a) = out"
  using assms runs_cases [OF assms(1), of p b] by (auto simp: runs_def root_live_def)

lemma live_fork:
  assumes r: "root_live n out s a x" "runs s p b" "code b = Fork f c k"
  shows "wait_inv n out (spawn (b\<lparr>code := c, ppid := p, child := 0, pend := False\<rparr>) (goto p (b\<lparr>code := k, child := next_pid s\<rparr>) s))"
proof -
  have p: "p = ROOT" "b = a" "waits n (x \<noteq> None) (code b)" "quiet a" "root_out s @ expected n (code a) (gvar a) (status a) = out"
    using runs_root [OF r(1,2)] r(3) by simp_all
  then have "x = None" "leaf n c" "waits n True k" using r(3) by auto
  with p r show ?thesis
    by (intro root_forks [of n out s a _ "a\<lparr>code := k, child := next_pid s\<rparr>" "a\<lparr>code := c, ppid := ROOT, child := 0, pend := False\<rparr>"])
      (auto simp: quiet_def)
qed

lemma live_exit:
  assumes r: "root_live n out s a x" "runs s p b" "code b = Exit m"
  shows "wait_inv n out (die p (Exited m) s)"
proof -
  have b: "tab s p = Some (Live b)" using r(2) by (simp add: runs_def)
  show ?thesis
  proof (rule runs_cases [OF r(1) b])
    assume p: "p = ROOT" "b = a"
    then have "x = None" "root_out s = out" using r(1,3) by (cases x; auto simp: root_live_def)+
    with root_dies r(1) p show ?thesis by (auto simp: wait_inv_def root_gone_def)
  next
    assume p: "x = Some (Live b)" "p = child a" "leaf n (code b)"
    with child_dies [of n out s a b] r show ?thesis
      by (intro child_moves [of n out s a "Live b" _ "Zombie ROOT (Exited n)"]) auto
  qed
qed

lemma live_wait:
  assumes r: "root_live n out s a x" "runs s p b" "code b = Wait k \<or> code b = Wait_pid k" "tab s q = Some (Zombie p c)"
  shows "wait_inv n out (reap q (goto p (b\<lparr>code := k, status := Some c\<rparr>) s))"
proof -
  note z = zombie_cases [OF r(1,4)]
  have p: "p = ROOT" "b = a" "waits n (x \<noteq> None) (code b)" "quiet a" "root_out s @ expected n (code a) (gvar a) (status a) = out"
    using runs_root [OF r(1,2)] r(3) by auto
  then have "waits n False k" using r(3) by auto
  with p z r show ?thesis by (intro root_reaps [of n out s a _ _ "a\<lparr>code := k, status := Some c\<rparr>"]) auto
qed

lemma live_wait_child:
  assumes r: "root_live n out s a x" "runs s p b" "code b = Wait k \<or> code b = Wait_pid k"
  shows "child b \<in> children s p"
proof -
  have p: "p = ROOT" "b = a" "waits n (x \<noteq> None) (code b)" using runs_root [OF r(1,2)] r(3) by auto
  then have "x \<noteq> None" using r(3) by auto
  with p has_child [OF r(1)] show ?thesis by simp
qed

lemma live_quiet: "root_live n out s a x \<Longrightarrow> tab s p = Some (Live b) \<Longrightarrow> \<not> in_handler b \<and> \<not> pend b"
  using runs_cases [of n out s a x p b] by (metis quiet_def root_live_def)

lemma live_ppid: "root_live n out s a x \<Longrightarrow> runs s ROOT b \<Longrightarrow> ppid b = REAPER"
  using runs_cases [of n out s a x ROOT b] by (auto simp: runs_def root_live_def)

lemma live_step:
  assumes r: "root_live n out s a x" and st: "pstep True s t"
  shows "wait_inv n out t"
  using st
proof cases
  case fork
  then show ?thesis using live_fork [OF r] by simp
next
  case exit
  then show ?thesis using live_exit [OF r] by simp
next
  case wait
  then show ?thesis using live_wait [OF r] by blast
next
  case wait_pid
  then show ?thesis using live_wait [OF r] by blast
next
  case wait_none
  then show ?thesis using live_wait_child [OF r] by blast
next
  case wait_pid_none
  then show ?thesis using live_wait_child [OF r] by blast
next
  case (reaper q c)
  then show ?thesis using zombie_cases(3) [OF r reaper(2)] by (simp add: ROOT_def REAPER_def)
next
  case (sleep p b k)
  show ?thesis unfolding sleep(1) by (rule code_step [OF r sleep(2), where b' = "b\<lparr>code := k\<rparr>"]) (use sleep live_ppid [OF r] in auto)
next
  case (assign p b v k)
  show ?thesis unfolding assign(1) by (rule code_step [OF r assign(2), where b' = "b\<lparr>code := k, gvar := v\<rparr>"]) (use assign live_ppid [OF r] in auto)
next
  case (thread p b v k)
  show ?thesis unfolding thread(1) by (rule code_step [OF r thread(2), where b' = "b\<lparr>code := k, gvar := v\<rparr>"]) (use thread live_ppid [OF r] in auto)
next
  case (show_var p b k)
  show ?thesis unfolding show_var(1) by (rule code_step [OF r show_var(2), where b' = "b\<lparr>code := k\<rparr>"]) (use show_var live_ppid [OF r] in auto)
next
  case (show_status p b k)
  show ?thesis unfolding show_status(1) by (rule code_step [OF r show_status(2), where b' = "b\<lparr>code := k\<rparr>"]) (use show_status live_ppid [OF r] in auto)
next
  case (show_ppid p b k)
  show ?thesis unfolding show_ppid(1) by (rule code_step [OF r show_ppid(2), where b' = "b\<lparr>code := k\<rparr>"]) (use show_ppid live_ppid [OF r] in auto)
qed (use runs_root(3) [OF r] live_quiet [OF r] in \<open>fastforce simp: runs_def\<close>)+


lemma wait_step:
  assumes "wait_inv n out s" "pstep True s t"
  shows "wait_inv n out t"
proof (cases "root_gone out s")
  case True
  then have z: "tab s p \<noteq> Some (Live b)" "root_out s = out" "\<And>q. q \<noteq> ROOT \<Longrightarrow> tab s q = None" for p b
    by (auto simp: root_gone_def split: if_splits)
  from assms(2) show ?thesis
  proof cases
    case (reaper q c)
    then have "q = ROOT" using z(3) [of q] by fastforce
    then have "tab t = Map.empty" using reaper(1) z(3) by (auto simp: fun_eq_iff)
    then show ?thesis using reaper(1) z(2) by (simp add: wait_inv_def root_gone_def)
  qed (use z(1) in \<open>auto simp: runs_def\<close>)
next
  case False
  with assms(1) obtain a x where "root_live n out s a x" by (auto simp: wait_inv_def)
  from live_step [OF this assms(2)] show ?thesis .
qed

fun slot_weight :: "slot \<Rightarrow> nat" where
  "slot_weight (Live a) = 3 * size (code a) + 2"
| "slot_weight (Zombie r c) = 1"

definition proc_weight :: "ptab \<Rightarrow> nat" where
  "proc_weight s = (\<Sum>q \<in> dom (tab s). slot_weight (the (tab s q)))"

lemma weight_shape:
  assumes "root_live n out s a x"
  shows "proc_weight s = slot_weight (Live a) + (case x of None \<Rightarrow> 0 | Some y \<Rightarrow> slot_weight y)"
proof (cases x)
  case None
  then show ?thesis using assms by (simp add: root_live_def proc_weight_def)
next
  case (Some y)
  then have t: "tab s = [ROOT \<mapsto> Live a, child a \<mapsto> y]" "child a \<noteq> ROOT" using assms by (auto simp: root_live_def)
  then have "dom (tab s) = {ROOT, child a}" by auto
  with t show ?thesis by (simp add: proc_weight_def Some)
qed

lemma live_progress:
  assumes r: "root_live n out s a x"
  shows "\<exists>t. pstep True s t"
proof (cases "\<exists>b. x = Some (Live b)")
  case True
  then obtain b where x: "x = Some (Live b)" by blast
  with r have b: "runs s (child a) b" "leaf n (code b)" by (auto simp: root_live_def runs_def quiet_def)
  then show ?thesis by (cases "code b") (auto intro: pstep.intros)
next
  case False
  have a: "runs s ROOT a" "waits n (x \<noteq> None) (code a)" using r by (cases x; auto simp: root_live_def runs_def quiet_def)+
  have z: "tab s (child a) = Some (Zombie ROOT (Exited n))" if "x \<noteq> None"
  proof -
    from that False obtain y c where "x = Some (Zombie y c)" by (metis not_None_eq slot.exhaust)
    with r show ?thesis by (auto simp: root_live_def)
  qed
  show ?thesis
  proof (cases "code a")
    case (Wait k)
    with a z show ?thesis by (auto intro: pstep.wait)
  next
    case (Wait_pid k)
    with a z show ?thesis by (auto intro: pstep.wait_pid)
  qed (use a in \<open>auto intro: pstep.intros\<close>)
qed


lemma weight_add:
  assumes "finite (dom (tab s))" "tab s p = None" "tab t = (tab s)(p \<mapsto> z)"
  shows "proc_weight t = proc_weight s + slot_weight z"
proof -
  have d: "dom (tab t) = insert p (dom (tab s))" "p \<notin> dom (tab s)" using assms(2,3) by auto
  have "(\<Sum>q \<in> dom (tab s). slot_weight (the (tab t q))) = proc_weight s"
    unfolding proc_weight_def using assms(3) d(2) by (intro sum.cong) auto
  then show ?thesis unfolding proc_weight_def [of t] d(1) using assms(1,3) d(2) by simp
qed

lemma weight_del:
  assumes "finite (dom (tab s))" "tab s p = Some y"
  shows "proc_weight (reap p s) + slot_weight y = proc_weight s"
proof -
  have t: "tab s = (tab (reap p s))(p \<mapsto> y)" "tab (reap p s) p = None" "finite (dom (tab (reap p s)))"
    using assms by (auto simp: fun_eq_iff)
  from weight_add [OF t(3,2,1)] show ?thesis by simp
qed

lemma weight_upd:
  assumes "finite (dom (tab s))" "tab s p = Some y" "tab t = (tab s)(p \<mapsto> z)"
  shows "proc_weight t + slot_weight y = proc_weight s + slot_weight z"
proof -
  have "tab t = (tab (reap p s))(p \<mapsto> z)" "tab (reap p s) p = None" "finite (dom (tab (reap p s)))"
    using assms by (auto simp: fun_eq_iff)
  from weight_add [OF this(3,2,1)] weight_del [OF assms(1,2)] show ?thesis by simp
qed

lemma wait_finite: "wait_inv n out s \<Longrightarrow> finite (dom (tab s))"
proof -
  have "finite (dom (shape a x))" for a x by (cases x) simp_all
  then show "wait_inv n out s \<Longrightarrow> finite (dom (tab s))" by (auto simp: wait_inv_def root_live_def root_gone_def)
qed

lemma weight_goto:
  assumes "finite (dom (tab s))" "runs s p a" "size (code a') < size (code a)" "tab t = (tab s)(p \<mapsto> Live a')"
  shows "proc_weight t < proc_weight s"
  using weight_upd [OF assms(1) _ assms(4), of "Live a"] assms(2,3) by (simp add: runs_def)

lemma runs_live:
  assumes "wait_inv n out s" "tab s p = Some (Live b)"
  obtains a x where "root_live n out s a x"
  using assms by (auto simp: wait_inv_def root_gone_def split: if_splits)

lemma live_fresh: "root_live n out s a x \<Longrightarrow> tab s (next_pid s) = None"
  by (cases x) (auto simp: root_live_def ROOT_def)

lemma weight_fork:
  assumes inv: "wait_inv n out s" and p: "runs s p a" "code a = Fork f c k"
  shows "proc_weight (spawn (a\<lparr>code := c, ppid := p, child := 0, pend := False\<rparr>) (goto p (a\<lparr>code := k, child := next_pid s\<rparr>) s)) < proc_weight s"
proof -
  let ?s = "goto p (a\<lparr>code := k, child := next_pid s\<rparr>) s"
  note fin = wait_finite [OF inv]
  have a: "tab s p = Some (Live a)" using p(1) by (simp add: runs_def)
  obtain b x where "root_live n out s b x" using runs_live [OF inv a] .
  then have "tab s (next_pid s) = None" by (rule live_fresh)
  then have "tab ?s (next_pid ?s) = None" using a by auto
  then have "proc_weight (spawn (a\<lparr>code := c, ppid := p, child := 0, pend := False\<rparr>) ?s) = proc_weight ?s + (3 * size c + 2)"
    using weight_add [of ?s "next_pid ?s" "spawn (a\<lparr>code := c, ppid := p, child := 0, pend := False\<rparr>) ?s"
      "Live (a\<lparr>code := c, ppid := p, child := 0, pend := False\<rparr>)"] fin by simp
  moreover have "proc_weight ?s + (3 * size (code a) + 2) = proc_weight s + (3 * size k + 2)"
    using weight_upd [OF fin a, of ?s "Live (a\<lparr>code := k, child := next_pid s\<rparr>)"] by simp
  ultimately show ?thesis using p(2) by simp
qed

lemma weight_exit:
  assumes inv: "wait_inv n out s" and p: "runs s p b" "code b = Exit m"
  shows "proc_weight (die p (Exited m) s) < proc_weight s"
proof -
  have b: "tab s p = Some (Live b)" using p(1) by (simp add: runs_def)
  obtain a x where r: "root_live n out s a x" using runs_live [OF inv b] .
  have "tab (die p (Exited m) s) = (tab s)(p \<mapsto> Zombie (ppid b) (Exited m))"
  proof (rule runs_cases [OF r b])
    assume q: "p = ROOT" "b = a"
    then have "x = None" "ppid a = REAPER" using r p(2) by (cases x; auto simp: root_live_def)+
    with root_dies [of n out s a] r q show ?thesis by (auto simp: root_live_def)
  next
    assume q: "x = Some (Live b)" "p = child a" "ppid b = ROOT"
    with child_dies [of n out s a b] r show ?thesis by simp
  qed
  from weight_upd [OF wait_finite [OF inv] b this] show ?thesis by simp
qed

lemma weight_wait:
  assumes "finite (dom (tab s))" "runs s p a" "size k < size (code a)" "tab s q = Some (Zombie p c)"
  shows "proc_weight (reap q (goto p (a\<lparr>code := k, status := Some c\<rparr>) s)) < proc_weight s"
proof -
  let ?s = "goto p (a\<lparr>code := k, status := Some c\<rparr>) s"
  have "tab ?s q = Some (Zombie p c)" "finite (dom (tab ?s))" using assms by (auto simp: runs_def)
  from weight_del [OF this(2,1)] weight_goto [OF assms(1,2), of "a\<lparr>code := k, status := Some c\<rparr>" ?s] assms(3) show ?thesis by simp
qed

lemma wait_decreases:
  assumes inv: "wait_inv n out s" and st: "pstep True s t"
  shows "proc_weight t < proc_weight s"
  using st
proof cases
  case fork
  then show ?thesis using weight_fork [OF inv] by simp
next
  case exit
  then show ?thesis using weight_exit [OF inv] by simp
next
  case wait
  then show ?thesis using weight_wait [OF wait_finite [OF inv]] by simp
next
  case wait_pid
  then show ?thesis using weight_wait [OF wait_finite [OF inv]] by simp
next
  case (reaper q c)
  then show ?thesis using weight_del [OF wait_finite [OF inv] reaper(2)] by simp
next
  case (kill_parent p b k)
  then obtain a x where r: "root_live n out s a x" using runs_live [OF inv, of p b] by (auto simp: runs_def)
  then show ?thesis using runs_root(3) [OF r kill_parent(2)] kill_parent(3) by simp
next
  case (kill_child p b k)
  then obtain a x where r: "root_live n out s a x" using runs_live [OF inv, of p b] by (auto simp: runs_def)
  then show ?thesis using runs_root(3) [OF r kill_child(2)] kill_child(3) by simp
next
  case (handle_sigchld p b)
  then obtain a x where r: "root_live n out s a x" using runs_live [OF inv, of p b] by (auto simp: runs_def)
  then show ?thesis using live_quiet [OF r, of p b] handle_sigchld by (simp add: runs_def)
next
  case (handler_reap p b q c)
  then obtain a x where r: "root_live n out s a x" using runs_live [OF inv, of p b] by auto
  then show ?thesis using live_quiet [OF r, of p b] handler_reap by simp
next
  case (handler_return p b)
  then obtain a x where r: "root_live n out s a x" using runs_live [OF inv, of p b] by auto
  then show ?thesis using live_quiet [OF r, of p b] handler_return by simp
qed (auto elim!: weight_goto [OF wait_finite [OF inv]])


lemma wait_progress:
  assumes "wait_inv n out s" "tab s \<noteq> Map.empty"
  shows "\<exists>t. pstep True s t"
proof (cases "root_gone out s")
  case True
  with assms(2) obtain c where "tab s = [ROOT \<mapsto> Zombie REAPER c]" by (auto simp: root_gone_def)
  then have "pstep True s (reap ROOT s)" by (intro pstep.reaper [of s ROOT c]) simp
  then show ?thesis by blast
next
  case False
  with assms(1) show ?thesis using live_progress by (auto simp: wait_inv_def)
qed

lemma wait_start:
  assumes "waits n False c"
  shows "wait_inv n (expected n c v None) (start c v)"
proof -
  have "root_live n (expected n c v None) (start c v)
      \<lparr>code = c, ppid = REAPER, child = 0, gvar = v, status = None, sigchld = False, pend = False, in_handler = False\<rparr> None"
    using assms by (simp add: root_live_def start_def quiet_def root_out_def ROOT_def)
  then show ?thesis by (auto simp: wait_inv_def)
qed

interpretation wt: terminating_system "\<lambda>s. \<exists>c v. s = start c v \<and> waits n False c \<and> out = expected n c v None" "pstep True" "wait_inv n out"
  "\<lambda>s. tab s = Map.empty" proc_weight for n out
  by unfold_locales (auto intro: wait_start wait_step wait_progress wait_decreases)

lemma waiting_parent:
  assumes "waits n False c" "(pstep True ^^ m) (start c v) s"
  shows "m \<le> proc_weight (start c v)" "\<exists>u. (pstep True)\<^sup>*\<^sup>* s u \<and> tab u = Map.empty"
    "\<not> alive s ROOT \<Longrightarrow> root_out s = expected n c v None \<and> (\<forall>q. q \<noteq> ROOT \<longrightarrow> tab s q = None)"
proof -
  have i: "\<exists>c' v'. start c v = start c' v' \<and> waits n False c' \<and> expected n c v None = expected n c' v' None" using assms(1) by blast
  show "m \<le> proc_weight (start c v)" "\<exists>u. (pstep True)\<^sup>*\<^sup>* s u \<and> tab u = Map.empty"
    using wt.run_from_init [OF i assms(2)] by simp_all
  assume d: "\<not> alive s ROOT"
  have "wait_inv n (expected n c v None) s" using wt.reachable_inv [OF i relpowp_imp_rtranclp [OF assms(2)]] .
  moreover have "alive s ROOT" if "root_live n (expected n c v None) s a x" for a x
    using that by (cases x) (auto simp: root_live_def alive_def)
  ultimately have "root_gone (expected n c v None) s" using d by (auto simp: wait_inv_def)
  then show "root_out s = expected n c v None \<and> (\<forall>q. q \<noteq> ROOT \<longrightarrow> tab s q = None)" by (auto simp: root_gone_def)
qed

text \<open>
  C34. When every \<^verbatim>\<open>fork\<close> and \<^verbatim>\<open>pthread_create\<close> succeeds, every run of the programs that wait for their child is bounded and can be completed. When the parent has
  ended, no child is left, and it has printed the status 42 of its child (\<^verbatim>\<open>fork_term\<close>, \<^verbatim>\<open>01_proc_wait\<close>); in
  \<^verbatim>\<open>process_vs_thread\<close> the parent has seen 100 before and after the child assigned 200 to its own copy, and 300 after its thread
  assigned 300 to the shared variable.
\<close>

theorem waiting_parents:
  assumes "c \<in> {fork_term, proc_wait, process_vs_thread}" "(pstep True ^^ m) (start c 100) s"
  shows "m \<le> proc_weight (start c 100) \<and> (\<exists>u. (pstep True)\<^sup>*\<^sup>* s u \<and> tab u = Map.empty) \<and>
    (\<not> alive s ROOT \<longrightarrow> (\<forall>q. q \<noteq> ROOT \<longrightarrow> tab s q = None) \<and>
       root_out s = (if c = process_vs_thread then [Var 100, Var 100, Var 100, Var 100, Var 300, Var 300] else [Status (Some (Exited 42))]))"
proof -
  let ?n = "if c = process_vs_thread then 0 else 42"
  have d: "fork_term \<noteq> process_vs_thread" "proc_wait \<noteq> process_vs_thread"
    by (simp_all add: fork_term_def proc_wait_def process_vs_thread_def)
  have "waits ?n False c"
    using assms(1) d by (auto simp: fork_term_def proc_wait_def process_vs_thread_def)
  moreover have "expected ?n c 100 None =
      (if c = process_vs_thread then [Var 100, Var 100, Var 100, Var 100, Var 300, Var 300] else [Status (Some (Exited 42))])"
    using assms(1) d by (auto simp: fork_term_def proc_wait_def process_vs_thread_def)
  ultimately show ?thesis using waiting_parent [of ?n c m 100 s] assms(2) by auto
qed

theorem waiting_parents_witness:
  "\<exists>u. (pstep True)\<^sup>*\<^sup>* (start fork_term 100) u \<and> \<not> alive u ROOT \<and> root_out u = [Status (Some (Exited 42))]"
proof -
  have n: "fork_term \<noteq> process_vs_thread" by (simp add: fork_term_def process_vs_thread_def)
  have "(pstep True ^^ 0) (start fork_term 100) (start fork_term 100)" by simp
  from waiting_parents [OF _ this] obtain u where u: "(pstep True)\<^sup>*\<^sup>* (start fork_term 100) u" "tab u = Map.empty" by blast
  then obtain m where m: "(pstep True ^^ m) (start fork_term 100) u" using rtranclp_imp_relpowp by metis
  have "\<not> alive u ROOT" using u(2) by (simp add: alive_def)
  with waiting_parents [OF _ m] n u(1) show ?thesis by auto
qed

section \<open>A handler that reaps all children\<close>

lemma fork_children_plain [simp]: "plain (fork_children n k) = plain k" "plain (sleeps n k) = plain k"
  by (induction n) auto

lemma zombies_main_inv:
  assumes "(pstep ok)\<^sup>*\<^sup>* (start zombies_main v) s"
  shows "s = start zombies_main v \<or> reap_inv s"
  using assms
proof (induction rule: rtranclp_induct)
  case (step s t)
  have tr: "tree_inv s" using pt.reachable_inv step.hyps(1) by blast
  show ?case
  proof (cases "s = start zombies_main v")
    case True
    from step.hyps(2) have "reap_inv t" unfolding True
      by cases (auto simp: start_def zombies_main_def runs_def reap_inv_def zombies_of_def goto_def split: if_splits)
    then show ?thesis by blast
  qed (use step tr reap_step in blast)
qed simp



lemma zombie_appears:
  "\<exists>s a c. (pstep True)\<^sup>*\<^sup>* (start zombies_main 0) s \<and> tab s ROOT = Some (Live a) \<and> sigchld a \<and> tab s 3 = Some (Zombie ROOT c)"
proof -
  let ?k = "fork_children 4 (sleeps 10 (Exit 0))"
  define a where "a = \<lparr>code = zombies_main, ppid = REAPER, child = 0, gvar = 0, status = None, sigchld = False, pend = False, in_handler = False\<rparr>"
  define a1 where "a1 = a\<lparr>code := fork_children 5 (sleeps 10 (Exit 0)), sigchld := True\<rparr>"
  define s1 where "s1 = goto ROOT a1 (start zombies_main 0)"
  define b where "b = a1\<lparr>code := Sleep (Exit 0), ppid := ROOT, child := 0, pend := False\<rparr>"
  define s2 where "s2 = spawn b (goto ROOT (a1\<lparr>code := ?k, child := next_pid s1\<rparr>) s1)"
  define s3 where "s3 = goto 3 (b\<lparr>code := Exit 0\<rparr>) s2"
  note d = a_def a1_def b_def s1_def s2_def s3_def
  have f: "fork_children 5 k = Fork (Exit 1) (Sleep (Exit 0)) (fork_children 4 k)" for k by (simp add: numeral_eq_Suc)
  have n: "next_pid s1 = 3" by (simp add: s1_def start_def)
  have "pstep True (start zombies_main 0) s1" unfolding s1_def a1_def
    by (rule pstep.sigaction) (auto simp: runs_def start_def a_def zombies_main_def)
  moreover have "pstep True s1 s2" unfolding s2_def b_def
    by (rule pstep.fork) (auto simp: runs_def s1_def a1_def a_def f)
  moreover have "pstep True s2 s3" unfolding s3_def
    by (rule pstep.sleep) (auto simp: runs_def s2_def n b_def a1_def a_def ROOT_def)
  moreover have "pstep True s3 (die 3 (Exited 0) s3)"
    by (rule pstep.exit [of s3 3 "b\<lparr>code := Exit 0\<rparr>"]) (auto simp: runs_def s3_def b_def a1_def a_def)
  ultimately have r: "(pstep True)\<^sup>*\<^sup>* (start zombies_main 0) (die 3 (Exited 0) s3)"
    by (meson converse_rtranclp_into_rtranclp rtranclp.rtrancl_refl)
  have t: "tab s3 3 = Some (Live (b\<lparr>code := Exit 0\<rparr>))" "tab s3 ROOT = Some (Live (a1\<lparr>code := ?k, child := 3\<rparr>))"
    by (simp_all add: s3_def s2_def n ROOT_def)
  have "tab (die 3 (Exited 0) s3) 3 = Some (Zombie ROOT (Exited 0))" by (simp add: die_Zombie [OF t(1)] b_def)
  moreover have "\<exists>c. tab (die 3 (Exited 0) s3) ROOT = Some (Live c) \<and> sigchld c"
    using t(2) by (simp add: die_Live [OF t(1)] ROOT_def a1_def)
  ultimately show ?thesis using r by blast
qed


section \<open>Parents that do not wait\<close>

primrec careless :: "prog \<Rightarrow> bool" where
  "careless (Fork f c k) = (careless f \<and> careless c \<and> careless k)"
| "careless (Exit n) = True"
| "careless (Wait k) = False"
| "careless (Wait_pid k) = False"
| "careless (Kill_parent k) = careless k"
| "careless (Kill_child k) = careless k"
| "careless (Sleep k) = careless k"
| "careless (Assign v k) = careless k"
| "careless (Thread v k) = careless k"
| "careless (Show_var k) = careless k"
| "careless (Show_status k) = careless k"
| "careless (Show_ppid k) = careless k"
| "careless (Sigaction f k) = False"

definition careless_inv :: "ptab \<Rightarrow> bool" where
  "careless_inv s \<longleftrightarrow> (\<forall>p a. tab s p = Some (Live a) \<longrightarrow> careless (code a) \<and> quiet a)"

lemma careless_die: "careless_inv s \<Longrightarrow> careless_inv (die p c s)"
proof (cases "alive s p")
  case True
  assume inv: "careless_inv s"
  from True obtain a where a: "tab s p = Some (Live a)" by (auto simp: alive_def)
  with inv show ?thesis by (fastforce simp: careless_inv_def die_Live [OF a] quiet_def)
qed (simp add: die_dead)

lemma careless_goto: "careless_inv s \<Longrightarrow> careless (code a) \<Longrightarrow> quiet a \<Longrightarrow> careless_inv (goto p a s)"
  by (simp add: careless_inv_def)

lemma careless_sigterm: "careless_inv s \<Longrightarrow> careless_inv (sigterm q s)"
  using careless_die [of s q Killed] by (simp add: sigterm_def) (simp add: careless_inv_def)

lemma careless_code: "careless_inv s \<Longrightarrow> runs s p a \<Longrightarrow> careless (code a) \<and> quiet a"
  by (auto simp: careless_inv_def runs_def)

lemma careless_step:
  assumes "careless_inv s" "pstep ok s t"
  shows "careless_inv t"
  using assms(2)
proof cases
  case (fork p a f c k)
  then show ?thesis using careless_code [OF assms(1) fork(2)] assms(1) by (auto simp: careless_inv_def quiet_def)
next
  case (kill_parent p a k)
  then show ?thesis using careless_code [OF assms(1) kill_parent(2)] assms(1) by (auto intro!: careless_sigterm careless_goto)
next
  case (kill_child p a k)
  then show ?thesis using careless_code [OF assms(1) kill_child(2)] assms(1) by (auto intro!: careless_sigterm careless_goto)
qed (use careless_code [OF assms(1)] assms(1) in \<open>fastforce simp: careless_inv_def quiet_def runs_def intro: careless_die\<close>)+


lemma zombie_die:
  assumes "tab s q = Some (Zombie p c)" "p' \<noteq> p"
  shows "tab (die p' e s) q = Some (Zombie p c)"
proof (cases "alive s p'")
  case True
  then obtain a where a: "tab s p' = Some (Live a)" by (auto simp: alive_def)
  with assms show ?thesis by (auto simp: die_Zombie [OF a])
qed (use assms in \<open>simp add: die_dead\<close>)

lemma die_not_alive: "tree_inv s \<Longrightarrow> \<not> alive (die p c s) p"
  by (cases "alive s p") (auto simp: die_dead alive_def dest: die_Live)

lemma zombie_sigterm:
  assumes "tab s q = Some (Zombie p c)" "tree_inv s" "alive (sigterm r s) p"
  shows "tab (sigterm r s) q = Some (Zombie p c)"
  using assms zombie_die [OF assms(1)] die_not_alive [OF assms(2)] by (cases "r = p") (auto simp: sigterm_def split: if_splits)

text \<open>Nobody but the parent removes a zombie, and a careless parent does not.\<close>

lemma zombie_stays:
  assumes inv: "careless_inv s" "tree_inv s" and z: "tab s q = Some (Zombie p c)" "p \<noteq> REAPER" and st: "pstep ok s t" "alive t p"
  shows "tab t q = Some (Zombie p c)"
  using st(1)
proof cases
  case (fork r a f d k)
  then show ?thesis using z tree_fresh [OF inv(2), of "next_pid s"] by (auto simp: runs_def)
next
  case (exit r a m)
  then show ?thesis using zombie_die [OF z(1), of r] die_not_alive [OF inv(2)] st(2) by (cases "r = p") auto
next
  case (kill_parent r a k)
  then have "tab (goto r (a\<lparr>code := k\<rparr>) s) q = Some (Zombie p c)" "tree_inv (goto r (a\<lparr>code := k\<rparr>) s)"
    using z(1) inv(2) by (auto simp: runs_def intro!: tree_goto)
  from zombie_sigterm [OF this] kill_parent(1) st(2) show ?thesis by simp
next
  case (kill_child r a k)
  then have "tab (goto r (a\<lparr>code := k\<rparr>) s) q = Some (Zombie p c)" "tree_inv (goto r (a\<lparr>code := k\<rparr>) s)"
    using z(1) inv(2) by (auto simp: runs_def intro!: tree_goto)
  from zombie_sigterm [OF this] kill_child(1) st(2) show ?thesis by simp
next
  case (handler_reap r a q' e)
  then show ?thesis using inv(1) by (auto simp: careless_inv_def quiet_def)
qed (use z careless_code [OF inv(1)] in \<open>fastforce simp: runs_def\<close>)+

lemma stays_dead:
  assumes "tree_inv s" "p < next_pid s" "\<not> alive s p" "pstep ok s t"
  shows "\<not> alive t p" "next_pid s \<le> next_pid t"
proof -
  have d: "\<not> alive (die r e u) p" if "\<not> alive u p" for r e u
    using that by (cases "alive u r") (auto simp: die_dead alive_def dest!: die_Live [THEN iffD1, rotated])
  have g: "\<not> alive (goto r b s) p" if "runs s r a" for r a b
    using that assms(3) by (auto simp: alive_def runs_def)
  have n: "next_pid (sigterm r u) = next_pid u" for r u by (simp add: sigterm_def)
  have k: "\<not> alive (sigterm r u) p" if "\<not> alive u p" for r u
    using d [OF that] that by (simp add: sigterm_def) (simp add: alive_def)
  from assms(4) show "\<not> alive t p"
    by cases (use assms(2,3) d g k in \<open>auto simp: alive_def runs_def\<close>)
  from assms(4) show "next_pid s \<le> next_pid t" by cases (simp_all add: n)
qed


lemma zombie_persists:
  assumes "(pstep ok)\<^sup>*\<^sup>* s t" "careless_inv s" "tree_inv s" "tab s q = Some (Zombie p c)" "p \<noteq> REAPER"
  shows "tree_inv t \<and> careless_inv t \<and> p < next_pid t \<and> (tab t q = Some (Zombie p c) \<or> \<not> alive t p)"
  using assms(1)
proof (induction rule: rtranclp_induct)
  case base
  have "p < q" "q < next_pid s" using tree_invD(2,3) [OF assms(3,4)] by simp_all
  then show ?case using assms by simp
next
  case (step t u)
  then have i: "tree_inv t" "careless_inv t" "p < next_pid t" and o: "tab t q = Some (Zombie p c) \<or> \<not> alive t p" by blast+
  have "p < next_pid u" if "\<not> alive t p" using stays_dead(2) [OF i(1,3) that step.hyps(2)] i(3) by simp
  moreover have "p < next_pid u" if "tab t q = Some (Zombie p c)"
  proof -
    have "next_pid t \<le> next_pid u" using step.hyps(2) by cases (simp_all add: sigterm_def)
    with i(3) show ?thesis by simp
  qed
  moreover have "tab u q = Some (Zombie p c) \<or> \<not> alive u p"
    using o zombie_stays [OF i(2,1) _ assms(5) step.hyps(2)] stays_dead(1) [OF i(1,3) _ step.hyps(2)] by blast
  ultimately show ?case using o tree_step [OF step.hyps(2) i(1)] careless_step [OF i(2) step.hyps(2)] by blast
qed

interpretation cl: invariant_system "\<lambda>s. \<exists>c v. s = start c v \<and> careless c" "pstep ok" careless_inv for ok
proof
  show "careless_inv s" if "\<exists>c v. s = start c v \<and> careless c" for s
    using that by (auto simp: careless_inv_def start_def quiet_def split: if_splits)
qed (rule careless_step)



end
