(* ===== verification/Polling.thy ===== *)
theory Polling
  imports CString
begin

text \<open>
  The examples of lesson 4: \<^verbatim>\<open>00_EOF_and_beyond.c\<close> (a file with a hole), \<^verbatim>\<open>select.c\<close>, \<^verbatim>\<open>poll.c\<close> and \<^verbatim>\<open>poll-vs-select.c\<close>. What
  the kernel answers to \<^verbatim>\<open>select\<close>, \<^verbatim>\<open>ppoll\<close> and \<^verbatim>\<open>read\<close> is an argument; what it promises (only requested descriptors are reported, a
  closed one is reported as invalid) is stated as a predicate on the answers.
\<close>

section \<open>Writing beyond the end of a file\<close>

text \<open>\<^verbatim>\<open>write\<close> at an offset: a gap beyond the end reads as zeros; nothing written changes nothing.\<close>

definition write_at :: "nat \<Rightarrow> string \<Rightarrow> string \<Rightarrow> string" where
  "write_at off d f =
     (if d = [] then f else take off f @ replicate (off - length f) NUL @ d @ drop (off + length d) f)"

text \<open>
  \<^verbatim>\<open>main\<close> on the old contents of the file (\<^verbatim>\<open>O_CREAT\<close> without \<^verbatim>\<open>O_TRUNC\<close>); \<open>n1\<close> and \<open>n2\<close> are the numbers of bytes the two unchecked writes write.
\<close>

definition eof_main :: "bool \<Rightarrow> nat \<Rightarrow> bool \<Rightarrow> nat \<Rightarrow> string \<Rightarrow> int \<times> string" where
  "eof_main open_ok n1 lseek_ok n2 f =
     (if \<not> open_ok then (1, f)
      else (let d1 = take n1 ''Hello''; f1 = write_at 0 d1 f; newPos = length d1 + 100
            in if \<not> lseek_ok then (1, f1)
               else (0, write_at newPos (take n2 '' World'') f1)))"

section \<open>select\<close>

definition TIMEOUT :: nat where "TIMEOUT = 2"
definition BUF_LEN :: nat where "BUF_LEN = 1024"

text \<open>The timeout that is really passed, in microseconds.\<close>

definition select_timeout :: nat where "select_timeout = TIMEOUT * 1000000 + 500000"

datatype read_ans = Read_fail | Read_data string

text \<open>What \<^verbatim>\<open>select\<close> answers: an error, a timeout, or the set of ready descriptors.\<close>

datatype select_ans = Select_fail | Select_none | Select_ready "nat set"

definition select_ok :: "nat set \<Rightarrow> select_ans \<Rightarrow> bool" where
  "select_ok readfds a \<longleftrightarrow> (case a of Select_ready r \<Rightarrow> r \<noteq> {} \<and> r \<subseteq> readfds | _ \<Rightarrow> True)"

datatype message = M_timeout | M_read string | M_impossible | M_eof | M_error | M_writable

text \<open>The set built with \<^verbatim>\<open>FD_ZERO\<close>, \<^verbatim>\<open>FD_SET\<close> and \<^verbatim>\<open>FD_CLR\<close>.\<close>

definition select_set :: "nat set" where
  "select_set = insert 2 (insert 0 {}) - {2}"

definition select_main :: "select_ans \<Rightarrow> read_ans \<Rightarrow> int \<times> message list" where
  "select_main a rd =
     (case a of
        Select_fail \<Rightarrow> (1, [M_error])
      | Select_none \<Rightarrow> (0, [M_timeout])
      | Select_ready r \<Rightarrow>
          (if 0 \<in> r then
             (case rd of
                Read_fail \<Rightarrow> (1, [M_error])
              | Read_data d \<Rightarrow> (let buf = take BUF_LEN d in (0, if buf \<noteq> [] then [M_read (cstr (buf @ [NUL]))] else [])))
           else (1, [M_impossible])))"

section \<open>poll\<close>

text \<open>The timeout in milliseconds as seconds and nanoseconds.\<close>

definition ppoll_timeout :: "int \<Rightarrow> int \<times> int" where
  "ppoll_timeout timeout_ms = (timeout_ms sdiv 1000, (timeout_ms smod 1000) * 1000000)"

datatype pollflag = POLLIN | POLLOUT | POLLNVAL | POLLHUP | POLLERR

record pollfd =
  pfd :: int
  pevents :: "pollflag set"

text \<open>An error, or the \<^verbatim>\<open>revents\<close> of the two entries.\<close>

datatype poll_ans = Poll_fail | Poll_ready "pollflag set" "pollflag set"

definition entry_ok :: "(int \<Rightarrow> bool) \<Rightarrow> pollfd \<Rightarrow> pollflag set \<Rightarrow> bool" where
  "entry_ok is_open e r \<longleftrightarrow>
     (if pfd e < 0 then r = {} else if \<not> is_open (pfd e) then r = {POLLNVAL} else r \<subseteq> pevents e \<union> {POLLHUP, POLLERR})"

fun poll_ok :: "(int \<Rightarrow> bool) \<Rightarrow> pollfd \<Rightarrow> pollfd \<Rightarrow> poll_ans \<Rightarrow> bool" where
  "poll_ok is_open e0 e1 Poll_fail = True"
| "poll_ok is_open e0 e1 (Poll_ready r0 r1) = (entry_ok is_open e0 r0 \<and> entry_ok is_open e1 r1)"

text \<open>The entry for the standard input. The second entry of the array is never assigned: it has whatever value it has.\<close>

definition stdin_entry :: pollfd where "stdin_entry = \<lparr>pfd = 0, pevents = {POLLIN}\<rparr>"

text \<open>The body of the loop: the messages, and the exit code when the loop is left.\<close>

definition poll_body :: "poll_ans \<Rightarrow> read_ans \<Rightarrow> message list \<times> int option" where
  "poll_body a rd =
     (case a of
        Poll_fail \<Rightarrow> ([M_error], Some 1)
      | Poll_ready r0 r1 \<Rightarrow>
          (if r0 = {} \<and> r1 = {} then ([M_timeout], None)
           else
             (let tail = (if POLLOUT \<in> r1 then [M_writable] else [])
              in if POLLIN \<in> r0 then
                   (case rd of
                      Read_data d \<Rightarrow>
                        (if take 1023 d \<noteq> [] then (M_read (cstr (take 1023 d @ [NUL])) # tail, None) else ([M_eof], Some 0))
                    | Read_fail \<Rightarrow> ([M_error], Some 0))
                 else (tail, None))))"

fun poll_loop :: "(poll_ans \<times> read_ans) list \<Rightarrow> message list \<Rightarrow> message list \<times> int option" where
  "poll_loop [] out = (out, None)"
| "poll_loop ((a, rd) # rest) out =
     (case poll_body a rd of (ms, Some code) \<Rightarrow> (out @ ms, Some code) | (ms, None) \<Rightarrow> poll_loop rest (out @ ms))"

section \<open>poll versus select\<close>

definition BUF_SIZE :: nat where "BUF_SIZE = 1024"

record pvs =
  keep_running :: bool
  eof_reached :: bool
  file_rest :: string
  shown_file :: "string list"
  shown_stdin :: "message list"
  file_reads :: nat

text \<open>
  What happens in one iteration: the answer of \<^verbatim>\<open>select\<close> (an interruption or an error both leave the loop), what a read of the standard input
  gives, how many bytes a read of the file gives (at least one unless the end is reached) or a failure, and whether \<^verbatim>\<open>SIGINT\<close> arrives before the next test.
\<close>

record pvs_round =
  sel :: select_ans
  stdin_read :: read_ans
  file_read :: "nat option"
  sigint :: bool

definition handle_sigint :: "pvs \<Rightarrow> pvs" where
  "handle_sigint s = s\<lparr>keep_running := False\<rparr>"

definition pvs_set :: "nat \<Rightarrow> pvs \<Rightarrow> nat set" where
  "pvs_set fd_file s = (if eof_reached s then {0} else {0, fd_file})"

definition max_fd :: "nat \<Rightarrow> nat" where
  "max_fd fd_file = (if 0 > fd_file then 0 else fd_file) + 1"

definition read_stdin :: "read_ans \<Rightarrow> pvs \<Rightarrow> pvs" where
  "read_stdin rd s =
     s\<lparr>shown_stdin := shown_stdin s @
        [case rd of Read_fail \<Rightarrow> M_error | Read_data d \<Rightarrow> if take BUF_SIZE d = [] then M_eof else M_read (cstr (take BUF_SIZE d @ [NUL]))]\<rparr>"

definition read_file :: "nat option \<Rightarrow> pvs \<Rightarrow> pvs" where
  "read_file n s =
     (case n of
        None \<Rightarrow> s
      | Some k \<Rightarrow>
          (let d = take (min k BUF_SIZE) (file_rest s); s1 = s\<lparr>file_reads := file_reads s + 1\<rparr>
           in if d = [] then s1\<lparr>eof_reached := True\<rparr>
              else s1\<lparr>file_rest := drop (length d) (file_rest s), shown_file := shown_file s @ [d]\<rparr>))"

text \<open>One iteration; \<open>False\<close> when the loop is left by \<^verbatim>\<open>break\<close>.\<close>

definition pvs_body :: "nat \<Rightarrow> pvs_round \<Rightarrow> pvs \<Rightarrow> bool \<times> pvs" where
  "pvs_body fd_file r s =
     (case sel r of
        Select_fail \<Rightarrow> (False, s)
      | Select_none \<Rightarrow> (True, s)
      | Select_ready fds \<Rightarrow>
          (let s1 = (if 0 \<in> fds then read_stdin (stdin_read r) s else s)
           in (True, if \<not> eof_reached s1 \<and> fd_file \<in> fds then read_file (file_read r) s1 else s1)))"

text \<open>The loop; the result says whether it has ended.\<close>

fun pvs_loop :: "nat \<Rightarrow> pvs_round list \<Rightarrow> pvs \<Rightarrow> bool \<times> pvs" where
  "pvs_loop fd_file rs s =
     (if \<not> keep_running s then (True, s)
      else case rs of
             [] \<Rightarrow> (False, s)
           | r # rest \<Rightarrow>
               (case pvs_body fd_file r s of
                  (False, t) \<Rightarrow> (True, t)
                | (True, t) \<Rightarrow> pvs_loop fd_file rest (if sigint r then handle_sigint t else t)))"

declare pvs_loop.simps [simp del]

definition pvs_main :: "bool \<Rightarrow> nat \<Rightarrow> string \<Rightarrow> pvs_round list \<Rightarrow> int \<times> bool \<times> pvs" where
  "pvs_main open_ok fd_file contents rs =
     (let s = \<lparr>keep_running = True, eof_reached = False, file_rest = contents, shown_file = [], shown_stdin = [], file_reads = 0\<rparr>
      in if \<not> open_ok then (1, True, s) else (0, pvs_loop fd_file rs s))"

section \<open>The file with a hole\<close>

lemma length_write_at: "d \<noteq> [] \<Longrightarrow> length (write_at off d f) = max (length f) (off + length d)"
  by (simp add: write_at_def)

lemma write_at_read:
  assumes "d \<noteq> []"
  shows "take (length d) (drop off (write_at off d f)) = d"
proof -
  have "length (take off f @ replicate (off - length f) NUL) = off" by simp
  then show ?thesis using assms by (simp add: write_at_def flip: append_assoc)
qed

lemma eof_main_empty: "eof_main True 5 True 6 [] = (0, ''Hello'' @ replicate 100 NUL @ '' World'')"
  by (simp add: eof_main_def write_at_def)

lemma eof_main_keeps_old:
  assumes "length f > 111"
  shows "snd (eof_main True 5 True 6 f) = ''Hello'' @ take 100 (drop 5 f) @ '' World'' @ drop 111 f"
proof -
  have five: "Suc (Suc (Suc (Suc (Suc 0)))) = 5" by simp
  show ?thesis using assms by (simp add: eof_main_def write_at_def five)
qed

section \<open>The branch that should not happen\<close>

lemma select_main_possible: "select_ok select_set a \<Longrightarrow> M_impossible \<notin> set (snd (select_main a rd))"
  by (auto simp: select_main_def select_ok_def select_set_def Let_def split: select_ans.splits read_ans.splits)

lemma select_timeout_message: "select_timeout > TIMEOUT * 1000000"
  by (simp add: select_timeout_def)

section \<open>The poll loop\<close>

lemma ppoll_timeout_main: "ppoll_timeout (int TIMEOUT * 1000) = (2, 0)"
  by (simp add: ppoll_timeout_def TIMEOUT_def signed_divide_int_def signed_modulo_int_def)

text \<open>The rounds that leave the loop.\<close>

definition poll_ends :: "poll_ans \<times> read_ans \<Rightarrow> bool" where
  "poll_ends x = (case x of
     (Poll_fail, _) \<Rightarrow> True
   | (Poll_ready r0 r1, rd) \<Rightarrow> POLLIN \<in> r0 \<and> (rd = Read_fail \<or> rd = Read_data []))"

text \<open>What a round that does not leave the loop prints of its input.\<close>

definition poll_input :: "poll_ans \<times> read_ans \<Rightarrow> message list" where
  "poll_input x = (case x of
     (Poll_ready r0 r1, Read_data d) \<Rightarrow> if POLLIN \<in> r0 then [M_read (cstr (take 1023 d @ [NUL]))] else []
   | _ \<Rightarrow> [])"

definition is_input :: "message \<Rightarrow> bool" where
  "is_input m = (case m of M_read d \<Rightarrow> True | _ \<Rightarrow> False)"

lemmas poll_defs = poll_body_def poll_ends_def poll_input_def is_input_def Let_def

lemma poll_body_ends: "(snd (poll_body a rd) = None) = (\<not> poll_ends (a, rd))"
  by (auto simp: poll_defs split: poll_ans.splits read_ans.splits)

lemma poll_body_input: "\<not> poll_ends (a, rd) \<Longrightarrow> filter is_input (fst (poll_body a rd)) = poll_input (a, rd)"
  by (auto simp: poll_defs split: poll_ans.splits read_ans.splits)

lemma poll_body_timeout:
  "M_timeout \<in> set (fst (poll_body a rd)) \<Longrightarrow> a = Poll_ready {} {}"
  by (auto simp: poll_defs split: poll_ans.splits read_ans.splits if_splits)

lemma poll_body_writable:
  "M_writable \<in> set (fst (poll_body a rd)) \<Longrightarrow> \<exists>r0 r1. a = Poll_ready r0 r1 \<and> POLLOUT \<in> r1"
  by (auto simp: poll_defs split: poll_ans.splits read_ans.splits if_splits)

lemma poll_loop_Cons:
  "poll_loop ((a, rd) # rest) out =
     (if poll_ends (a, rd) then (out @ fst (poll_body a rd), snd (poll_body a rd)) else poll_loop rest (out @ fst (poll_body a rd)))"
  using poll_body_ends [of a rd] by (auto split: prod.splits option.splits)

lemmas [simp del] = poll_loop.simps(2)

lemma poll_loop_messages:
  "m \<in> set (fst (poll_loop rs out)) \<Longrightarrow> m \<in> set out \<or> (\<exists>(a, rd) \<in> set rs. m \<in> set (fst (poll_body a rd)))"
proof (induction rs arbitrary: out)
  case (Cons x rs)
  obtain a rd where x: "x = (a, rd)" by (cases x)
  show ?case
  proof (cases "poll_ends (a, rd)")
    case True
    then show ?thesis using Cons.prems by (auto simp: x poll_loop_Cons)
  next
    case False
    then show ?thesis using Cons.prems Cons.IH [of "out @ fst (poll_body a rd)"] by (auto simp: x poll_loop_Cons)
  qed
qed simp

lemma poll_loop_running: "(snd (poll_loop rs out) = None) = (\<forall>x \<in> set rs. \<not> poll_ends x)"
proof (induction rs arbitrary: out)
  case (Cons x rs)
  obtain a rd where x: "x = (a, rd)" by (cases x)
  show ?case using Cons.IH poll_body_ends [of a rd] by (auto simp: x poll_loop_Cons)
qed simp

lemma poll_loop_input:
  "\<forall>x \<in> set rs. \<not> poll_ends x \<Longrightarrow> filter is_input (fst (poll_loop rs out)) = filter is_input out @ concat (map poll_input rs)"
proof (induction rs arbitrary: out)
  case (Cons x rs)
  obtain a rd where x: "x = (a, rd)" by (cases x)
  show ?case using Cons.IH [of "out @ fst (poll_body a rd)"] Cons.prems by (simp add: x poll_loop_Cons poll_body_input)
qed simp

lemma poll_loop_hangup:
  "\<forall>(a, rd) \<in> set rs. \<exists>r1. a = Poll_ready {POLLHUP} r1 \<and> POLLOUT \<notin> r1 \<Longrightarrow> poll_loop rs out = (out, None)"
proof (induction rs)
  case (Cons x rs)
  obtain a rd where x: "x = (a, rd)" by (cases x)
  from Cons.prems have e: "\<not> poll_ends (a, rd)" "fst (poll_body a rd) = []" by (auto simp: x poll_defs)
  show ?case using Cons.IH Cons.prems e by (simp add: x poll_loop_Cons)
qed simp

text \<open>
  C37. The loop of \<^verbatim>\<open>poll.c\<close>, whose second \<^verbatim>\<open>pollfd\<close> is never initialised. Whatever it holds, the loop is left exactly at the first failure of
  \<^verbatim>\<open>ppoll\<close>, failed read or end of file on a readable standard input, and until then it prints every chunk that was read, once and in order. But if
  the garbage is a non-negative number that is not an open descriptor, the message that the timeout has elapsed is never printed; "stdout is
  writable" is printed only if the garbage asks for it. And a pipe whose writer has gone, which the kernel reports as \<^verbatim>\<open>POLLHUP\<close> without
  \<^verbatim>\<open>POLLIN\<close>, keeps the loop running for ever without a message: its end of file is not seen.
\<close>

theorem poll_rounds:
  assumes "\<forall>(a, rd) \<in> set rs. poll_ok is_open stdin_entry e1 a"
  shows "((snd (poll_loop rs []) = None) = (\<forall>x \<in> set rs. \<not> poll_ends x)) \<and>
    (snd (poll_loop rs []) = None \<longrightarrow> filter is_input (fst (poll_loop rs [])) = concat (map poll_input rs)) \<and>
    (pfd e1 \<ge> 0 \<and> \<not> is_open (pfd e1) \<longrightarrow> M_timeout \<notin> set (fst (poll_loop rs []))) \<and>
    (pfd e1 < 0 \<or> POLLOUT \<notin> pevents e1 \<longrightarrow> M_writable \<notin> set (fst (poll_loop rs []))) \<and>
    ((\<forall>(a, rd) \<in> set rs. \<exists>r1. a = Poll_ready {POLLHUP} r1 \<and> POLLOUT \<notin> r1) \<longrightarrow> poll_loop rs [] = ([], None))"
proof (intro conjI impI)
  show "(snd (poll_loop rs []) = None) = (\<forall>x \<in> set rs. \<not> poll_ends x)" by (rule poll_loop_running)
  show "filter is_input (fst (poll_loop rs [])) = concat (map poll_input rs)" if "snd (poll_loop rs []) = None"
    using that poll_loop_input [of rs "[]"] by (simp add: poll_loop_running)
  show "M_timeout \<notin> set (fst (poll_loop rs []))" if g: "pfd e1 \<ge> 0 \<and> \<not> is_open (pfd e1)"
  proof
    assume "M_timeout \<in> set (fst (poll_loop rs []))"
    from poll_loop_messages [OF this] obtain a rd where "(a, rd) \<in> set rs" "M_timeout \<in> set (fst (poll_body a rd))" by auto
    moreover from this(2) have "a = Poll_ready {} {}" by (rule poll_body_timeout)
    ultimately have "poll_ok is_open stdin_entry e1 (Poll_ready {} {})" using assms by auto
    then show False using g by (auto simp: entry_ok_def)
  qed
  show "M_writable \<notin> set (fst (poll_loop rs []))" if g: "pfd e1 < 0 \<or> POLLOUT \<notin> pevents e1"
  proof
    assume "M_writable \<in> set (fst (poll_loop rs []))"
    from poll_loop_messages [OF this] obtain a rd where a: "(a, rd) \<in> set rs" "M_writable \<in> set (fst (poll_body a rd))" by auto
    from poll_body_writable [OF a(2)] obtain r0 r1 where r: "a = Poll_ready r0 r1" "POLLOUT \<in> r1" by blast
    with a(1) assms have "entry_ok is_open e1 r1" by auto
    then show False using g r(2) by (auto simp: entry_ok_def split: if_splits)
  qed
qed (rule poll_loop_hangup)

definition demo_garbage :: pollfd where "demo_garbage = \<lparr>pfd = 77, pevents = {}\<rparr>"

definition demo_rounds :: "(poll_ans \<times> read_ans) list" where
  "demo_rounds = [(Poll_ready {} {POLLNVAL}, Read_fail), (Poll_ready {POLLIN} {POLLNVAL}, Read_data ''hi''),
                  (Poll_ready {POLLIN} {POLLNVAL}, Read_data [])]"

lemma demo_rounds_ok: "\<forall>(a, rd) \<in> set demo_rounds. poll_ok (\<lambda>d. d < 3) stdin_entry demo_garbage a"
  by (simp add: demo_rounds_def stdin_entry_def demo_garbage_def entry_ok_def)

theorem poll_rounds_witness: "snd (poll_loop demo_rounds []) \<noteq> None \<and> M_timeout \<notin> set (fst (poll_loop demo_rounds []))"
proof -
  have "\<not> (\<forall>x \<in> set demo_rounds. \<not> poll_ends x)" by (simp add: demo_rounds_def poll_ends_def)
  then show ?thesis using poll_rounds [OF demo_rounds_ok] by (simp add: demo_garbage_def)
qed

section \<open>Monitoring the file and the standard input\<close>

text \<open>
  What is kept of the file: what was shown and what is left are the contents, every chunk fits the buffer, and there was one more read than
  chunks exactly when the end was seen, at which nothing is left.
\<close>

definition pvs_inv :: "string \<Rightarrow> pvs \<Rightarrow> bool" where
  "pvs_inv contents s \<longleftrightarrow>
     concat (shown_file s) @ file_rest s = contents \<and>
     (\<forall>c \<in> set (shown_file s). 0 < length c \<and> length c \<le> BUF_SIZE) \<and>
     file_reads s = length (shown_file s) + (if eof_reached s then 1 else 0) \<and>
     (eof_reached s \<longrightarrow> file_rest s = [])"

text \<open>A read of zero bytes means the end of the file.\<close>

definition file_read_ok :: "pvs_round \<Rightarrow> bool" where
  "file_read_ok r \<longleftrightarrow> file_read r \<noteq> Some 0"

text \<open>A round that leaves the loop, and one in which the file is offered.\<close>

definition stops :: "pvs_round \<Rightarrow> bool" where
  "stops r \<longleftrightarrow> sigint r \<or> sel r = Select_fail"

definition offers :: "nat \<Rightarrow> pvs_round \<Rightarrow> bool" where
  "offers fd_file r \<longleftrightarrow> file_read r \<noteq> None \<and> (case sel r of Select_ready fds \<Rightarrow> fd_file \<in> fds | _ \<Rightarrow> False)"

lemma read_stdin_keeps [simp]:
  "eof_reached (read_stdin rd s) = eof_reached s" "file_rest (read_stdin rd s) = file_rest s" "shown_file (read_stdin rd s) = shown_file s"
  "file_reads (read_stdin rd s) = file_reads s" "keep_running (read_stdin rd s) = keep_running s"
  by (simp_all add: read_stdin_def)

lemma handle_sigint_keeps [simp]:
  "eof_reached (handle_sigint s) = eof_reached s" "file_rest (handle_sigint s) = file_rest s" "shown_file (handle_sigint s) = shown_file s"
  "file_reads (handle_sigint s) = file_reads s" "\<not> keep_running (handle_sigint s)"
  by (simp_all add: handle_sigint_def)

lemma pvs_inv_cong:
  assumes "eof_reached t = eof_reached s" "file_rest t = file_rest s" "shown_file t = shown_file s" "file_reads t = file_reads s"
  shows "pvs_inv contents t = pvs_inv contents s"
  using assms by (simp add: pvs_inv_def)

lemma read_file_keep_running [simp]: "keep_running (read_file n s) = keep_running s"
  by (simp add: read_file_def Let_def split: option.splits)

lemma read_file_inv:
  assumes "pvs_inv contents s" "\<not> eof_reached s" "n \<noteq> Some 0"
  shows "pvs_inv contents (read_file n s)"
proof (cases n)
  case None
  then show ?thesis using assms by (simp add: read_file_def)
next
  case (Some k)
  then have k: "min k BUF_SIZE > 0" using assms(3) by (simp add: BUF_SIZE_def)
  show ?thesis using assms k by (auto simp: read_file_def pvs_inv_def Let_def Some min_def split: if_splits)
qed

lemma read_file_progress:
  assumes "n \<noteq> None" "n \<noteq> Some 0" "\<not> eof_reached s"
  shows "eof_reached (read_file n s) \<or> length (file_rest (read_file n s)) < length (file_rest s)"
proof -
  obtain k where k: "n = Some k" "k > 0" using assms(1,2) by (cases n) auto
  show ?thesis using k(2) assms(3) by (auto simp: read_file_def Let_def k(1) BUF_SIZE_def)
qed

lemma read_file_rest: "length (file_rest (read_file n s)) \<le> length (file_rest s)"
  by (simp add: read_file_def Let_def split: option.splits)

lemma pvs_body_running: "pvs_body fd_file r s = (b, t) \<Longrightarrow> keep_running t = keep_running s \<and> b = (sel r \<noteq> Select_fail)"
  by (auto simp: pvs_body_def Let_def split: select_ans.splits if_splits)

lemma pvs_body_ready:
  assumes "sel r = Select_ready fds" "pvs_body fd_file r s = (b, t)"
  shows "t = (if \<not> eof_reached (if 0 \<in> fds then read_stdin (stdin_read r) s else s) \<and> fd_file \<in> fds
               then read_file (file_read r) (if 0 \<in> fds then read_stdin (stdin_read r) s else s)
               else (if 0 \<in> fds then read_stdin (stdin_read r) s else s))"
  using assms(2) unfolding pvs_body_def assms(1) Let_def by simp

lemma pvs_body_inv:
  assumes "pvs_inv contents s" "file_read_ok r" "pvs_body fd_file r s = (b, t)"
  shows "pvs_inv contents t"
proof (cases "sel r")
  case (Select_ready fds)
  define s1 where "s1 = (if 0 \<in> fds then read_stdin (stdin_read r) s else s)"
  have i1: "pvs_inv contents s1" using assms(1) by (simp add: s1_def pvs_inv_cong [of "read_stdin (stdin_read r) s" s])
  have t: "t = (if \<not> eof_reached s1 \<and> fd_file \<in> fds then read_file (file_read r) s1 else s1)"
    using pvs_body_ready [OF Select_ready assms(3)] by (simp only: s1_def)
  show ?thesis using i1 assms(2) read_file_inv [OF i1] by (simp add: t file_read_ok_def)
qed (use assms in \<open>auto simp: pvs_body_def\<close>)

text \<open>The number of offers that are still needed.\<close>

definition todo :: "pvs \<Rightarrow> nat" where
  "todo s = (if eof_reached s then 0 else length (file_rest s) + 1)"

lemma pvs_body_todo:
  assumes "file_read_ok r" "pvs_body fd_file r s = (b, t)"
  shows "todo t \<le> todo s - (if offers fd_file r then 1 else 0)"
proof (cases "sel r")
  case (Select_ready fds)
  define s1 where "s1 = (if 0 \<in> fds then read_stdin (stdin_read r) s else s)"
  have e: "todo s1 = todo s" "eof_reached s1 = eof_reached s" by (simp_all add: s1_def todo_def)
  have t: "t = (if \<not> eof_reached s1 \<and> fd_file \<in> fds then read_file (file_read r) s1 else s1)"
    using pvs_body_ready [OF Select_ready assms(2)] by (simp only: s1_def)
  show ?thesis
  proof (cases "\<not> eof_reached s1 \<and> fd_file \<in> fds")
    case True
    with t have t': "t = read_file (file_read r) s1" by simp
    have le: "todo t \<le> todo s1" using True read_file_rest [of "file_read r" s1] by (simp add: t' todo_def)
    have "todo t \<le> todo s1 - 1" if "offers fd_file r"
      using that True assms(1) read_file_progress [of "file_read r" s1]
      by (auto simp: offers_def file_read_ok_def t' todo_def split: if_splits)
    then show ?thesis using le e(1) by auto
  next
    case False
    then show ?thesis using t e by (auto simp: offers_def Select_ready todo_def)
  qed
qed (use assms in \<open>auto simp: pvs_body_def offers_def\<close>)

lemma pvs_loop_stopped: "\<not> keep_running s \<Longrightarrow> pvs_loop fd_file rs s = (True, s)"
  by (subst pvs_loop.simps) simp

lemma pvs_loop_Nil: "keep_running s \<Longrightarrow> pvs_loop fd_file [] s = (False, s)"
  by (subst pvs_loop.simps) simp

lemma pvs_loop_Cons:
  assumes "keep_running s" "pvs_body fd_file r s = (b, t)"
  shows "pvs_loop fd_file (r # rs) s =
    (if sel r = Select_fail then (True, t) else if sigint r then (True, handle_sigint t) else pvs_loop fd_file rs t)"
  using assms pvs_body_running [OF assms(2)] by (subst pvs_loop.simps) (auto simp: pvs_loop_stopped)

lemma pvs_loop_correct:
  assumes "pvs_inv contents s" "\<forall>r \<in> set rs. file_read_ok r" "keep_running s" "pvs_loop fd_file rs s = (ended, t)"
  shows "pvs_inv contents t \<and> ended = (\<exists>r \<in> set rs. stops r) \<and>
    (\<not> ended \<longrightarrow> todo t \<le> todo s - length (filter (offers fd_file) rs))"
  using assms
proof (induction rs arbitrary: s)
  case Nil
  then show ?case by (simp add: pvs_loop_Nil)
next
  case (Cons r rs)
  obtain b u where u: "pvs_body fd_file r s = (b, u)" by (cases "pvs_body fd_file r s")
  have i: "pvs_inv contents u" using Cons.prems u by (intro pvs_body_inv [of contents s r fd_file b u]) simp_all
  have k: "keep_running u" using pvs_body_running [OF u] Cons.prems(3) by simp
  have d: "todo u \<le> todo s - (if offers fd_file r then 1 else 0)" using Cons.prems u by (intro pvs_body_todo [of r fd_file s b u]) simp_all
  note eq = Cons.prems(4) [unfolded pvs_loop_Cons [OF Cons.prems(3) u]]
  show ?case
  proof (cases "stops r")
    case True
    have "ended" "t = u \<or> t = handle_sigint u" using eq True by (auto simp: stops_def split: if_splits)
    then show ?thesis using True i by (auto simp: pvs_inv_cong [of "handle_sigint u" u])
  next
    case False
    then have "pvs_loop fd_file rs u = (ended, t)" using eq by (simp add: stops_def)
    from Cons.IH [OF i _ k this] Cons.prems(2) d show ?thesis by (auto simp: False)
  qed
qed


definition pvs_demo :: "pvs_round list" where
  "pvs_demo =
     [\<lparr>sel = Select_ready {0, 3}, stdin_read = Read_data [], file_read = Some 1, sigint = False\<rparr>,
      \<lparr>sel = Select_ready {0, 3}, stdin_read = Read_data [], file_read = Some 7, sigint = False\<rparr>,
      \<lparr>sel = Select_ready {0, 3}, stdin_read = Read_data [], file_read = Some 7, sigint = False\<rparr>]"

lemma pvs_demo_ok: "\<forall>r \<in> set pvs_demo. file_read_ok r \<and> offers 3 r \<and> \<not> stops r"
  by (simp add: pvs_demo_def file_read_ok_def offers_def stops_def)


end
