(* ===== verification/FileExamples.thy ===== *)
theory FileExamples
  imports Polling
begin

text \<open>
  Programs that acquire a few resources, use them once and release them: \<^verbatim>\<open>lesson_3\<close> (\<^verbatim>\<open>open.c\<close>, \<^verbatim>\<open>fsync.c\<close>, \<^verbatim>\<open>fdatasync.c\<close>), \<^verbatim>\<open>lesson_6\<close>
  (\<^verbatim>\<open>AIO.c\<close>, \<^verbatim>\<open>direct_IO.c\<close>), \<^verbatim>\<open>lesson_9/08_thread_stack_size.c\<close>, \<^verbatim>\<open>lesson_10/02_rng.c\<close> and \<^verbatim>\<open>lesson_11/04_mem_lock.c\<close>. Each is a function of the answers of
  the kernel and the set of resources held, with every early return. Messages are not modelled unless a result is printed.
\<close>

unbundle bit_operations_syntax

datatype resource = Fd int | Block nat | Locked nat | Attr | Thr

type_synonym held = "resource set"

section \<open>Synchronised files\<close>

text \<open>A file as the processes see it and as it is on the disk.\<close>

record synced_file =
  cache :: string
  disk :: string

text \<open>
  \<^verbatim>\<open>open\<close> truncates, one \<^verbatim>\<open>write\<close> of \<open>text\<close> writes the first \<open>n\<close> bytes or fails with a negative \<open>n\<close>, and the synchronisation moves the contents to the
  disk. The programs for \<^verbatim>\<open>fsync\<close> and \<^verbatim>\<open>fdatasync\<close> differ in the text and the call.
\<close>

definition sync_program :: "string \<Rightarrow> int \<times> int \<times> bool \<Rightarrow> synced_file \<Rightarrow> held \<Rightarrow> int \<times> synced_file \<times> held" where
  "sync_program text ans f h =
     (let (fd, n, sync_ok) = ans
      in if fd < 0 then (1, f, h)
         else
           (let h1 = insert (Fd fd) h; f1 = f\<lparr>cache := []\<rparr>
            in if n < 0 then (1, f1, h1 - {Fd fd})
               else
                 (let f2 = f1\<lparr>cache := take (nat n) text\<rparr>
                  in if \<not> sync_ok then (1, f2, h1 - {Fd fd})
                     else (0, f2\<lparr>disk := cache f2\<rparr>, h1 - {Fd fd}))))"

definition fsync_main :: "int \<times> int \<times> bool \<Rightarrow> synced_file \<Rightarrow> held \<Rightarrow> int \<times> synced_file \<times> held" where
  "fsync_main = sync_program (''Hello from fsync()!'' @ [CHR 0x0A])"

definition fdatasync_main :: "int \<times> int \<times> bool \<Rightarrow> synced_file \<Rightarrow> held \<Rightarrow> int \<times> synced_file \<times> held" where
  "fdatasync_main = sync_program (''Hello from fdatasync()!'' @ [CHR 0x0A])"

section \<open>Opening and permissions\<close>

text \<open>The result of \<^verbatim>\<open>get_file_permissions\<close> and the printed bits.\<close>

definition get_file_permissions :: "u32 option \<Rightarrow> int \<times> u32 option" where
  "get_file_permissions st = (case st of None \<Rightarrow> (-1, None) | Some st_mode \<Rightarrow> (0, Some (st_mode AND 4095)))"

text \<open>The descriptors returned by \<^verbatim>\<open>open\<close> and \<^verbatim>\<open>creat\<close>, -1 for a failure, which is only reported; \<^verbatim>\<open>close(-1)\<close> has no effect.\<close>

definition open_main :: "int \<times> u32 option \<times> int \<Rightarrow> held \<Rightarrow> int \<times> u32 option \<times> held" where
  "open_main ans h =
     (let (fd, st, fd2) = ans;
          h1 = (if fd = -1 then h else insert (Fd fd) h);
          shown = snd (get_file_permissions st);
          h2 = h1 - {Fd fd};
          h3 = (if fd2 = -1 then h2 else insert (Fd fd2) h2)
      in (0, shown, h3))"

section \<open>Asynchronous and direct I/O\<close>

text \<open>
  The busy loop on the answers of \<^verbatim>\<open>aio_error\<close> (\<open>True\<close> is \<^verbatim>\<open>EINPROGRESS\<close>): the number of turns, or \<open>None\<close> when it is still running after all of them.
\<close>

fun aio_wait :: "bool list \<Rightarrow> nat option" where
  "aio_wait [] = None"
| "aio_wait (True # rest) = map_option Suc (aio_wait rest)"
| "aio_wait (False # rest) = Some 0"

record aio_answers =
  aio_fd :: int
  aio_buf :: "nat option"
  aio_read_ok :: bool
  aio_errors :: "bool list"
  aio_status :: int

text \<open>The exit code, the reported number of bytes and what is held; \<open>None\<close> while it waits.\<close>

definition aio_main :: "aio_answers \<Rightarrow> held \<Rightarrow> (int \<times> int option \<times> held) option" where
  "aio_main a h =
     (if aio_fd a < 0 then Some (1, None, h)
      else
        (let h1 = insert (Fd (aio_fd a)) h;
             buf = (case aio_buf a of None \<Rightarrow> {} | Some b \<Rightarrow> {Block b});
             h2 = h1 \<union> buf
         in if \<not> aio_read_ok a then Some (1, None, h2 - {Fd (aio_fd a)})
            else case aio_wait (aio_errors a) of
                   None \<Rightarrow> None
                 | Some k \<Rightarrow> Some (0, if aio_status a = -1 then None else Some (aio_status a), h2 - buf - {Fd (aio_fd a)})))"

definition BLOCK_SIZE :: nat where "BLOCK_SIZE = 4096"

definition direct_buffer :: string where
  "direct_buffer = ''Hello Direct I/O!'' @ replicate (BLOCK_SIZE - 17) NUL"

text \<open>What is printed after the read: the number of bytes and the text, unless the buffer holds no terminating zero.\<close>

datatype read_back = Read_error | Read_text nat string | Text_overrun

record direct_answers =
  dio_fd :: int
  dio_buf :: "nat option"
  dio_write :: "nat option"
  dio_read :: "nat option"

definition direct_main :: "direct_answers \<Rightarrow> string \<Rightarrow> held \<Rightarrow> int \<times> read_back option \<times> string \<times> held" where
  "direct_main a f h =
     (if dio_fd a < 0 then (1, None, f, h)
      else
        (let h1 = insert (Fd (dio_fd a)) h
         in case dio_buf a of
              None \<Rightarrow> (1, None, f, h1 - {Fd (dio_fd a)})
            | Some b \<Rightarrow>
                (let f1 = (case dio_write a of None \<Rightarrow> f | Some n \<Rightarrow> write_at 0 (take n direct_buffer) f);
                     shown = (case dio_read a of
                         None \<Rightarrow> Read_error
                       | Some m \<Rightarrow>
                           (let d = take (min m BLOCK_SIZE) f1; buffer2 = d @ replicate (BLOCK_SIZE - length d) NUL
                            in if NUL \<in> set buffer2 then Read_text (length d) (cstr buffer2) else Text_overrun))
                 in (0, Some shown, f1, insert (Block b) h1 - {Block b} - {Fd (dio_fd a)}))))"

section \<open>Random numbers, locked memory, a thread with its own stack\<close>

text \<open>
  The four bytes of the uninitialised variable are overwritten by those that were read; \<open>None\<close> is a failed \<^verbatim>\<open>read\<close>.
\<close>

definition rng_main :: "int \<times> nat list option \<Rightarrow> nat list \<Rightarrow> held \<Rightarrow> int \<times> nat list option \<times> held" where
  "rng_main ans garbage h =
     (let (fd, rd) = ans
      in if fd < 0 then (1, None, h)
         else
           (let h1 = insert (Fd fd) h
            in case rd of
                 None \<Rightarrow> (1, None, h1 - {Fd fd})
               | Some bs \<Rightarrow> (let d = take 4 bs in (0, Some (d @ drop (length d) garbage), h1 - {Fd fd}))))"

datatype mlock_answer = Mlock_ok | Mlock_eperm | Mlock_error

definition mem_lock_main :: "nat option \<times> mlock_answer \<times> bool \<Rightarrow> held \<Rightarrow> int \<times> held" where
  "mem_lock_main ans h =
     (let (buf, mlock, munlock_ok) = ans
      in case buf of
           None \<Rightarrow> (1, h)
         | Some b \<Rightarrow>
             (let h1 = insert (Block b) h
              in if mlock \<noteq> Mlock_ok then (1, h1 - {Block b})
                 else
                   (let h2 = insert (Locked b) h1; h3 = (if munlock_ok then h2 - {Locked b} else h2)
                    in (0, h3 - {Block b}))))"

text \<open>The text that is written into the locked page.\<close>

definition locked_text :: string where
  "locked_text = ''This data will stay in RAM and not be swapped out.''"

definition STACK_SIZE :: nat where "STACK_SIZE = 64 * 1024"

definition stack_size_main :: "bool \<times> bool \<times> bool \<Rightarrow> held \<Rightarrow> int \<times> held" where
  "stack_size_main ans h =
     (let (init_ok, setstacksize_ok, create_ok) = ans
      in if \<not> init_ok then (1, h)
         else
           (let h1 = insert Attr h
            in if \<not> setstacksize_ok then (1, h1 - {Attr})
               else if \<not> create_ok then (1, h1 - {Attr})
               else (let h2 = insert Thr h1 in (0, h2 - {Attr} - {Thr}))))"

section \<open>What is acquired is released\<close>

text \<open>
  The contract of a program that gives back what it acquires, whatever it is answered: \<open>fresh\<close> says that the resources it may be given are not held.
\<close>

locale releasing =
  fixes run :: "'a \<Rightarrow> held \<Rightarrow> held" and fresh :: "'a \<Rightarrow> held \<Rightarrow> bool"
  assumes releases: "fresh a h \<Longrightarrow> run a h = h"
begin

text \<open>Any number of runs, one after the other, holds nothing in the end.\<close>

lemma runs_release: "\<forall>a \<in> set as. fresh a h \<Longrightarrow> fold run as h = h"
  by (induction as) (simp_all add: releases)

end

definition fresh_fd :: "int \<Rightarrow> held \<Rightarrow> bool" where
  "fresh_fd fd h \<longleftrightarrow> Fd fd \<notin> h"

interpretation fs: releasing "\<lambda>a h. snd (snd (sync_program d a f h))" "\<lambda>a h. fresh_fd (fst a) h" for d f
  by unfold_locales (auto simp: sync_program_def fresh_fd_def Let_def split: prod.splits if_splits)

interpretation di: releasing "\<lambda>a h. snd (snd (snd (direct_main a f h)))" "\<lambda>a h. fresh_fd (dio_fd a) h \<and> (\<forall>b. dio_buf a = Some b \<longrightarrow> Block b \<notin> h)" for f
  by unfold_locales (auto simp: direct_main_def fresh_fd_def Let_def split: option.splits)

interpretation rn: releasing "\<lambda>a h. snd (snd (rng_main a g h))" "\<lambda>a h. fresh_fd (fst a) h" for g
  by unfold_locales (auto simp: rng_main_def fresh_fd_def Let_def split: prod.splits if_splits option.splits)

interpretation ss: releasing "\<lambda>a h. snd (stack_size_main a h)" "\<lambda>a h. Attr \<notin> h \<and> Thr \<notin> h"
  by unfold_locales (auto simp: stack_size_main_def Let_def split: prod.splits if_splits)

interpretation ml: releasing "\<lambda>a h. snd (mem_lock_main a h)"
  "\<lambda>a h. \<forall>b. fst a = Some b \<longrightarrow> Block b \<notin> h \<and> Locked b \<notin> h \<and> snd (snd a)"
  by unfold_locales (auto simp: mem_lock_main_def Let_def split: prod.splits if_splits option.splits)

lemma aio_held:
  assumes "aio_main a h = Some (code, shown, h')" "fresh_fd (aio_fd a) h" "\<forall>b. aio_buf a = Some b \<longrightarrow> Block b \<notin> h"
  shows "h' = h \<union> (case aio_buf a of Some b \<Rightarrow> if aio_fd a \<ge> 0 \<and> \<not> aio_read_ok a then {Block b} else {} | None \<Rightarrow> {})"
  using assms by (auto simp: aio_main_def fresh_fd_def Let_def split: if_splits option.splits)

lemma aio_wait_ends: "False \<in> set es \<longleftrightarrow> (\<exists>k. aio_wait es = Some k)"
  by (induction es rule: aio_wait.induct) auto

lemma open_held:
  assumes "open_main (fd, st, fd2) h = (code, shown, h')" "fresh_fd fd h"
  shows "code = 0 \<and> h' = h \<union> (if fd2 = -1 then {} else {Fd fd2})"
  using assms by (auto simp: open_main_def fresh_fd_def Let_def split: if_splits)

lemma permissions_shown: "get_file_permissions (Some m) = (0, Some p) \<Longrightarrow> unat p < 4096"
proof -
  assume "get_file_permissions (Some m) = (0, Some p)"
  then have p: "p = m AND 4095" by (simp add: get_file_permissions_def)
  have "(4095 :: u32) = mask 12" by (simp add: mask_eq_exp_minus_1)
  then have "p = take_bit 12 m" by (simp add: p take_bit_eq_mask)
  then have "unat p = take_bit 12 (unat m)" by (simp add: unsigned_take_bit_eq)
  then show ?thesis by (simp add: take_bit_eq_mod)
qed

lemma locked_text_fits: "length locked_text + 1 \<le> 4096"
  by (simp add: locked_text_def)



section \<open>What is written is read back\<close>

lemma sync_program_durable:
  assumes "sync_program d (fd, n, ok) f h = (0, f', h')"
  shows "disk f' = take (nat n) d \<and> cache f' = disk f'"
  using assms by (auto simp: sync_program_def Let_def split: if_splits)



end
