(* ===== verification/AllocExamples.thy ===== *)
theory AllocExamples
  imports FileExamples
begin

text \<open>
  The allocation examples of \<^verbatim>\<open>lesson_11\<close> (\<^verbatim>\<open>00_mem_reg.c\<close>, \<^verbatim>\<open>01_common_alloc_err.c\<close>, \<^verbatim>\<open>03_stack_based_alloc.c\<close>), the streams per thread of \<^verbatim>\<open>lesson_5/01_file_IO_relegating.c\<close> and the
  threads of \<^verbatim>\<open>lesson_9/02_thread_model.c\<close>. Their pointers are used without a check, so the use of a null pointer is an outcome of its own.
\<close>

datatype alloc_error = Null_use | Stack_overflow

section \<open>Blocks\<close>

text \<open>\<^verbatim>\<open>malloc\<close> with the block it is answered, and \<^verbatim>\<open>free\<close>, where \<^verbatim>\<open>free(NULL)\<close> has no effect.\<close>

definition malloc_h :: "nat option \<Rightarrow> held \<Rightarrow> held" where
  "malloc_h p h = (case p of None \<Rightarrow> h | Some b \<Rightarrow> insert (Block b) h)"

definition free_h :: "nat option \<Rightarrow> held \<Rightarrow> held" where
  "free_h p h = (case p of None \<Rightarrow> h | Some b \<Rightarrow> h - {Block b})"

definition mem_reg_main :: "nat option \<Rightarrow> held \<Rightarrow> alloc_error + (int \<times> held)" where
  "mem_reg_main heap_var h = (if heap_var = None then Inl Null_use else Inr (0, free_h heap_var (malloc_h heap_var h)))"

definition alloc_err_main :: "nat option \<Rightarrow> nat option \<Rightarrow> nat option \<Rightarrow> nat option \<Rightarrow> held \<Rightarrow> alloc_error + (int \<times> held)" where
  "alloc_err_main leak ptr ptr2 buffer h =
     (let h1 = malloc_h leak h; h2 = malloc_h ptr h1
      in if ptr = None then Inl Null_use
         else
           (let h3 = free_h ptr h2; h4 = free_h ptr2 (malloc_h ptr2 h3)
            in Inr (0, free_h buffer (malloc_h buffer h4))))"

definition ARRAY_SIZE :: nat where "ARRAY_SIZE = 1000000"
definition ITERATIONS :: nat where "ITERATIONS = 1000"

text \<open>An array on the stack needs four bytes per element; \<open>room\<close> is what is left of the stack.\<close>

fun stack_loop :: "nat \<Rightarrow> nat \<Rightarrow> alloc_error + unit" where
  "stack_loop room 0 = Inr ()"
| "stack_loop room (Suc n) = (if 4 * ARRAY_SIZE \<le> room then stack_loop room n else Inl Stack_overflow)"

definition test_stack_allocation :: "nat \<Rightarrow> alloc_error + unit" where
  "test_stack_allocation room = stack_loop room ITERATIONS"

fun heap_loop :: "nat option list \<Rightarrow> held \<Rightarrow> alloc_error + held" where
  "heap_loop [] h = Inr h"
| "heap_loop (p # ps) h = (if p = None then Inl Null_use else heap_loop ps (free_h p (malloc_h p h)))"

definition test_heap_allocation :: "(nat \<Rightarrow> nat option) \<Rightarrow> held \<Rightarrow> alloc_error + held" where
  "test_heap_allocation answers h = heap_loop (map answers [0..<ITERATIONS]) h"

definition stack_alloc_main :: "nat \<Rightarrow> (nat \<Rightarrow> nat option) \<Rightarrow> held \<Rightarrow> alloc_error + (int \<times> held)" where
  "stack_alloc_main room answers h =
     and_then (test_stack_allocation room) (\<lambda>_. and_then (test_heap_allocation answers h) (\<lambda>h'. Inr (0, h')))"

section \<open>A stream per thread\<close>

definition NUM_IO_THREADS :: nat where "NUM_IO_THREADS = 2"

text \<open>A worker on its stream: five lines, or the use of a null stream. The line names the thread.\<close>

definition io_worker :: "nat \<Rightarrow> bool \<Rightarrow> alloc_error + string list" where
  "io_worker tid opened = (if opened then Inr (replicate 5 (''Thread '' @ decimal tid @ '' writing...'')) else Inl Null_use)"

definition log_name :: "nat \<Rightarrow> string" where
  "log_name i = c_truncate 32 (''thread_'' @ decimal i @ ''.log'')"

text \<open>
  The files and their lines; a file is only written by its own thread, so the interleaving has no effect on them.
\<close>

fun relegate_files :: "(nat \<Rightarrow> nat) \<Rightarrow> (nat \<Rightarrow> bool) \<Rightarrow> nat list \<Rightarrow> alloc_error + (string \<times> string list) list" where
  "relegate_files tids fopen_ok [] = Inr []"
| "relegate_files tids fopen_ok (i # is) =
     and_then (io_worker (tids i) (fopen_ok i)) (\<lambda>ls. map_sum id (\<lambda>fs. (log_name i, ls) # fs) (relegate_files tids fopen_ok is))"

definition relegate_main :: "(nat \<Rightarrow> nat) \<Rightarrow> (nat \<Rightarrow> bool) \<Rightarrow> alloc_error + (string \<times> string list) list" where
  "relegate_main tids fopen_ok = relegate_files tids fopen_ok [0..<NUM_IO_THREADS]"

section \<open>Three threads\<close>

text \<open>
  \<^verbatim>\<open>main\<close> creates threads until one creation fails, which ends the process, and joins them all otherwise: the exit code, the numbers the
  threads print and how many are joined.
\<close>

fun create_threads :: "(nat \<Rightarrow> bool) \<Rightarrow> nat list \<Rightarrow> bool \<times> nat list" where
  "create_threads create_ok [] = (True, [])"
| "create_threads create_ok (i # is) =
     (if \<not> create_ok i then (False, []) else (let (ok, ns) = create_threads create_ok is in (ok, (i + 1) # ns)))"

definition thread_model_main :: "(nat \<Rightarrow> bool) \<Rightarrow> int \<times> nat list \<times> nat" where
  "thread_model_main create_ok =
     (let (ok, started) = create_threads create_ok [0..<3] in if ok then (0, started, 3) else (1, started, 0))"

section \<open>Results\<close>

lemma free_malloc [simp]: "\<forall>b. p = Some b \<longrightarrow> Block b \<notin> h \<Longrightarrow> free_h p (malloc_h p h) = h"
  by (auto simp: free_h_def malloc_h_def split: option.splits)

lemma mem_reg_released: "Block b \<notin> h \<Longrightarrow> mem_reg_main (Some b) h = Inr (0, h)"
  by (simp add: mem_reg_main_def)

text \<open>The first block is lost; every other one is given back.\<close>

lemma alloc_err_leaks:
  assumes "distinct [a, b, c, d]" "Block a \<notin> h" "Block b \<notin> h" "Block c \<notin> h" "Block d \<notin> h"
  shows "alloc_err_main (Some a) (Some b) (Some c) (Some d) h = Inr (0, insert (Block a) h)"
  using assms by (auto simp: alloc_err_main_def malloc_h_def free_h_def Let_def)

lemma stack_loop_eq: "stack_loop room n = (if n = 0 \<or> 4 * ARRAY_SIZE \<le> room then Inr () else Inl Stack_overflow)"
  by (induction n) auto

lemma heap_loop_eq:
  "\<forall>p \<in> set ps. \<forall>b. p = Some b \<longrightarrow> Block b \<notin> h \<Longrightarrow> heap_loop ps h = (if None \<in> set ps then Inl Null_use else Inr h)"
  by (induction ps) auto

text \<open>The program needs four million bytes of stack and a thousand successful allocations, and then holds nothing.\<close>

lemma stack_alloc_result:
  assumes "\<forall>i b. answers i = Some b \<longrightarrow> Block b \<notin> h"
  shows "stack_alloc_main room answers h =
    (if room < 4000000 then Inl Stack_overflow else if \<exists>i < 1000. answers i = None then Inl Null_use else Inr (0, h))"
proof -
  have s: "test_stack_allocation room = (if room < 4000000 then Inl Stack_overflow else Inr ())"
    by (simp add: test_stack_allocation_def stack_loop_eq ARRAY_SIZE_def ITERATIONS_def)
  have "\<forall>p \<in> set (map answers [0..<1000]). \<forall>b. p = Some b \<longrightarrow> Block b \<notin> h" using assms by auto
  from heap_loop_eq [OF this] have "test_heap_allocation answers h = (if None \<in> answers ` {0..<1000} then Inl Null_use else Inr h)"
    by (simp add: test_heap_allocation_def ITERATIONS_def del: upt_rec_numeral)
  moreover have "None \<in> answers ` {0..<1000} \<longleftrightarrow> (\<exists>i < 1000. answers i = None)" by (force simp: image_iff)
  ultimately show ?thesis by (cases "\<exists>i < 1000. answers i = None") (auto simp: stack_alloc_main_def s)
qed

lemma relegate_result:
  "relegate_main tids fopen_ok =
    (if fopen_ok 0 \<and> fopen_ok 1
     then Inr [(''thread_0.log'', replicate 5 (''Thread '' @ decimal (tids 0) @ '' writing...'')),
               (''thread_1.log'', replicate 5 (''Thread '' @ decimal (tids 1) @ '' writing...''))]
     else Inl Null_use)"
proof -
  have n: "log_name 0 = ''thread_0.log''" "log_name (Suc 0) = ''thread_1.log''"
    by (simp_all add: log_name_def c_truncate_def decimal.simps) (simp_all add: char_of_def bit_Suc_0_iff)
  have "[0..<NUM_IO_THREADS] = [0, Suc 0]" by (simp add: NUM_IO_THREADS_def numeral_2_eq_2)
  then show ?thesis by (simp add: relegate_main_def io_worker_def n)
qed

lemma thread_model_result:
  "thread_model_main create_ok = (0, [1, 2, 3], 3) \<longleftrightarrow> create_ok 0 \<and> create_ok 1 \<and> create_ok 2"
  by (auto simp: thread_model_main_def numeral_3_eq_3 numeral_2_eq_2)

end
