(* ===== verification/SchedExamples.thy ===== *)
theory SchedExamples
  imports CString CyclicTest
begin

text \<open>
  The small scheduling programs of \<^verbatim>\<open>lesson_8\<close> (\<^verbatim>\<open>00_get_policy.c\<close>, \<^verbatim>\<open>01_set_policy.c\<close>, \<^verbatim>\<open>02_nice_values.c\<close>, \<^verbatim>\<open>04_nanosleep.c\<close>, \<^verbatim>\<open>05_cpu_affinity.c\<close>,
  \<^verbatim>\<open>08_bbb_rt.c\<close>), the clock resolutions of \<^verbatim>\<open>lesson_12/00_clk_src.c\<close> and the signal catcher of \<^verbatim>\<open>lesson_2\<close>. What the kernel answers is an argument; the result is the exit
  code with the values that are printed or passed to the kernel.
\<close>

section \<open>Policies and priorities\<close>

definition SCHED_OTHER :: int where "SCHED_OTHER = 0"
definition SCHED_FIFO :: int where "SCHED_FIFO = 1"
definition SCHED_RR :: int where "SCHED_RR = 2"
definition SCHED_BATCH :: int where "SCHED_BATCH = 3"
definition SCHED_IDLE :: int where "SCHED_IDLE = 5"
definition SCHED_DEADLINE :: int where "SCHED_DEADLINE = 6"

lemmas sched_defs = SCHED_OTHER_def SCHED_FIFO_def SCHED_RR_def SCHED_BATCH_def SCHED_IDLE_def SCHED_DEADLINE_def

datatype policy_text = Text string | Unknown int

definition policy_name :: "int \<Rightarrow> policy_text" where
  "policy_name policy =
     (if policy = SCHED_FIFO then Text ''SCHED_FIFO (real-time, first-in-first-out)''
      else if policy = SCHED_RR then Text ''SCHED_RR (real-time, round-robin)''
      else if policy = SCHED_OTHER then Text ''SCHED_OTHER (normal)''
      else if policy = SCHED_BATCH then Text ''SCHED_BATCH (batch)''
      else if policy = SCHED_IDLE then Text ''SCHED_IDLE (idle)''
      else if policy = SCHED_DEADLINE then Text ''SCHED_DEADLINE (real-time, deadline)''
      else Unknown policy)"

record sched_kernel =
  getparam :: "int \<Rightarrow> int option"
  getscheduler :: "int \<Rightarrow> int"
  prio_min :: "int \<Rightarrow> int"
  prio_max :: "int \<Rightarrow> int"

text \<open>The process, its policy, its priority and the range of priorities, or the exit code of a failure.\<close>

definition get_policy_main :: "sched_kernel \<Rightarrow> int \<Rightarrow> string list \<Rightarrow> int + (int \<times> policy_text \<times> int \<times> (int \<times> int) option)" where
  "get_policy_main k own args =
     (let pid = (case args of [] \<Rightarrow> own | a # _ \<Rightarrow> atoi a)
      in case getparam k pid of
           None \<Rightarrow> Inl 1
         | Some prio \<Rightarrow>
             (let policy = getscheduler k pid
              in if policy = -1 then Inl 1
                 else Inr (pid, policy_name policy, prio,
                        (if policy = SCHED_FIFO \<or> policy = SCHED_RR then
                           (let mn = prio_min k policy; mx = prio_max k policy
                            in if mn \<noteq> -1 \<and> mx \<noteq> -1 then Some (mn, mx) else None)
                         else None))))"

text \<open>The exit code and the policy and priority that are set.\<close>

definition set_policy_main :: "sched_kernel \<Rightarrow> bool \<Rightarrow> int \<times> (int \<times> int) option" where
  "set_policy_main k set_ok =
     (let policy = SCHED_RR; max_prio = prio_max k policy; min_prio = prio_min k policy
      in if max_prio = -1 \<or> min_prio = -1 then (1, None)
         else
           (let prio = min_prio + ((max_prio - min_prio) * 3) sdiv 4
            in if \<not> set_ok then (1, None) else (0, Some (policy, prio))))"

text \<open>The nice values printed before and after; \<open>get\<close> maps the value of the process to what \<^verbatim>\<open>getpriority\<close> returns.\<close>

definition nice_main :: "(int \<Rightarrow> int) \<Rightarrow> bool \<Rightarrow> int \<Rightarrow> int \<times> int list \<times> int" where
  "nice_main get set_ok nv = (if \<not> set_ok then (1, [get nv], nv) else (let n2 = 10 in (0, [get nv, get n2], n2)))"

section \<open>Sleeping\<close>

text \<open>An answer of \<^verbatim>\<open>nanosleep\<close> with the time that has passed in nanoseconds; an interruption also gives the remaining time.\<close>

datatype sleep_ans = Slept int | Interrupted int tspec | Sleep_error

text \<open>
  The loop: the exit code, the remaining times that were printed and the total time, or \<open>None\<close> while it is sleeping after all the answers.
\<close>

fun sleep_loop :: "tspec \<Rightarrow> sleep_ans list \<Rightarrow> (int \<times> tspec list \<times> int) option" where
  "sleep_loop req [] = None"
| "sleep_loop req (Slept t # rest) = Some (0, [], t)"
| "sleep_loop req (Interrupted t rem # rest) = map_option (\<lambda>(c, ms, total). (c, rem # ms, t + total)) (sleep_loop rem rest)"
| "sleep_loop req (Sleep_error # rest) = Some (1, [], 0)"

definition sleep_request :: tspec where
  "sleep_request = \<lparr>tv_sec = 100, tv_nsec = 10500000\<rparr>"

definition nanosleep_main :: "sleep_ans list \<Rightarrow> (int \<times> tspec list \<times> int) option" where
  "nanosleep_main as = sleep_loop sleep_request as"

text \<open>What the kernel promises: it sleeps at least as long as asked, or says what is left.\<close>

fun sleep_ok :: "tspec \<Rightarrow> sleep_ans list \<Rightarrow> bool" where
  "sleep_ok req [] = True"
| "sleep_ok req (Slept t # rest) = (ns req \<le> t)"
| "sleep_ok req (Interrupted t rem # rest) = (ns rem = ns req - t \<and> 0 \<le> t \<and> t \<le> ns req \<and> normal rem \<and> sleep_ok rem rest)"
| "sleep_ok req (Sleep_error # rest) = True"

section \<open>CPU affinity\<close>

definition affinity_row :: "nat \<Rightarrow> nat set \<Rightarrow> bool list" where
  "affinity_row cpu_count cpu_set = map (\<lambda>i. i \<in> cpu_set) [0..<cpu_count]"

text \<open>The answers of the two \<^verbatim>\<open>sched_getaffinity\<close> calls and of \<^verbatim>\<open>sched_setaffinity\<close>; the printed rows and the set passed to the kernel.\<close>

definition affinity_main :: "nat \<Rightarrow> nat set option \<Rightarrow> bool \<Rightarrow> (nat set \<Rightarrow> nat set option) \<Rightarrow> int \<times> bool list list \<times> nat set option" where
  "affinity_main cpu_count get1 set_ok get2 =
     (case get1 of
        None \<Rightarrow> (1, [], None)
      | Some a \<Rightarrow>
          (let row1 = affinity_row cpu_count a; cpu_set = insert 0 {}
           in if \<not> set_ok then (1, [row1], None)
              else case get2 cpu_set of
                     None \<Rightarrow> (1, [row1], Some cpu_set)
                   | Some b \<Rightarrow> (0, [row1, affinity_row cpu_count b], Some cpu_set)))"

section \<open>The check of a real-time kernel\<close>

text \<open>\<^verbatim>\<open>strstr(s, p) != NULL\<close>.\<close>

fun contains :: "string \<Rightarrow> string \<Rightarrow> bool" where
  "contains p [] = (p = [])"
| "contains p (c # s) = (take (length p) (c # s) = p \<or> contains p s)"

text \<open>The first line of \<^verbatim>\<open>/proc/version\<close>, if it can be opened and read, and whether the kernel is reported as real-time.\<close>

definition check_rt_kernel :: "string option \<Rightarrow> string option \<times> bool" where
  "check_rt_kernel line =
     (case line of
        None \<Rightarrow> (None, False)
      | Some l \<Rightarrow> (let config_line = take 255 l in (Some config_line, contains ''PREEMPT_RT'' config_line)))"

definition rt_policy_name :: "int \<Rightarrow> policy_text option" where
  "rt_policy_name policy =
     (if policy = SCHED_FIFO then Some (Text ''SCHED_FIFO'')
      else if policy = SCHED_RR then Some (Text ''SCHED_RR'')
      else if policy = SCHED_OTHER then Some (Text ''SCHED_OTHER (normal)'')
      else if policy = -1 then None
      else Some (Unknown policy))"

text \<open>The policy, the maximal priority and whether the memory could be locked; it is unlocked again at once.\<close>

definition check_rt_scheduling :: "sched_kernel \<Rightarrow> bool \<Rightarrow> policy_text option \<times> int \<times> bool" where
  "check_rt_scheduling k mlockall_ok =
     (rt_policy_name (getscheduler k 0), prio_max k SCHED_FIFO, mlockall_ok)"

datatype clock_id = CLOCK_REALTIME | CLOCK_MONOTONIC | CLOCK_MONOTONIC_RAW | CLOCK_PROCESS_CPUTIME_ID

definition measure_clock_resolution :: "(clock_id \<Rightarrow> tspec option) \<Rightarrow> tspec option list" where
  "measure_clock_resolution getres = map getres [CLOCK_REALTIME, CLOCK_MONOTONIC, CLOCK_MONOTONIC_RAW]"

definition bbb_rt_main ::
  "string option \<Rightarrow> sched_kernel \<Rightarrow> bool \<Rightarrow> (clock_id \<Rightarrow> tspec option) \<Rightarrow>
   int \<times> (string option \<times> bool) \<times> (policy_text option \<times> int \<times> bool) \<times> tspec option list" where
  "bbb_rt_main line k mlockall_ok getres = (0, check_rt_kernel line, check_rt_scheduling k mlockall_ok, measure_clock_resolution getres)"

text \<open>\<^verbatim>\<open>00_clk_src.c\<close> stops at the first failure.\<close>

fun print_resolutions :: "(clock_id \<Rightarrow> tspec option) \<Rightarrow> clock_id list \<Rightarrow> int \<times> tspec list" where
  "print_resolutions getres [] = (0, [])"
| "print_resolutions getres (c # cs) =
     (case getres c of None \<Rightarrow> (1, []) | Some r \<Rightarrow> (let (code, rs) = print_resolutions getres cs in (code, r # rs)))"

definition clk_src_main :: "(clock_id \<Rightarrow> tspec option) \<Rightarrow> int \<times> tspec list" where
  "clk_src_main getres = print_resolutions getres [CLOCK_REALTIME, CLOCK_MONOTONIC, CLOCK_PROCESS_CPUTIME_ID]"

section \<open>Catching signals\<close>

datatype signal = SIGINT | SIGTERM

text \<open>The handler ends the program for the two signals it is registered for.\<close>

definition signal_handler :: "signal \<Rightarrow> int" where
  "signal_handler signum = (case signum of SIGINT \<Rightarrow> 0 | SIGTERM \<Rightarrow> 0)"

text \<open>The exit code on the signals that arrive, \<open>None\<close> while the program is paused.\<close>

definition catcher_main :: "bool \<Rightarrow> bool \<Rightarrow> signal list \<Rightarrow> int option" where
  "catcher_main int_ok term_ok signals =
     (if \<not> int_ok then Some 1 else if \<not> term_ok then Some 1
      else case signals of [] \<Rightarrow> None | s # _ \<Rightarrow> Some (signal_handler s))"

section \<open>Results\<close>

lemma contains_iff: "contains p s \<longleftrightarrow> (\<exists>a b. s = a @ p @ b)"
proof (induction s)
  case (Cons c s)
  have "take (length p) (c # s) = p \<longleftrightarrow> (\<exists>b. c # s = p @ b)" by (metis append_eq_conv_conj)
  moreover have "(\<exists>a b. s = a @ p @ b) \<longleftrightarrow> (\<exists>a b. c # s = (c # a) @ p @ b)" by simp
  moreover have "(\<exists>a b. c # s = a @ p @ b) \<longleftrightarrow> (\<exists>b. c # s = p @ b) \<or> (\<exists>a b. c # s = (c # a) @ p @ b)"
  proof -
    have "(\<exists>b. c # s = a @ p @ b) \<longrightarrow> a = [] \<or> (\<exists>a'. a = c # a')" for a by (cases a) auto
    then show ?thesis by (metis append_Nil)
  qed
  ultimately show ?case using Cons.IH by simp
qed simp

lemma priority_in_range:
  assumes "mn \<le> (mx :: int)"
  shows "mn \<le> mn + ((mx - mn) * 3) sdiv 4 \<and> mn + ((mx - mn) * 3) sdiv 4 \<le> mx"
proof -
  have "0 \<le> (mx - mn) * 3" using assms by simp
  then have "((mx - mn) * 3) sdiv 4 = ((mx - mn) * 3) div 4" by (simp add: signed_divide_int_def sgn_if)
  moreover have "0 \<le> z \<Longrightarrow> 0 \<le> (z * 3) div 4 \<and> (z * 3) div 4 \<le> z" for z :: int by presburger
  from this [of "mx - mn"] have "0 \<le> ((mx - mn) * 3) div 4 \<and> ((mx - mn) * 3) div 4 \<le> mx - mn" using assms by simp
  ultimately show ?thesis by simp
qed

lemma ns_request: "ns sleep_request = 100010500000"
  by (simp add: ns_def sleep_request_def)

text \<open>However often it is interrupted, the program sleeps as long as it asked for.\<close>

lemma sleep_loop_total:
  "sleep_ok req as \<Longrightarrow> sleep_loop req as = Some (0, ms, tot) \<Longrightarrow> ns req \<le> tot"
  by (induction req as arbitrary: ms tot rule: sleep_loop.induct) force+

text \<open>The remaining times that are printed never increase.\<close>

lemma sleep_loop_remaining:
  "sleep_ok req as \<Longrightarrow> sleep_loop req as = Some (c, ms, tot) \<Longrightarrow> sorted_wrt (\<lambda>a b. ns b \<le> ns a) (req # ms)"
proof (induction req as arbitrary: c ms tot rule: sleep_loop.induct)
  case (3 req t rem rest)
  then obtain ms' tot' where s: "sleep_loop rem rest = Some (c, ms', tot')" "ms = rem # ms'" by auto
  have ih: "sorted_wrt (\<lambda>a b. ns b \<le> ns a) (rem # ms')" using 3 s by simp
  have le: "ns rem \<le> ns req" using "3.prems"(1) by simp
  have "\<forall>x \<in> set ms'. ns x \<le> ns req" using ih le by force
  then show ?case using ih le by (simp add: s)
qed auto

lemma sleep_loop_ends: "Slept t \<in> set as \<Longrightarrow> sleep_loop req as \<noteq> None"
  by (induction req as rule: sleep_loop.induct) auto

text \<open>
  The scheduling examples pass valid requests to the kernel. If the kernel has a range of priorities for the policy, the priority
  of \<^verbatim>\<open>01_set_policy\<close> is inside it, 74 for the range from 1 to 99, and the policy is \<^verbatim>\<open>SCHED_RR\<close>, although the message names \<^verbatim>\<open>SCHED_FIFO\<close>. After \<^verbatim>\<open>05_cpu_affinity\<close> the process is bound to CPU 0 and the second
  row says so. \<^verbatim>\<open>04_nanosleep\<close> sleeps, however often it is interrupted, at least the 100.0105 seconds it asks for (its message
  says 10.5 ms), the remaining times it prints never increase, and it ends once a sleep is not interrupted.
\<close>

lemma sched_examples:
  assumes "0 \<le> prio_min k SCHED_RR" "prio_min k SCHED_RR \<le> prio_max k SCHED_RR" "sleep_ok sleep_request as" "\<forall>a. get2 a = Some a"
  shows "(\<exists>p. set_policy_main k True = (0, Some (SCHED_RR, p)) \<and> prio_min k SCHED_RR \<le> p \<and> p \<le> prio_max k SCHED_RR \<and>
       (prio_min k SCHED_RR = 1 \<and> prio_max k SCHED_RR = 99 \<longrightarrow> p = 74)) \<and>
    (0 < n \<longrightarrow> affinity_main n (Some c) True get2 = (0, [affinity_row n c, True # replicate (n - 1) False], Some {0})) \<and>
    (nanosleep_main as = Some (code, ms, tot) \<longrightarrow>
       (code = 0 \<longrightarrow> 100010500000 \<le> tot) \<and> sorted_wrt (\<lambda>a b. ns b \<le> ns a) (sleep_request # ms)) \<and>
    (Slept t \<in> set as \<longrightarrow> nanosleep_main as \<noteq> None)"
proof (intro conjI impI)
  let ?mn = "prio_min k SCHED_RR" and ?mx = "prio_max k SCHED_RR"
  let ?p = "?mn + ((?mx - ?mn) * 3) sdiv 4"
  have "set_policy_main k True = (0, Some (SCHED_RR, ?p))" using assms(1,2) by (simp add: set_policy_main_def Let_def)
  moreover have "?mn = 1 \<and> ?mx = 99 \<longrightarrow> ?p = 74" by (auto simp: signed_divide_int_def)
  ultimately show "\<exists>p. set_policy_main k True = (0, Some (SCHED_RR, p)) \<and> ?mn \<le> p \<and> p \<le> ?mx \<and> (?mn = 1 \<and> ?mx = 99 \<longrightarrow> p = 74)"
    using priority_in_range [OF assms(2)] by blast
  show "affinity_main n (Some c) True get2 = (0, [affinity_row n c, True # replicate (n - 1) False], Some {0})" if n: "0 < n"
  proof -
    have "affinity_row n {0} = True # replicate (n - 1) False"
    proof (rule nth_equalityI)
      fix i assume "i < length (affinity_row n {0})"
      then have "i < n" by (simp add: affinity_row_def)
      then show "affinity_row n {0} ! i = (True # replicate (n - 1) False) ! i" by (cases i) (simp_all add: affinity_row_def)
    qed (use n in \<open>simp add: affinity_row_def\<close>)
    then show ?thesis using assms(4) by (simp add: affinity_main_def Let_def)
  qed
  show "100010500000 \<le> tot" if "nanosleep_main as = Some (code, ms, tot)" "code = 0"
    using that sleep_loop_total [OF assms(3), of ms tot] by (simp add: nanosleep_main_def ns_request)
  show "sorted_wrt (\<lambda>a b. ns b \<le> ns a) (sleep_request # ms)" if "nanosleep_main as = Some (code, ms, tot)"
    using that sleep_loop_remaining [OF assms(3)] by (simp only: nanosleep_main_def)
  show "nanosleep_main as \<noteq> None" if "Slept t \<in> set as" using that sleep_loop_ends by (simp add: nanosleep_main_def)
qed

definition linux_sched :: sched_kernel where
  "linux_sched = \<lparr>getparam = \<lambda>_. Some 0, getscheduler = \<lambda>_. 0, prio_min = \<lambda>_. 1, prio_max = \<lambda>_. 99\<rparr>"

definition two_naps :: "sleep_ans list" where
  "two_naps = [Interrupted 60000000000 \<lparr>tv_sec = 40, tv_nsec = 10500000\<rparr>, Slept 40010500000]"

lemma rt_kernel_reported:
  "snd (check_rt_kernel line) \<longleftrightarrow> (\<exists>l a b. line = Some l \<and> take 255 l = a @ ''PREEMPT_RT'' @ b)"
  by (cases line) (simp_all add: check_rt_kernel_def contains_iff Let_def)

lemma clk_src_complete: "fst (clk_src_main getres) = 0 \<longleftrightarrow>
    (\<forall>c \<in> {CLOCK_REALTIME, CLOCK_MONOTONIC, CLOCK_PROCESS_CPUTIME_ID}. getres c \<noteq> None)"
  by (auto simp: clk_src_main_def split: option.splits)

lemma policy_names_distinct: "policy_name p = policy_name q \<longleftrightarrow> p = q"
  by (auto simp: policy_name_def sched_defs split: if_splits)

end
