(* ===== verification/Spec2Isabelle.thy ===== *)
theory Spec2Isabelle
  imports WorkQueue_System Deadlock EventServer_Inv Timers EventFd Gpio MemAlign Fibonacci
    Race DaemonThread LedSysfs CyclicTest FifoDemo Logger AffinityReport FileCopy FifoChat SysfsGpio Yielding EventClients TimersMain
    EventLoop FifoDemo_System Daemons ThreadTerm Processes AllocExamples SchedExamples
begin

text \<open>
  Verification of the example programs of an embedded Linux course (C, under \<^verbatim>\<open>src/\<close>). The programs are independent
  of each other; each is a component here, and the larger ones are systems of threads or processes that share memory,
  queues, descriptors or signals. What they have in common is the subject of the shared theories.

  \<^bold>\<open>How the code is modelled.\<close> A struct is a record, an enumeration or a kind of answer a datatype, a machine integer a word or
  an integer whose wrap-around or range is written out, a C array a list, a heap a map from addresses to blocks. A sequential
  function is a function on the state; memory errors and early returns are values of a sum or option type. A thread or process is
  a program counter with a step function (one step per access to shared state or per system call that another thread can
  observe), a concurrent program the step relation of all of them, so every interleaving is covered. The answers of the kernel
  and of the C library are arguments: a result holds for all of them unless it names what it assumes. Loops are
  structural recursion or have a termination proof; a loop that may run for ever is a step relation, or, for
  \<^verbatim>\<open>mutex_lock_with_timeout\<close>, a partial function into an option. No fuel is used.

  \<^bold>\<open>Shared theories.\<close>
  \<^item> \<open>Prelude\<close>: types, array scans, sequencing of fallible steps, buffers, truncating division.
  \<^item> \<open>Transition\<close>: the contracts \<open>invariant_system\<close> and \<open>terminating_system\<close> of a step relation; every concurrent
    component interprets one of them, and its properties rest on the facts of the interpretation.
  \<^item> \<open>Fifo\<close>: the contract \<open>bounded_fifo\<close>, interpreted by the ring buffer of the work queue.
  \<^item> \<open>Slots\<close>: the contract \<open>slot_table\<close> of a table with first-free allocation, interpreted by an array of pointers (the clients of
    the server, the descriptors of the daemons) and by the timer table.
  \<^item> \<open>ByteMem\<close>: the contract \<open>field_memory\<close> of disjoint fields of a byte array, interpreted by little-endian stores
    and loads (the shared structure of the affinity experiment).
  \<^item> \<open>ProcTable\<close>: the process table of the kernel (parents, zombies, the reaper, a pending \<^verbatim>\<open>SIGCHLD\<close>), over which the process examples run.
  \<^item> \<open>Locks\<close>: programs over mutexes and the theorem that a lock order excludes deadlock; \<open>CString\<close>: C strings and \<^verbatim>\<open>strtoul\<close>.

  \<^bold>\<open>Components\<close> (file under \<^verbatim>\<open>src/\<close>, theory, what is shown).
  \<^item> \<^verbatim>\<open>lesson_9/.../04_work_queue_pattern.c\<close>: \<open>WorkQueue\<close> (all operations of the queue, refinement of a bounded list),
    \<open>WorkQueue_System\<close> (\<^verbatim>\<open>main\<close> and the workers: bounded runs, no deadlock, each task executed once, what is leaked).
  \<^item> \<^verbatim>\<open>07_dead_lock.c\<close>: \<open>Deadlock\<close> (lock order, timeouts, the circular wait, cancellation).
  \<^item> \<^verbatim>\<open>05_event_driven_server.c\<close>: \<open>EventServer\<close> (server thread), \<open>EventServer_Inv\<close> (memory safety of orderly events, the
    use after free, echo, shutdown), \<open>EventClients\<close> (client threads and \<^verbatim>\<open>main\<close>).
  \<^item> \<^verbatim>\<open>lesson_12/.../01_timer_callback.c\<close>: \<open>Timers\<close> (table, signal handler, callback threads), \<open>TimersMain\<close> (\<^verbatim>\<open>main\<close> with
    expiries at any time).
  \<^item> \<^verbatim>\<open>lesson_5\<close>: \<open>EventFd\<close> (\<^verbatim>\<open>04_eventfd.c\<close>: rounds of messages and acknowledgements), \<open>FifoDemo\<close> and
    \<open>FifoDemo_System\<close> (\<^verbatim>\<open>epoll_multi_buffer_fds.c\<close>: framing of \<^verbatim>\<open>readv\<close>, and the two processes from opening to exit), \<open>Logger\<close>
    (\<^verbatim>\<open>01_multithreaded_relegated.c\<close>), \<open>FileCopy\<close> (\<^verbatim>\<open>00_streams.c\<close>, \<^verbatim>\<open>scatter_writes.c\<close>, and \<^verbatim>\<open>lesson_3/.../write.c\<close>).
  \<^item> \<^verbatim>\<open>lesson_3/.../read.c\<close>: \<open>FifoChat\<close> (two processes over a FIFO, blocking or not).
  \<^item> \<^verbatim>\<open>lesson_4\<close>: \<open>Polling\<close> (\<^verbatim>\<open>00_EOF_and_beyond.c\<close>, \<^verbatim>\<open>select.c\<close>, \<^verbatim>\<open>poll.c\<close>, \<^verbatim>\<open>poll-vs-select.c\<close>: what the loops print and when they end, for any
    answers of the kernel that keep its promises).
  \<^item> \<^verbatim>\<open>lesson_7\<close>: \<open>Daemons\<close> (\<^verbatim>\<open>04_deamon_example.c\<close>, \<^verbatim>\<open>06_data_collection_deamon.c\<close>); \<open>Processes\<close> (\<^verbatim>\<open>00_proc_term.c\<close>, \<^verbatim>\<open>01_proc_wait.c\<close>, \<^verbatim>\<open>02_zombies.c\<close>,
    \<^verbatim>\<open>03_zombies_demo.c\<close>, \<^verbatim>\<open>05_reparenting.c\<close> and the \<^verbatim>\<open>fork\<close> examples of lessons 2, 6 and 9: waiting, reaping, orphans).
  \<^item> \<^verbatim>\<open>lesson_8\<close>: \<open>Affinity\<close> (\<^verbatim>\<open>06_affinity_advance.c\<close>: shared structure with its layout, workers, monitor), \<open>AffinityReport\<close> (its parsers of
    \<^verbatim>\<open>/proc\<close> and its report), \<open>Yielding\<close> (\<^verbatim>\<open>03_process_yielding.c\<close>), \<open>SchedExamples\<close> (the small scheduling programs, \<^verbatim>\<open>08_bbb_rt.c\<close>, \<^verbatim>\<open>lesson_12/.../00_clk_src.c\<close>
    and the signal catcher of lesson 2), \<open>CyclicTest\<close> (\<^verbatim>\<open>07_cyclic_test.c\<close>), \<open>SysfsGpio\<close> (\<^verbatim>\<open>09_sysfs_gpio.c\<close>, \<^verbatim>\<open>10_gpio_input.c\<close>).
  \<^item> \<^verbatim>\<open>lesson_9\<close>: \<open>Fibonacci\<close> (\<^verbatim>\<open>03_co_routines.c\<close>), \<open>Race\<close> (\<^verbatim>\<open>06_race.c\<close>), \<open>DaemonThread\<close> (\<^verbatim>\<open>10_deamon_thread.c\<close>), \<open>EventLoop\<close>
    (\<^verbatim>\<open>01_event_loop.c\<close>), \<open>ThreadTerm\<close> (\<^verbatim>\<open>09_thread_term.c\<close>: results, cleanup handlers and cancellation).
  \<^item> \<^verbatim>\<open>lesson_10\<close>: \<open>Gpio\<close> (\<^verbatim>\<open>01_pin_config.c\<close>: registers, patterns, \<^verbatim>\<open>main\<close>; the hardware is a parameter with laws),
    \<open>LedSysfs\<close> (\<^verbatim>\<open>00_led.c\<close>).
  \<^item> \<^verbatim>\<open>lesson_11\<close>: \<open>MemAlign\<close> (\<^verbatim>\<open>02_mem_align.c\<close>: misaligned allocation, the benchmark), \<open>AllocExamples\<close> (the other allocation examples, and the threads
    of \<^verbatim>\<open>lesson_5/01_file_IO_relegating.c\<close> and \<^verbatim>\<open>lesson_9/.../02_thread_model.c\<close>).
  \<^item> Programs that acquire resources, use them once and release them (\<^verbatim>\<open>open.c\<close>, \<^verbatim>\<open>fsync.c\<close>, \<^verbatim>\<open>fdatasync.c\<close>, \<^verbatim>\<open>AIO.c\<close>, \<^verbatim>\<open>direct_IO.c\<close>, \<^verbatim>\<open>02_rng.c\<close>, \<^verbatim>\<open>04_mem_lock.c\<close>,
    \<^verbatim>\<open>08_thread_stack_size.c\<close>): \<open>FileExamples\<close>, with the contract \<open>releasing\<close> of a program that gives back what it acquires.

  \<^bold>\<open>Kinds of results.\<close> Refinement (bounded queue, schedule of the event loop); invariants over every reachable state (server, timers, process
  table); liveness and termination (work queue, lock order, lock timeouts, race, logger, thread termination, waiting parents, shutdown of the
  yielding processes); round trips (creation and deletion of timers, direct I/O, parsed lines, scatter and gather); equivalences (Fibonacci, the two copies); bounds (SIMD loop,
  layout of the shared structure, integer counters); behaviour on errors (freed clients, missing log file, resources on every failure path). Where the code does not do what it means to, the
  theorem states what it does: the run that goes wrong is exhibited as a reachable state.

  \<^bold>\<open>Not modelled.\<close> Messages that print only constants, the lengths of sleeps and measured times; the arithmetic of \<^verbatim>\<open>double\<close> (a parameter where the
  programs compute with it); the commands that \<^verbatim>\<open>08_bbb_rt.c\<close> gives to a shell; programs without state (lessons 0 and 1, \<^verbatim>\<open>sync.c\<close>, \<^verbatim>\<open>error_handlng.c\<close>, the kernel
  module that only logs, \<^verbatim>\<open>get_cwd.c\<close>); \<^verbatim>\<open>tools/usage.c\<close>, a collection of prototypes that is not a program; the text that \<^verbatim>\<open>write.c\<close> writes, which is a
  parameter; build files, images and documents. The copies of \<^verbatim>\<open>00_led.c\<close>, \<^verbatim>\<open>07_cyclic_test.c\<close> and \<^verbatim>\<open>08_bbb_rt.c\<close> under \<^verbatim>\<open>meta-yocto-workshop\<close> are identical to
  the modelled files.

  \<^bold>\<open>Extensions planned.\<close> Shared waits of \<^verbatim>\<open>poll.c\<close> and the FIFO programs over one model of a pipe; the error paths of the creation of threads in
  \<^verbatim>\<open>09_thread_term.c\<close>.
\<close>

end
